(* ===== verification/Apitap_Prelude.thy ===== *)
theory Apitap_Prelude
  imports Main "HOL-Library.Word" "HOL-Library.AList"
begin

unbundle bit_operations_syntax

text \<open>
  The vocabulary shared by every component: bytes and machine integers, Rust's
  \<^verbatim>\<open>Result\<close> with a panic as one more error value, slices and indexed
  writes that fail where Rust panics, big-endian integers, decimal and hexadecimal
  text, UTF-8 validity, and a locale for folds of fallible steps. The lemmas are
  declared \<open>simp\<close> or collected in \<open>result_simps\<close> so the component proofs can
  lean on them.
\<close>

named_theorems result_simps "facts that open a successful fallible computation"

section \<open>Bytes and machine integers\<close>

type_synonym byte = "8 word"
type_synonym bytes = "8 word list"
type_synonym u16 = "16 word"
type_synonym u32 = "32 word"
type_synonym u64 = "64 word"

text \<open>ASCII text as bytes; a Rust string is its UTF-8 bytes.\<close>

definition ascii :: "string \<Rightarrow> bytes" where
  "ascii s = map of_char s"

definition byte_of :: "char \<Rightarrow> byte" where
  "byte_of c = of_char c"

lemma ascii_Nil [simp]: "ascii [] = []"
  by (simp add: ascii_def)

lemma ascii_Cons [simp]: "ascii (c # s) = of_char c # ascii s"
  by (simp add: ascii_def)

text \<open>\<^verbatim>\<open>u32::checked_add\<close>: nothing past the width.\<close>

definition checked_add_u32 :: "u32 \<Rightarrow> u32 \<Rightarrow> u32 option" where
  "checked_add_u32 a b = (if unat a + unat b < 2 ^ 32 then Some (a + b) else None)"

text \<open>\<^verbatim>\<open>u32::try_from\<close> on a \<^verbatim>\<open>usize\<close> or \<^verbatim>\<open>u64\<close>.\<close>

definition u32_try_from :: "nat \<Rightarrow> u32 option" where
  "u32_try_from n = (if n < 2 ^ 32 then Some (of_nat n) else None)"

lemma checked_add_u32_Some:
  "checked_add_u32 a b = Some c \<longleftrightarrow> unat a + unat b < 2 ^ 32 \<and> c = a + b"
  by (auto simp: checked_add_u32_def)

lemma unat_add_u32: "unat a + unat b < 2 ^ 32 \<Longrightarrow> unat (a + b :: u32) = unat a + unat b"
  by (subst unat_word_ariths) simp

lemma u32_try_from_Some:
  "u32_try_from n = Some w \<longleftrightarrow> n < 2 ^ 32 \<and> w = of_nat n"
  by (auto simp: u32_try_from_def)

lemma unat_of_nat_u32: "n < 2 ^ 32 \<Longrightarrow> unat (of_nat n :: u32) = n"
  by (simp add: unat_of_nat take_bit_nat_eq_self)

lemma unat_of_nat_byte: "unat (of_nat n :: byte) = n mod 256"
  by (simp add: unat_of_nat take_bit_eq_mod)

lemma unat_u32_less [simp]: "unat (w :: u32) < 4294967296"
proof -
  have "unat w < 2 ^ LENGTH(32)"
    by (rule unsigned_less)
  then show ?thesis by simp
qed

lemma unat_u64_less [simp]: "unat (w :: u64) < 18446744073709551616"
proof -
  have "unat w < 2 ^ LENGTH(64)"
    by (rule unsigned_less)
  then show ?thesis by simp
qed

section \<open>Errors\<close>

text \<open>
  Why a component refused, one constructor per refusal of the source; the text a
  message interpolates is its argument. The wording of the message itself is not
  modelled.
\<close>

datatype reason =
    Truncated_message
  | Unterminated_string
  | Non_utf8_identifier
  | Unexpected_cell_kind byte
  | Expected_tuple byte byte
  | Unknown_tag byte
  | Binary_without_relation
  | Binary_width nat nat
  | Bad_lsn bytes
  | Null_key_column
  | Toast_key_column
  | Identity_nothing bytes
  | Key_not_in_relation bytes bytes
  | Key_not_in_identity bytes bytes
  | Key_not_in_source bytes bytes
  | Row_width bytes nat nat
  | Torn_window "bytes option"
  | Missing_row bytes "bytes list"
  | Toast_in_bulk
  | Watermark_moved_back u64 u64
  | Facts_needed u64
  | Legacy_mixed u64
  | Seq_overflow u32 nat
  | Unreadable bytes
  | Plan_before_probe
  | Bytea_without_prefix
  | Bad_hex
  | Bad_numeric_key bytes
  | Non_utf8_key
  | No_utc_offset bytes
  | No_spelling bytes
  | Rendering nat
  | Too_many_tables
  | Recreated_table bytes bytes u32 u32
  | No_layout bytes
  | Unknown_relation u32
  | Closed_stream u32
  | Tx_too_big bytes nat nat
  | Streams_too_big nat nat nat
  | Short_value u32
  | Jsonb_version "byte option"
  | Numeric_sign u16
  | No_renderer u32
  | Bad_field bytes
  | Malformed_decimal bytes
  | Bad_copy_header
  | Tuple_fields int nat
  | Null_not_nullable
  | Negative_length int
  | Field_too_big nat nat
  | Field_width nat nat
  | Infinite_value bytes
  | Declared_width nat nat
  | Sibling_state bytes bytes
  | Cdc_managed bytes
  | Other_cursor bytes bytes bytes
  | Managed_by bytes bytes bytes
  | Null_watermark bytes
  | Bad_lsn_state bytes
  | Legacy_artifact bytes bytes
  | Peer_holds bytes bytes byte byte u64 "(int \<times> bool) option"
  | Half_collected bytes bytes "bytes list"
  | Winding_down "bytes list"
  | Claim_gone "bytes list"
  | Unheld_mark bytes
  | Store_failed
  | Bad_binlog string
  | Decimal_metadata nat nat
  | Enum_index u64
  | Set_bits u64 nat
  | Unsupported_column byte
  | Rows_columns nat nat
  | No_schema bytes
  | Unhandled_event byte string

datatype error =
    Locked reason
  | Connect reason
  | Transfer reason
  | InvalidInput reason
  | Panic

type_synonym 'a result = "error + 'a"

section \<open>Fallible computations\<close>

text \<open>Rust's \<^verbatim>\<open>?\<close>: the first error ends the computation.\<close>

definition and_then :: "'a result \<Rightarrow> ('a \<Rightarrow> 'b result) \<Rightarrow> 'b result" where
  "and_then m f = (case m of Inl e \<Rightarrow> Inl e | Inr x \<Rightarrow> f x)"

lemma and_then_Inl [simp]: "and_then (Inl e) f = Inl e"
  by (simp add: and_then_def)

lemma and_then_Inr [simp]: "and_then (Inr x) f = f x"
  by (simp add: and_then_def)

lemma and_then_eq_Inr [result_simps]:
  "and_then m f = Inr y \<longleftrightarrow> (\<exists>x. m = Inr x \<and> f x = Inr y)"
  by (cases m) auto

lemma and_then_eq_Inl:
  "and_then m f = Inl e \<longleftrightarrow> m = Inl e \<or> (\<exists>x. m = Inr x \<and> f x = Inl e)"
  by (cases m) auto

lemma and_then_assoc: "and_then (and_then m f) g = and_then m (\<lambda>x. and_then (f x) g)"
  by (cases m) simp_all

lemma and_then_cong [fundef_cong]:
  "m = m' \<Longrightarrow> (\<And>x. m' = Inr x \<Longrightarrow> f x = f' x) \<Longrightarrow> and_then m f = and_then m' f'"
  by (cases m') auto

text \<open>\<^verbatim>\<open>Option::ok_or\<close>.\<close>

definition ok_or :: "error \<Rightarrow> 'a option \<Rightarrow> 'a result" where
  "ok_or e x = (case x of None \<Rightarrow> Inl e | Some v \<Rightarrow> Inr v)"

lemma ok_or_simps [simp]: "ok_or e None = Inl e" "ok_or e (Some v) = Inr v"
  by (simp_all add: ok_or_def)

lemma ok_or_eq_Inr [result_simps]: "ok_or e x = Inr v \<longleftrightarrow> x = Some v"
  by (cases x) simp_all

text \<open>Collecting an iterator of results: the values in order, or the first error.\<close>

fun collect_results :: "('a \<Rightarrow> 'b result) \<Rightarrow> 'a list \<Rightarrow> 'b list result" where
  "collect_results f [] = Inr []"
| "collect_results f (x # xs) =
     and_then (f x) (\<lambda>y. and_then (collect_results f xs) (\<lambda>ys. Inr (y # ys)))"

lemma collect_results_Inr:
  "collect_results f xs = Inr ys \<longleftrightarrow> length ys = length xs \<and> (\<forall>i < length xs. f (xs ! i) = Inr (ys ! i))"
proof (induction xs arbitrary: ys)
  case Nil
  then show ?case by auto
next
  case (Cons x xs)
  show ?case
    by (cases ys) (auto simp: result_simps Cons.IH nth_Cons' less_Suc_eq_0_disj)
qed

lemma collect_results_map:
  "(\<And>x. x \<in> set xs \<Longrightarrow> f x = Inr (g x)) \<Longrightarrow> collect_results f xs = Inr (map g xs)"
  by (induction xs) simp_all

lemma collect_results_eqI:
  "collect_results f xs = Inr ys \<Longrightarrow> (\<And>x. x \<in> set xs \<Longrightarrow> f x = Inr (g x)) \<Longrightarrow> ys = map g xs"
  by (metis collect_results_map sum.inject(2))

lemma collect_results_cong [fundef_cong]:
  "xs = ys \<Longrightarrow> (\<And>x. x \<in> set ys \<Longrightarrow> f x = g x) \<Longrightarrow> collect_results f xs = collect_results g ys"
  by (induction ys arbitrary: xs) auto

text \<open>A loop whose body may fail: \<^verbatim>\<open>for x in xs { body(&mut s, x)?; }\<close>.\<close>

fun fold_results :: "('s \<Rightarrow> 'e \<Rightarrow> 's result) \<Rightarrow> 's \<Rightarrow> 'e list \<Rightarrow> 's result" where
  "fold_results step s [] = Inr s"
| "fold_results step s (e # es) = and_then (step s e) (\<lambda>s'. fold_results step s' es)"

lemma fold_results_append:
  "fold_results step s (xs @ ys) = and_then (fold_results step s xs) (\<lambda>s'. fold_results step s' ys)"
  by (induction xs arbitrary: s) (simp_all add: and_then_assoc)

lemma fold_results_snoc:
  "fold_results step s (xs @ [x]) = and_then (fold_results step s xs) (\<lambda>s'. step s' x)"
proof -
  have "\<And>m. and_then m Inr = (m :: 'a result)"
    by (case_tac m) simp_all
  then show ?thesis
    by (simp add: fold_results_append)
qed

text \<open>
  A fallible state machine: steps that may refuse, an invariant its accepted inputs
  keep and under which they never fail, and an abstract machine it follows.
\<close>

locale fallible_machine =
  fixes step :: "'s \<Rightarrow> 'e \<Rightarrow> 's result"
    and inv :: "'s \<Rightarrow> bool"
    and ok :: "'e \<Rightarrow> bool"
  assumes step_total: "inv s \<Longrightarrow> ok e \<Longrightarrow> \<exists>s'. step s e = Inr s'"
    and step_inv: "inv s \<Longrightarrow> ok e \<Longrightarrow> step s e = Inr s' \<Longrightarrow> inv s'"
begin

lemma run_inv: "inv s \<Longrightarrow> \<forall>e \<in> set es. ok e \<Longrightarrow> fold_results step s es = Inr s' \<Longrightarrow> inv s'"
  by (induction es arbitrary: s) (auto simp: result_simps dest: step_inv)

lemma run_total: "inv s \<Longrightarrow> \<forall>e \<in> set es. ok e \<Longrightarrow> \<exists>s'. fold_results step s es = Inr s' \<and> inv s'"
proof (induction es arbitrary: s)
  case Nil
  then show ?case by simp
next
  case (Cons e es)
  then obtain s1 where s1: "step s e = Inr s1" "inv s1"
    using step_total [of s e] step_inv [of s e] by auto
  with Cons.IH [OF s1(2)] Cons.prems(2) show ?case by simp
qed

end

text \<open>A condition that holds before every step of an abstract run.\<close>

fun all_along :: "('a \<Rightarrow> 'e \<Rightarrow> bool) \<Rightarrow> ('e \<Rightarrow> 'a \<Rightarrow> 'a) \<Rightarrow> 'a \<Rightarrow> 'e list \<Rightarrow> bool" where
  "all_along pre astep a [] = True"
| "all_along pre astep a (e # es) = (pre a e \<and> all_along pre astep (astep e a) es)"

text \<open>The same machine with an abstract state it refines, step by step.\<close>

locale refining_machine = fallible_machine step inv ok
  for step :: "'s \<Rightarrow> 'e \<Rightarrow> 's result" and inv ok +
  fixes abs :: "'s \<Rightarrow> 'a"
    and astep :: "'e \<Rightarrow> 'a \<Rightarrow> 'a"
    and pre :: "'a \<Rightarrow> 'e \<Rightarrow> bool"
  assumes step_refines:
    "inv s \<Longrightarrow> ok e \<Longrightarrow> pre (abs s) e \<Longrightarrow> step s e = Inr s' \<Longrightarrow> abs s' = astep e (abs s)"
begin

lemma run_refines:
  "inv s \<Longrightarrow> \<forall>e \<in> set es. ok e \<Longrightarrow> all_along pre astep (abs s) es \<Longrightarrow>
   fold_results step s es = Inr s' \<Longrightarrow> abs s' = fold astep es (abs s)"
proof (induction es arbitrary: s)
  case Nil
  then show ?case by simp
next
  case (Cons e es)
  from Cons.prems(4) obtain s1 where s1: "step s e = Inr s1" "fold_results step s1 es = Inr s'"
    by (auto simp: result_simps)
  have inv1: "inv s1"
    using Cons.prems s1(1) step_inv by auto
  have abs1: "abs s1 = astep e (abs s)"
    using Cons.prems s1(1) step_refines by auto
  have "abs s' = fold astep es (abs s1)"
    using Cons.IH [OF inv1 _ _ s1(2)] Cons.prems(2,3) abs1 by simp
  with abs1 show ?case by simp
qed

end

section \<open>Slices and indexing\<close>

text \<open>\<^verbatim>\<open>&xs[a..b]\<close>, \<^verbatim>\<open>xs[i]\<close> and \<^verbatim>\<open>xs[i] = v\<close>, which panic out of range.\<close>

definition slice_range :: "'a list \<Rightarrow> nat \<Rightarrow> nat \<Rightarrow> 'a list result" where
  "slice_range xs a b = (if a \<le> b \<and> b \<le> length xs then Inr (take (b - a) (drop a xs)) else Inl Panic)"

definition index_list :: "'a list \<Rightarrow> nat \<Rightarrow> 'a result" where
  "index_list xs i = (if i < length xs then Inr (xs ! i) else Inl Panic)"

definition write_list :: "'a list \<Rightarrow> nat \<Rightarrow> 'a \<Rightarrow> 'a list result" where
  "write_list xs i v = (if i < length xs then Inr (xs[i := v]) else Inl Panic)"

lemma index_list_ok [simp]: "i < length xs \<Longrightarrow> index_list xs i = Inr (xs ! i)"
  by (simp add: index_list_def)

lemma write_list_ok [simp]: "i < length xs \<Longrightarrow> write_list xs i v = Inr (xs[i := v])"
  by (simp add: write_list_def)

lemma slice_range_ok [simp]:
  "a \<le> b \<Longrightarrow> b \<le> length xs \<Longrightarrow> slice_range xs a b = Inr (take (b - a) (drop a xs))"
  by (simp add: slice_range_def)

text \<open>The first position holding a value.\<close>

fun position :: "('a \<Rightarrow> bool) \<Rightarrow> 'a list \<Rightarrow> nat option" where
  "position p [] = None"
| "position p (x # xs) = (if p x then Some 0 else map_option Suc (position p xs))"

lemma position_Some: "position p xs = Some i \<Longrightarrow> i < length xs \<and> p (xs ! i) \<and> (\<forall>j < i. \<not> p (xs ! j))"
  by (induction xs arbitrary: i) (auto split: if_splits simp: nth_Cons' gr0_conv_Suc)

lemma position_None: "position p xs = None \<longleftrightarrow> (\<forall>x \<in> set xs. \<not> p x)"
  by (induction xs) auto

lemma position_skip: "\<forall>x \<in> set xs. \<not> p x \<Longrightarrow> p y \<Longrightarrow> position p (xs @ y # ys) = Some (length xs)"
  by (induction xs) auto

section \<open>Big-endian integers\<close>

definition be_nat :: "bytes \<Rightarrow> nat" where
  "be_nat bs = foldl (\<lambda>a b. a * 256 + unat b) 0 bs"

text \<open>\<^verbatim>\<open>from_be_bytes\<close> and \<^verbatim>\<open>to_be_bytes\<close>, the latter to a given number of bytes.\<close>

definition from_be_bytes :: "bytes \<Rightarrow> 'a::len word" where
  "from_be_bytes bs = of_nat (be_nat bs)"

fun be_bytes :: "nat \<Rightarrow> nat \<Rightarrow> bytes" where
  "be_bytes 0 v = []"
| "be_bytes (Suc n) v = be_bytes n (v div 256) @ [of_nat (v mod 256)]"

definition to_be_bytes :: "'a::len word \<Rightarrow> bytes" where
  "to_be_bytes w = be_bytes (LENGTH('a) div 8) (unat w)"

lemma length_be_bytes [simp]: "length (be_bytes n v) = n"
  by (induction n arbitrary: v) simp_all

lemma length_to_be_bytes [simp]: "length (to_be_bytes (w :: 'a::len word)) = LENGTH('a) div 8"
  by (simp add: to_be_bytes_def)

lemma be_nat_snoc [simp]: "be_nat (bs @ [b]) = be_nat bs * 256 + unat b"
  by (simp add: be_nat_def)

lemma be_nat_Nil [simp]: "be_nat [] = 0"
  by (simp add: be_nat_def)

lemma be_nat_be_bytes: "be_nat (be_bytes n v) = v mod 256 ^ n"
proof (induction n arbitrary: v)
  case 0
  then show ?case by simp
next
  case (Suc n)
  have u: "unat (of_nat (v mod 256) :: byte) = v mod 256"
    by (simp add: unat_of_nat take_bit_nat_eq_self)
  show ?case
    by (simp add: Suc.IH u mod_mult2_eq mult.commute)
qed

lemma from_to_be_bytes:
  "8 dvd LENGTH('a) \<Longrightarrow> from_be_bytes (to_be_bytes w) = (w :: 'a::len word)"
proof -
  assume "8 dvd LENGTH('a)"
  then have len: "8 * (LENGTH('a) div 8) = LENGTH('a)"
    by simp
  have "(256 :: nat) ^ (LENGTH('a) div 8) = (2 ^ 8) ^ (LENGTH('a) div 8)"
    by simp
  also have "\<dots> = 2 ^ LENGTH('a)"
    by (simp only: power_mult [symmetric] len)
  finally show ?thesis
    by (simp add: from_be_bytes_def to_be_bytes_def be_nat_be_bytes)
qed

section \<open>Numbers as text\<close>

text \<open>Digits in a radix up to 36, upper case as \<^verbatim>\<open>{:X}\<close> prints them; either case parses.\<close>

definition digit_char :: "nat \<Rightarrow> byte" where
  "digit_char d = (if d < 10 then of_nat (48 + d) else of_nat (55 + d))"

definition digit_val :: "nat \<Rightarrow> byte \<Rightarrow> nat option" where
  "digit_val r b =
     (let n = unat b;
          d = (if 48 \<le> n \<and> n \<le> 57 then Some (n - 48)
               else if 65 \<le> n \<and> n \<le> 90 then Some (n - 55)
               else if 97 \<le> n \<and> n \<le> 122 then Some (n - 87) else None)
      in case d of Some v \<Rightarrow> if v < r then Some v else None | None \<Rightarrow> None)"

fun show_radix :: "nat \<Rightarrow> nat \<Rightarrow> bytes" where
  "show_radix r n =
     (if r < 2 \<or> n < r then [digit_char n] else show_radix r (n div r) @ [digit_char (n mod r)])"

fun digits_value :: "nat \<Rightarrow> nat \<Rightarrow> bytes \<Rightarrow> nat option" where
  "digits_value r acc [] = Some acc"
| "digits_value r acc (b # bs) =
     (case digit_val r b of None \<Rightarrow> None | Some d \<Rightarrow> digits_value r (acc * r + d) bs)"

declare show_radix.simps [simp del]

text \<open>
  \<^verbatim>\<open>u64::from_str_radix\<close>: an optional \<^verbatim>\<open>+\<close>, at least one digit, no overflow.
  The running value only grows, so testing the final value is testing every step.
\<close>

definition parse_u64_radix :: "nat \<Rightarrow> bytes \<Rightarrow> u64 option" where
  "parse_u64_radix r s =
     (let ds = (case s of [] \<Rightarrow> [] | b # bs \<Rightarrow> if b = byte_of CHR ''+'' then bs else s)
      in if ds = [] then None
         else case digits_value r 0 ds of
                None \<Rightarrow> None
              | Some v \<Rightarrow> if v < 2 ^ 64 then Some (of_nat v) else None)"

lemma unat_digit_char: "d < 16 \<Longrightarrow> unat (digit_char d) = (if d < 10 then 48 + d else 55 + d)"
  unfolding digit_char_def by (simp only: unat_of_nat_byte split: if_splits) simp

lemma digit_val_char: "d < r \<Longrightarrow> r \<le> 16 \<Longrightarrow> digit_val r (digit_char d) = Some d"
  by (simp add: digit_val_def unat_digit_char)

lemma digits_value_append:
  "digits_value r acc (xs @ ys) =
     (case digits_value r acc xs of None \<Rightarrow> None | Some v \<Rightarrow> digits_value r v ys)"
  by (induction xs arbitrary: acc) (auto split: option.splits)

lemma show_radix_ne [simp]: "show_radix r n \<noteq> []"
  by (subst show_radix.simps) simp

lemma digits_value_show:
  "2 \<le> r \<Longrightarrow> r \<le> 16 \<Longrightarrow> digits_value r 0 (show_radix r n) = Some n"
proof (induction n rule: less_induct)
  case (less n)
  show ?case
  proof (cases "n < r")
    case True
    with less.prems show ?thesis
      by (simp add: show_radix.simps [of r n] digit_val_char)
  next
    case False
    with less.prems have "n div r < n"
      by (intro div_less_dividend) auto
    from less.IH [OF this] False less.prems show ?thesis
      by (simp add: show_radix.simps [of r n] digits_value_append digit_val_char)
  qed
qed

lemma digit_char_not_sign:
  "d < 16 \<Longrightarrow> digit_char d \<noteq> 43 \<and> digit_char d \<noteq> 45 \<and> digit_char d \<noteq> 47"
proof -
  assume "d < 16"
  then have "unat (digit_char d) \<notin> {43, 45, 47}"
    by (auto simp: unat_digit_char)
  then show ?thesis
    by auto
qed

lemma show_radix_chars:
  "2 \<le> r \<Longrightarrow> r \<le> 16 \<Longrightarrow> b \<in> set (show_radix r n) \<Longrightarrow> b \<noteq> 43 \<and> b \<noteq> 45 \<and> b \<noteq> 47"
proof (induction n rule: less_induct)
  case (less n)
  show ?case
  proof (cases "n < r")
    case True
    with less.prems show ?thesis
      by (simp add: show_radix.simps [of r n] digit_char_not_sign)
  next
    case False
    with less.prems have lt: "n div r < n"
      by (intro div_less_dividend) auto
    from less.prems have "n mod r < r"
      by (intro mod_less_divisor) simp
    with less.prems have "digit_char (n mod r) \<noteq> 43 \<and> digit_char (n mod r) \<noteq> 45 \<and> digit_char (n mod r) \<noteq> 47"
      by (intro digit_char_not_sign) linarith
    with less.IH [OF lt] less.prems False show ?thesis
      by (auto simp: show_radix.simps [of r n])
  qed
qed

lemma parse_show_u64:
  "2 \<le> r \<Longrightarrow> r \<le> 16 \<Longrightarrow> parse_u64_radix r (show_radix r (unat w)) = Some w"
proof -
  assume r: "2 \<le> r" "r \<le> 16"
  obtain b bs where bs: "show_radix r (unat w) = b # bs"
    by (cases "show_radix r (unat w)") auto
  then have "b \<noteq> 43"
    using show_radix_chars [OF r, of b "unat w"] by simp
  moreover have "unat w < 2 ^ 64"
    by simp
  ultimately show ?thesis
    using digits_value_show [OF r, of "unat w"] bs
    by (simp add: parse_u64_radix_def byte_of_def)
qed

text \<open>Decimal integers: \<^verbatim>\<open>i64::to_string\<close> and \<^verbatim>\<open>str::parse::<i64>\<close>.\<close>

definition show_int :: "int \<Rightarrow> bytes" where
  "show_int i = (if i < 0 then byte_of CHR ''-'' # show_radix 10 (nat (- i)) else show_radix 10 (nat i))"

definition parse_i64 :: "bytes \<Rightarrow> int option" where
  "parse_i64 s =
     (let neg = (s \<noteq> [] \<and> hd s = byte_of CHR ''-'');
          ds = (if s \<noteq> [] \<and> (hd s = byte_of CHR ''-'' \<or> hd s = byte_of CHR ''+'') then tl s else s)
      in if ds = [] then None
         else case digits_value 10 0 ds of
                None \<Rightarrow> None
              | Some v \<Rightarrow>
                  let i = (if neg then - int v else int v)
                  in if - (2 ^ 63) \<le> i \<and> i < 2 ^ 63 then Some i else None)"

lemma parse_show_int:
  assumes "- (2 ^ 63) \<le> i" "i < 2 ^ 63"
  shows "parse_i64 (show_int i) = Some i"
proof (cases "i < 0")
  case True
  with assms show ?thesis
    by (simp add: parse_i64_def show_int_def digits_value_show)
next
  case False
  obtain b bs where bs: "show_radix 10 (nat i) = b # bs"
    by (cases "show_radix 10 (nat i)") auto
  then have "b \<noteq> 43 \<and> b \<noteq> 45"
    using show_radix_chars [of 10 b "nat i"] by simp
  with False assms bs digits_value_show [of 10 "nat i"] show ?thesis
    by (simp add: parse_i64_def show_int_def byte_of_def)
qed

section \<open>UTF-8\<close>

definition utf8_cont :: "byte \<Rightarrow> bool" where
  "utf8_cont b = (128 \<le> unat b \<and> unat b \<le> 191)"

text \<open>\<^verbatim>\<open>std::str::from_utf8\<close> accepts exactly these byte sequences.\<close>

fun utf8_valid :: "bytes \<Rightarrow> bool" where
  "utf8_valid [] = True"
| "utf8_valid (a # s) =
     (let n = unat a in
      if n < 128 then utf8_valid s
      else case s of
        [] \<Rightarrow> False
      | b # s \<Rightarrow>
          if 194 \<le> n \<and> n \<le> 223 then utf8_cont b \<and> utf8_valid s
          else case s of
            [] \<Rightarrow> False
          | c # s \<Rightarrow>
              if 224 \<le> n \<and> n \<le> 239 then
                utf8_cont b \<and> (n = 224 \<longrightarrow> 160 \<le> unat b) \<and> (n = 237 \<longrightarrow> unat b \<le> 159) \<and>
                utf8_cont c \<and> utf8_valid s
              else case s of
                [] \<Rightarrow> False
              | d # s \<Rightarrow>
                  240 \<le> n \<and> n \<le> 244 \<and> utf8_cont b \<and>
                  (n = 240 \<longrightarrow> 144 \<le> unat b) \<and> (n = 244 \<longrightarrow> unat b \<le> 143) \<and>
                  utf8_cont c \<and> utf8_cont d \<and> utf8_valid s)"

lemma utf8_valid_ascii: "\<forall>b \<in> set s. unat b < 128 \<Longrightarrow> utf8_valid s"
  by (induction s) simp_all

definition to_ascii_lowercase :: "bytes \<Rightarrow> bytes" where
  "to_ascii_lowercase s = map (\<lambda>b. if 0x41 \<le> b \<and> b \<le> 0x5A then b + 0x20 else b) s"

section \<open>Trimming\<close>

text \<open>
  \<^verbatim>\<open>str::trim\<close> drops characters with the Unicode property White_Space; here by their
  UTF-8 spellings, from the front and, spelled backwards, from the end.
\<close>

fun space_prefix :: "bytes \<Rightarrow> nat" where
  "space_prefix (a # b # c # _) =
     (if a = 32 \<or> (9 \<le> unat a \<and> unat a \<le> 13) then 1
      else if a = 194 \<and> (b = 133 \<or> b = 160) then 2
      else if a = 225 \<and> b = 154 \<and> c = 128 then 3
      else if a = 226 \<and> b = 128 \<and> (128 \<le> unat c \<and> unat c \<le> 138 \<or> c = 168 \<or> c = 169 \<or> c = 175) then 3
      else if a = 226 \<and> b = 129 \<and> c = 159 then 3
      else if a = 227 \<and> b = 128 \<and> c = 128 then 3 else 0)"
| "space_prefix [a, b] =
     (if a = 32 \<or> (9 \<le> unat a \<and> unat a \<le> 13) then 1
      else if a = 194 \<and> (b = 133 \<or> b = 160) then 2 else 0)"
| "space_prefix [a] = (if a = 32 \<or> (9 \<le> unat a \<and> unat a \<le> 13) then 1 else 0)"
| "space_prefix [] = 0"

fun space_suffix :: "bytes \<Rightarrow> nat" where
  "space_suffix (c # b # a # _) =
     (if space_prefix [c] = 1 then 1 else if space_prefix [b, c] = 2 then 2
      else if space_prefix [a, b, c] = 3 then 3 else 0)"
| "space_suffix [c, b] = (if space_prefix [c] = 1 then 1 else if space_prefix [b, c] = 2 then 2 else 0)"
| "space_suffix [c] = (if space_prefix [c] = 1 then 1 else 0)"
| "space_suffix [] = 0"

function strip_by :: "(bytes \<Rightarrow> nat) \<Rightarrow> bytes \<Rightarrow> bytes" where
  "strip_by f s = (if s = [] \<or> f s = 0 then s else strip_by f (drop (f s) s))"
  by auto
termination
  by (relation "measure (length \<circ> snd)") auto

declare strip_by.simps [simp del]

definition trim_str :: "bytes \<Rightarrow> bytes" where
  "trim_str s = rev (strip_by space_suffix (rev (strip_by space_prefix s)))"

lemma strip_by_id: "s = [] \<or> f s = 0 \<Longrightarrow> strip_by f s = s"
  by (subst strip_by.simps) simp

text \<open>Printable ASCII text at both ends is its own trimming.\<close>

definition plain :: "byte \<Rightarrow> bool" where
  "plain b \<longleftrightarrow> 32 < unat b \<and> unat b < 128"

lemma plain_not_space:
  assumes "plain b"
  shows "b \<noteq> 32" "\<not> (9 \<le> unat b \<and> unat b \<le> 13)" "b \<noteq> 194" "b \<noteq> 225" "b \<noteq> 226" "b \<noteq> 227"
    "b \<noteq> 133" "b \<noteq> 160" "b \<noteq> 128" "\<not> (128 \<le> unat b \<and> unat b \<le> 138)" "b \<noteq> 168" "b \<noteq> 169" "b \<noteq> 175" "b \<noteq> 159"
  using assms by (auto simp: plain_def)

lemma space_prefix_plain: "plain b \<Longrightarrow> space_prefix (b # s) = 0"
  by (cases "b # s" rule: space_prefix.cases) (auto simp: plain_not_space)

lemma space_suffix_plain: "plain b \<Longrightarrow> space_suffix (b # s) = 0"
  by (cases "b # s" rule: space_suffix.cases) (auto simp: plain_not_space)

lemma trim_plain: "s \<noteq> [] \<Longrightarrow> plain (hd s) \<Longrightarrow> plain (last s) \<Longrightarrow> trim_str s = s"
proof -
  assume "s \<noteq> []" "plain (hd s)" "plain (last s)"
  then have "space_prefix s = 0" "space_suffix (rev s) = 0"
    using space_prefix_plain [of "hd s" "tl s"] space_suffix_plain [of "last s" "rev (butlast s)"]
    by (simp, cases s rule: rev_cases, simp_all)
  then show ?thesis by (simp add: trim_str_def strip_by_id)
qed

end
