(* ===== verification/Pgoutput.thy ===== *)
theory Pgoutput
  imports Apitap_Prelude
begin

text \<open>
  The pgoutput message decoder (\<^verbatim>\<open>wire/pgoutput.rs\<close>): cells and tuples as ranges
  into the frame they arrived in, the bounds-checked reader, one definition per message
  kind, and the textual LSN. The renderer of binary cells (\<^verbatim>\<open>wire/pgbindec.rs\<close>) is the
  parameter \<open>render\<close>. The last section states the wire format itself (an encoder) and
  proves that the decoder inverts it, that a decoded tuple never points outside its
  frame, and that decoding never panics.
\<close>

named_theorems tuple_simps "reading a well-formed tuple"

section \<open>Cells and tuples\<close>

text \<open>\<^verbatim>\<open>Cell\<close>, and \<^verbatim>\<open>Cellv\<close>, which is the same three arms over a borrowed slice.\<close>

datatype cell = Null | Text bytes | UnchangedToast

datatype cellr = RNull | RText u32 u32 | RUnchangedToast

record tuple =
  frame :: bytes
  cells :: "cellr list"

definition tuple_len :: "tuple \<Rightarrow> nat" where
  "tuple_len t = length (cells t)"

text \<open>
  A cell's text is \<^verbatim>\<open>&frame[o..(o + l)]\<close>. The end is computed in \<^verbatim>\<open>u32\<close>: where it wraps
  it is below the start and the slice panics.
\<close>

definition cellr_view :: "bytes \<Rightarrow> cellr \<Rightarrow> cell result" where
  "cellr_view f c =
     (case c of
        RNull \<Rightarrow> Inr Null
      | RText off len \<Rightarrow> and_then (slice_range f (unat off) (unat (off + len))) (\<lambda>s. Inr (Text s))
      | RUnchangedToast \<Rightarrow> Inr UnchangedToast)"

definition tuple_view :: "tuple \<Rightarrow> nat \<Rightarrow> cell result" where
  "tuple_view t i = and_then (index_list (cells t) i) (cellr_view (frame t))"

definition tuple_get :: "tuple \<Rightarrow> nat \<Rightarrow> cell option result" where
  "tuple_get t i =
     (if i < length (cells t) then and_then (tuple_view t i) (\<lambda>c. Inr (Some c)) else Inr None)"

definition tuple_views :: "tuple \<Rightarrow> cell list result" where
  "tuple_views t = collect_results (tuple_view t) [0..<length (cells t)]"

definition has_toast :: "tuple \<Rightarrow> bool" where
  "has_toast t = list_ex (\<lambda>c. c = RUnchangedToast) (cells t)"

definition to_cells :: "tuple \<Rightarrow> cell list result" where
  "to_cells t = collect_results (cellr_view (frame t)) (cells t)"

definition from_rendered :: "bytes \<Rightarrow> cellr list \<Rightarrow> tuple" where
  "from_rendered f cs = \<lparr>frame = f, cells = cs\<rparr>"

text \<open>The loop of \<^verbatim>\<open>Tuple::from_cells\<close>, over the frame built so far.\<close>

fun push_cells :: "cell list \<Rightarrow> bytes \<Rightarrow> cellr list \<Rightarrow> bytes \<times> cellr list" where
  "push_cells [] f rs = (f, rs)"
| "push_cells (Null # cs) f rs = push_cells cs f (rs @ [RNull])"
| "push_cells (UnchangedToast # cs) f rs = push_cells cs f (rs @ [RUnchangedToast])"
| "push_cells (Text t # cs) f rs =
     push_cells cs (f @ t) (rs @ [RText (of_nat (length f)) (of_nat (length t))])"

definition from_cells :: "cell list \<Rightarrow> tuple" where
  "from_cells cs = (case push_cells cs [] [] of (f, rs) \<Rightarrow> from_rendered f rs)"

section \<open>Well-formed tuples\<close>

text \<open>Every range lies inside the frame: the condition under which no read panics.\<close>

definition cellr_wf :: "bytes \<Rightarrow> cellr \<Rightarrow> bool" where
  "cellr_wf f c = (case c of RText off len \<Rightarrow> unat off + unat len \<le> length f \<and> length f < 2 ^ 32 | _ \<Rightarrow> True)"

definition tuple_wf :: "tuple \<Rightarrow> bool" where
  "tuple_wf t = list_all (cellr_wf (frame t)) (cells t)"

lemma cellr_wf_simps [simp]: "cellr_wf f RNull" "cellr_wf f RUnchangedToast"
  by (simp_all add: cellr_wf_def)

text \<open>What a well-formed tuple says, as owned cells: the abstraction every consumer reads.\<close>

definition cell_of :: "bytes \<Rightarrow> cellr \<Rightarrow> cell" where
  "cell_of f c =
     (case c of
        RNull \<Rightarrow> Null
      | RText off len \<Rightarrow> Text (take (unat len) (drop (unat off) f))
      | RUnchangedToast \<Rightarrow> UnchangedToast)"

definition cells_of :: "tuple \<Rightarrow> cell list" where
  "cells_of t = map (cell_of (frame t)) (cells t)"

lemma length_cells_of [simp]: "length (cells_of t) = length (cells t)"
  by (simp add: cells_of_def)

lemma cellr_view_wf: "cellr_wf f c \<Longrightarrow> cellr_view f c = Inr (cell_of f c)"
proof (cases c)
  case (RText off len)
  assume "cellr_wf f c"
  with RText have b: "unat off + unat len \<le> length f" "length f < 2 ^ 32"
    by (auto simp: cellr_wf_def)
  then have "unat (off + len) = unat off + unat len"
    by (intro unat_add_u32) simp
  with b RText show ?thesis
    by (simp add: cellr_view_def cell_of_def)
qed (simp_all add: cellr_view_def cell_of_def)

lemma tuple_view_wf [tuple_simps]:
  "tuple_wf t \<Longrightarrow> i < length (cells t) \<Longrightarrow> tuple_view t i = Inr (cells_of t ! i)"
  by (simp add: tuple_view_def cells_of_def cellr_view_wf tuple_wf_def list_all_length)

lemma tuple_get_wf [tuple_simps]:
  "tuple_wf t \<Longrightarrow> tuple_get t i = Inr (if i < length (cells t) then Some (cells_of t ! i) else None)"
  by (simp add: tuple_get_def tuple_view_wf)

lemma tuple_views_wf [tuple_simps]: "tuple_wf t \<Longrightarrow> tuple_views t = Inr (cells_of t)"
proof -
  assume "tuple_wf t"
  then have "tuple_views t = Inr (map ((!) (cells_of t)) [0..<length (cells t)])"
    unfolding tuple_views_def by (intro collect_results_map) (simp add: tuple_view_wf)
  then show ?thesis
    by (metis length_cells_of map_nth)
qed

lemma to_cells_wf [tuple_simps]: "tuple_wf t \<Longrightarrow> to_cells t = Inr (cells_of t)"
  unfolding to_cells_def cells_of_def
  by (intro collect_results_map) (simp add: tuple_wf_def cellr_view_wf list_all_iff)

lemma has_toast_iff [tuple_simps]: "has_toast t \<longleftrightarrow> UnchangedToast \<in> set (cells_of t)"
proof -
  have "UnchangedToast = cell_of f c \<longleftrightarrow> c = RUnchangedToast" for f c
    by (cases c) (simp_all add: cell_of_def)
  then show ?thesis
    by (auto simp: has_toast_def cells_of_def list_ex_iff image_iff)
qed

subsection \<open>Owned cells become a tuple and back\<close>

fun text_bytes :: "cell list \<Rightarrow> nat" where
  "text_bytes [] = 0"
| "text_bytes (Text t # cs) = length t + text_bytes cs"
| "text_bytes (_ # cs) = text_bytes cs"

lemma push_cells_frame:
  "push_cells cs f rs = (f', rs') \<Longrightarrow> \<exists>s. f' = f @ s \<and> length s = text_bytes cs"
  by (induction cs f rs rule: push_cells.induct) fastforce+

lemma cell_of_append:
  "cellr_wf f c \<Longrightarrow> cell_of (f @ s) c = cell_of f c"
  by (auto simp: cellr_wf_def cell_of_def split: cellr.splits)

lemma push_cells_cells:
  assumes "push_cells cs f rs = (f', rs')" "length f + text_bytes cs < 2 ^ 32"
    and "list_all (cellr_wf f) rs"
  shows "list_all (cellr_wf f') rs' \<and> map (cell_of f') rs' = map (cell_of f) rs @ cs"
  using assms
proof (induction cs f rs rule: push_cells.induct)
  case (4 t cs f rs)
  let ?c = "RText (of_nat (length f)) (of_nat (length t))"
  have len: "unat (of_nat (length f) :: u32) = length f" "unat (of_nat (length t) :: u32) = length t"
    using "4.prems"(2) by (auto intro: unat_of_nat_u32)
  have old: "list_all (cellr_wf (f @ t)) rs"
    using "4.prems"(2,3) by (auto simp: list_all_iff cellr_wf_def split: cellr.splits)
  have same: "map (cell_of (f @ t)) rs = map (cell_of f) rs"
    using "4.prems"(3) by (auto simp: list_all_iff cell_of_append)
  have new: "cellr_wf (f @ t) ?c" "cell_of (f @ t) ?c = Text t"
    using "4.prems"(2) len by (auto simp: cellr_wf_def cell_of_def)
  from "4.IH" "4.prems" old new show ?case
    by (simp add: same)
qed (auto simp: cellr_wf_def cell_of_def)

lemma from_cells_wf: "text_bytes cs < 2 ^ 32 \<Longrightarrow> tuple_wf (from_cells cs)"
  using push_cells_cells [of cs "[]" "[]"]
  by (auto simp: from_cells_def tuple_wf_def from_rendered_def split: prod.splits)

lemma cells_of_from_cells: "text_bytes cs < 2 ^ 32 \<Longrightarrow> cells_of (from_cells cs) = cs"
  using push_cells_cells [of cs "[]" "[]"]
  by (auto simp: from_cells_def cells_of_def from_rendered_def split: prod.splits)

section \<open>Messages\<close>

record old_image =
  full :: bool
  old_tuple :: tuple

record relation_col =
  rc_key :: bool
  rc_name :: bytes
  rc_type_oid :: u32
  rc_type_mod :: u32

record relation =
  rel_id :: u32
  namespace :: bytes
  rel_name :: bytes
  replica_identity :: byte
  rel_cols :: "relation_col list"

datatype pgo_message =
    Pgo_Begin u64 u64 u32
  | Pgo_Commit u64 u64 u64
  | Pgo_Origin
  | Pgo_Relation relation
  | Pgo_Type
  | Pgo_Insert u32 tuple
  | Pgo_Update u32 "old_image option" tuple
  | Pgo_Delete u32 old_image
  | Pgo_Truncate "u32 list" bool bool
  | Pgo_StreamStart u32
  | Pgo_StreamStop
  | Pgo_StreamCommit u32 u64
  | Pgo_StreamAbort u32 u32

section \<open>The reader\<close>

record reader =
  src :: bytes
  pos :: nat

definition reader_new :: "bytes \<Rightarrow> reader" where
  "reader_new b = \<lparr>src = b, pos = 0\<rparr>"

abbreviation short :: error where
  "short \<equiv> Transfer Truncated_message"

definition read_u8 :: "reader \<Rightarrow> (byte \<times> reader) result" where
  "read_u8 r =
     (if pos r < length (src r) then Inr (src r ! pos r, r\<lparr>pos := pos r + 1\<rparr>) else Inl short)"

definition read_take :: "reader \<Rightarrow> nat \<Rightarrow> (bytes \<times> reader) result" where
  "read_take r n =
     (let e = pos r + n
      in if e < 2 ^ 64 \<and> e \<le> length (src r)
         then Inr (take n (drop (pos r) (src r)), r\<lparr>pos := e\<rparr>)
         else Inl short)"

definition read_u16 :: "reader \<Rightarrow> (u16 \<times> reader) result" where
  "read_u16 r = and_then (read_take r 2) (\<lambda>(b, r). Inr (from_be_bytes b, r))"

definition read_u32 :: "reader \<Rightarrow> (u32 \<times> reader) result" where
  "read_u32 r = and_then (read_take r 4) (\<lambda>(b, r). Inr (from_be_bytes b, r))"

text \<open>The signed readers return the same bits; a value's sign is in how it is read.\<close>

definition read_i32 :: "reader \<Rightarrow> (u32 \<times> reader) result" where
  "read_i32 r = and_then (read_take r 4) (\<lambda>(b, r). Inr (from_be_bytes b, r))"

definition read_u64 :: "reader \<Rightarrow> (u64 \<times> reader) result" where
  "read_u64 r = and_then (read_take r 8) (\<lambda>(b, r). Inr (from_be_bytes b, r))"

definition read_i64 :: "reader \<Rightarrow> (u64 \<times> reader) result" where
  "read_i64 r = and_then (read_take r 8) (\<lambda>(b, r). Inr (from_be_bytes b, r))"

definition read_cstr :: "reader \<Rightarrow> (bytes \<times> reader) result" where
  "read_cstr r =
     (if pos r > length (src r) then Inl Panic
      else let rest = drop (pos r) (src r)
           in case position (\<lambda>c. c = 0) rest of
                None \<Rightarrow> Inl (Transfer Unterminated_string)
              | Some n \<Rightarrow>
                  if utf8_valid (take n rest) then Inr (take n rest, r\<lparr>pos := pos r + n + 1\<rparr>)
                  else Inl (Transfer Non_utf8_identifier))"

text \<open>One cell, and whether it holds send-format bytes (\<^verbatim>\<open>'b'\<close>).\<close>

definition read_cell :: "reader \<Rightarrow> (cellr \<times> bool \<times> reader) result" where
  "read_cell r =
     and_then (read_u8 r) (\<lambda>(kind, r).
       if kind = byte_of CHR ''n'' then Inr (RNull, False, r)
       else if kind = byte_of CHR ''u'' then Inr (RUnchangedToast, False, r)
       else if kind = byte_of CHR ''t'' \<or> kind = byte_of CHR ''b'' then
         and_then (read_u32 r) (\<lambda>(len, r).
           let start = of_nat (pos r) in
           and_then (read_take r (unat len)) (\<lambda>(_, r).
             Inr (RText start len, kind = byte_of CHR ''b'', r)))
       else Inl (Transfer (Unexpected_cell_kind kind)))"

text \<open>The cell loop: the cells, and the indices of the binary ones in order.\<close>

fun read_cells :: "nat \<Rightarrow> nat \<Rightarrow> reader \<Rightarrow> (cellr list \<times> nat list \<times> reader) result" where
  "read_cells 0 i r = Inr ([], [], r)"
| "read_cells (Suc n) i r =
     and_then (read_cell r) (\<lambda>(c, bin, r).
       and_then (read_cells n (Suc i) r) (\<lambda>(cs, bins, r).
         Inr (c # cs, (if bin then i # bins else bins), r)))"

text \<open>
  Rebuilding a binary tuple: every binary cell rendered to its text form and every
  other text cell copied, into a frame of their own. \<open>bins\<close> are the binary indices
  not yet met.
\<close>

fun rebuild_cells ::
  "(u32 \<Rightarrow> bytes \<Rightarrow> bytes result) \<Rightarrow> u32 list \<Rightarrow> bytes \<Rightarrow> nat \<Rightarrow> nat list \<Rightarrow> cellr list \<Rightarrow>
   bytes \<Rightarrow> cellr list \<Rightarrow> (bytes \<times> cellr list) result" where
  "rebuild_cells render oids s i bins [] f out = Inr (f, out)"
| "rebuild_cells render oids s i bins (RNull # cs) f out =
     rebuild_cells render oids s (Suc i) bins cs f (out @ [RNull])"
| "rebuild_cells render oids s i bins (RUnchangedToast # cs) f out =
     rebuild_cells render oids s (Suc i) bins cs f (out @ [RUnchangedToast])"
| "rebuild_cells render oids s i bins (RText off len # cs) f out =
     and_then (slice_range s (unat off) (unat (off + len))) (\<lambda>raw.
       let bin = (bins \<noteq> [] \<and> hd bins = i) in
       and_then (if bin then and_then (index_list oids i) (\<lambda>oid. render oid raw) else Inr raw)
         (\<lambda>t. rebuild_cells render oids s (Suc i) (if bin then tl bins else bins) cs (f @ t)
                (out @ [RText (of_nat (length f)) (of_nat (length (f @ t)) - of_nat (length f))])))"

definition read_tuple ::
  "(u32 \<Rightarrow> bytes \<Rightarrow> bytes result) \<Rightarrow> u32 list option \<Rightarrow> bool \<Rightarrow> reader \<Rightarrow> (tuple \<times> reader) result" where
  "read_tuple render oids keep_binary r =
     and_then (read_u16 r) (\<lambda>(n, r).
       and_then (read_cells (unat n) 0 r) (\<lambda>(cs, bins, r).
         if bins = [] \<or> keep_binary then Inr (\<lparr>frame = src r, cells = cs\<rparr>, r)
         else case oids of
           None \<Rightarrow> Inl (Transfer Binary_without_relation)
         | Some oids \<Rightarrow>
             if length oids \<noteq> unat n then Inl (Transfer (Binary_width (unat n) (length oids)))
             else and_then (rebuild_cells render oids (src r) 0 bins cs [] [])
                    (\<lambda>(f, out). Inr (from_rendered f out, r))))"

section \<open>Decoding one message\<close>

definition decode_stream_start :: "reader \<Rightarrow> pgo_message result" where
  "decode_stream_start r =
     and_then (read_u32 r) (\<lambda>(xid, r). and_then (read_u8 r) (\<lambda>_. Inr (Pgo_StreamStart xid)))"

definition decode_stream_commit :: "reader \<Rightarrow> pgo_message result" where
  "decode_stream_commit r =
     and_then (read_u32 r) (\<lambda>(xid, r).
     and_then (read_u8 r) (\<lambda>(_, r).
     and_then (read_u64 r) (\<lambda>(_, r).
     and_then (read_u64 r) (\<lambda>(end_lsn, r). Inr (Pgo_StreamCommit xid end_lsn)))))"

definition decode_stream_abort :: "reader \<Rightarrow> pgo_message result" where
  "decode_stream_abort r =
     and_then (read_u32 r) (\<lambda>(xid, r).
     and_then (read_u32 r) (\<lambda>(sub_xid, r). Inr (Pgo_StreamAbort xid sub_xid)))"

definition decode_begin :: "reader \<Rightarrow> pgo_message result" where
  "decode_begin r =
     and_then (read_u64 r) (\<lambda>(final_lsn, r).
     and_then (read_i64 r) (\<lambda>(commit_ts_us, r).
     and_then (read_u32 r) (\<lambda>(xid, r). Inr (Pgo_Begin final_lsn commit_ts_us xid))))"

definition decode_commit :: "reader \<Rightarrow> pgo_message result" where
  "decode_commit r =
     and_then (read_u8 r) (\<lambda>(_, r).
     and_then (read_u64 r) (\<lambda>(commit_lsn, r).
     and_then (read_u64 r) (\<lambda>(end_lsn, r).
     and_then (read_i64 r) (\<lambda>(commit_ts_us, r). Inr (Pgo_Commit commit_lsn end_lsn commit_ts_us)))))"

fun read_relation_cols :: "nat \<Rightarrow> reader \<Rightarrow> (relation_col list \<times> reader) result" where
  "read_relation_cols 0 r = Inr ([], r)"
| "read_relation_cols (Suc n) r =
     and_then (read_u8 r) (\<lambda>(k, r).
     and_then (read_cstr r) (\<lambda>(name, r).
     and_then (read_u32 r) (\<lambda>(type_oid, r).
     and_then (read_i32 r) (\<lambda>(type_mod, r).
     and_then (read_relation_cols n r) (\<lambda>(cs, r).
       Inr (\<lparr>rc_key = (k = 1), rc_name = name, rc_type_oid = type_oid, rc_type_mod = type_mod\<rparr> # cs, r))))))"

definition decode_relation :: "reader \<Rightarrow> pgo_message result" where
  "decode_relation r =
     and_then (read_u32 r) (\<lambda>(rid, r).
     and_then (read_cstr r) (\<lambda>(ns, r).
     and_then (read_cstr r) (\<lambda>(name, r).
     and_then (read_u8 r) (\<lambda>(ident, r).
     and_then (read_u16 r) (\<lambda>(ncols, r).
     and_then (read_relation_cols (unat ncols) r) (\<lambda>(cols, r).
       Inr (Pgo_Relation \<lparr>rel_id = rid, namespace = ns, rel_name = name,
                          replica_identity = ident, rel_cols = cols\<rparr>)))))))"

type_synonym rel_oids = "u32 \<rightharpoonup> u32 list"

definition decode_insert ::
  "(u32 \<Rightarrow> bytes \<Rightarrow> bytes result) \<Rightarrow> rel_oids \<Rightarrow> bool \<Rightarrow> reader \<Rightarrow> pgo_message result" where
  "decode_insert render rel_oids keep_binary r =
     and_then (read_u32 r) (\<lambda>(rid, r).
     and_then (read_u8 r) (\<lambda>(kind, r).
       if kind \<noteq> byte_of CHR ''N'' then Inl (Transfer (Expected_tuple (byte_of CHR ''I'') kind))
       else and_then (read_tuple render (rel_oids rid) keep_binary r) (\<lambda>(new, r).
              Inr (Pgo_Insert rid new))))"

definition decode_update ::
  "(u32 \<Rightarrow> bytes \<Rightarrow> bytes result) \<Rightarrow> rel_oids \<Rightarrow> bool \<Rightarrow> reader \<Rightarrow> pgo_message result" where
  "decode_update render rel_oids keep_binary r =
     and_then (read_u32 r) (\<lambda>(rid, r).
     and_then (read_u8 r) (\<lambda>(kind, r).
     and_then
       (if kind = byte_of CHR ''K'' \<or> kind = byte_of CHR ''O'' then
          and_then (read_tuple render (rel_oids rid) keep_binary r) (\<lambda>(t, r).
          and_then (read_u8 r) (\<lambda>(kind', r).
            Inr (Some \<lparr>full = (kind = byte_of CHR ''O''), old_tuple = t\<rparr>, kind', r)))
        else Inr (None, kind, r))
       (\<lambda>(old, kind, r).
          if kind \<noteq> byte_of CHR ''N'' then Inl (Transfer (Expected_tuple (byte_of CHR ''U'') kind))
          else and_then (read_tuple render (rel_oids rid) keep_binary r) (\<lambda>(new, r).
                 Inr (Pgo_Update rid old new)))))"

definition decode_delete ::
  "(u32 \<Rightarrow> bytes \<Rightarrow> bytes result) \<Rightarrow> rel_oids \<Rightarrow> bool \<Rightarrow> reader \<Rightarrow> pgo_message result" where
  "decode_delete render rel_oids keep_binary r =
     and_then (read_u32 r) (\<lambda>(rid, r).
     and_then (read_u8 r) (\<lambda>(kind, r).
       if kind \<noteq> byte_of CHR ''K'' \<and> kind \<noteq> byte_of CHR ''O''
       then Inl (Transfer (Expected_tuple (byte_of CHR ''D'') kind))
       else and_then (read_tuple render (rel_oids rid) keep_binary r) (\<lambda>(t, r).
              Inr (Pgo_Delete rid \<lparr>full = (kind = byte_of CHR ''O''), old_tuple = t\<rparr>))))"

fun read_u32s :: "nat \<Rightarrow> reader \<Rightarrow> (u32 list \<times> reader) result" where
  "read_u32s 0 r = Inr ([], r)"
| "read_u32s (Suc n) r =
     and_then (read_u32 r) (\<lambda>(v, r). and_then (read_u32s n r) (\<lambda>(vs, r). Inr (v # vs, r)))"

definition decode_truncate :: "reader \<Rightarrow> pgo_message result" where
  "decode_truncate r =
     and_then (read_u32 r) (\<lambda>(n, r).
     and_then (read_u8 r) (\<lambda>(opts, r).
     and_then (read_u32s (unat n) r) (\<lambda>(ids, r).
       Inr (Pgo_Truncate ids (opts AND 1 \<noteq> 0) (opts AND 2 \<noteq> 0)))))"

definition decode_body ::
  "(u32 \<Rightarrow> bytes \<Rightarrow> bytes result) \<Rightarrow> rel_oids \<Rightarrow> bool \<Rightarrow> byte \<Rightarrow> reader \<Rightarrow> pgo_message result" where
  "decode_body render rel_oids keep_binary tag r =
     (if tag = byte_of CHR ''S'' then decode_stream_start r
      else if tag = byte_of CHR ''E'' then Inr Pgo_StreamStop
      else if tag = byte_of CHR ''c'' then decode_stream_commit r
      else if tag = byte_of CHR ''A'' then decode_stream_abort r
      else if tag = byte_of CHR ''B'' then decode_begin r
      else if tag = byte_of CHR ''C'' then decode_commit r
      else if tag = byte_of CHR ''O'' then Inr Pgo_Origin
      else if tag = byte_of CHR ''Y'' then Inr Pgo_Type
      else if tag = byte_of CHR ''R'' then decode_relation r
      else if tag = byte_of CHR ''I'' then decode_insert render rel_oids keep_binary r
      else if tag = byte_of CHR ''U'' then decode_update render rel_oids keep_binary r
      else if tag = byte_of CHR ''D'' then decode_delete render rel_oids keep_binary r
      else if tag = byte_of CHR ''T'' then decode_truncate r
      else Inl (Transfer (Unknown_tag tag)))"

definition carries_xid :: "byte \<Rightarrow> bool" where
  "carries_xid tag = (tag \<in> set (ascii ''RYIUDT''))"

definition decode ::
  "(u32 \<Rightarrow> bytes \<Rightarrow> bytes result) \<Rightarrow> bytes \<Rightarrow> bool \<Rightarrow> rel_oids \<Rightarrow> bool \<Rightarrow>
   (pgo_message \<times> u32 option) result" where
  "decode render payload in_stream rel_oids keep_binary =
     and_then (read_u8 (reader_new payload)) (\<lambda>(tag, r).
     and_then
       (if in_stream \<and> carries_xid tag
        then and_then (read_u32 r) (\<lambda>(x, r). Inr (Some x, r)) else Inr (None, r))
       (\<lambda>(change_xid, r).
          and_then (decode_body render rel_oids keep_binary tag r) (\<lambda>msg. Inr (msg, change_xid))))"

section \<open>Log sequence numbers as text\<close>

definition lsn_to_string :: "u64 \<Rightarrow> bytes" where
  "lsn_to_string lsn =
     show_radix 16 (unat (drop_bit 32 lsn)) @ byte_of CHR ''/'' #
     show_radix 16 (unat (lsn AND 0xFFFFFFFF))"

text \<open>\<^verbatim>\<open>str::split_once\<close> on one byte.\<close>

definition split_once :: "byte \<Rightarrow> bytes \<Rightarrow> (bytes \<times> bytes) option" where
  "split_once c s =
     (case position (\<lambda>b. b = c) s of None \<Rightarrow> None | Some i \<Rightarrow> Some (take i s, drop (Suc i) s))"

definition lsn_from_string :: "bytes \<Rightarrow> u64 result" where
  "lsn_from_string s =
     and_then (ok_or (Transfer (Bad_lsn s)) (split_once (byte_of CHR ''/'') s)) (\<lambda>(hi, lo).
     and_then (ok_or (Transfer (Bad_lsn s)) (parse_u64_radix 16 hi)) (\<lambda>hi.
     and_then (ok_or (Transfer (Bad_lsn s)) (parse_u64_radix 16 lo)) (\<lambda>lo.
       Inr (push_bit 32 hi OR lo))))"

section \<open>Reading stays inside the frame\<close>

named_theorems reader_facts "what a successful read says of the reader it leaves"

lemma read_u8_Inr [reader_facts]:
  "read_u8 r = Inr (b, r') \<Longrightarrow> src r' = src r \<and> pos r' = pos r + 1 \<and> pos r' \<le> length (src r)"
  by (auto simp: read_u8_def split: if_splits)

lemma read_take_Inr [reader_facts]:
  "read_take r n = Inr (b, r') \<Longrightarrow> src r' = src r \<and> pos r' = pos r + n \<and> pos r' \<le> length (src r)"
  by (auto simp: read_take_def Let_def split: if_splits)

lemma read_ints_Inr [reader_facts]:
  "read_u16 r = Inr (w2, r') \<Longrightarrow> src r' = src r \<and> pos r' = pos r + 2 \<and> pos r' \<le> length (src r)"
  "read_u32 r = Inr (w4, r') \<Longrightarrow> src r' = src r \<and> pos r' = pos r + 4 \<and> pos r' \<le> length (src r)"
  "read_i32 r = Inr (w4, r') \<Longrightarrow> src r' = src r \<and> pos r' = pos r + 4 \<and> pos r' \<le> length (src r)"
  "read_u64 r = Inr (w8, r') \<Longrightarrow> src r' = src r \<and> pos r' = pos r + 8 \<and> pos r' \<le> length (src r)"
  "read_i64 r = Inr (w8, r') \<Longrightarrow> src r' = src r \<and> pos r' = pos r + 8 \<and> pos r' \<le> length (src r)"
  by (auto simp: read_u16_def read_u32_def read_i32_def read_u64_def read_i64_def result_simps
        dest: read_take_Inr)

lemma read_cstr_Inr [reader_facts]:
  "read_cstr r = Inr (s, r') \<Longrightarrow> src r' = src r \<and> pos r < pos r' \<and> pos r' \<le> length (src r)"
  by (auto simp: read_cstr_def Let_def split: if_splits option.splits dest!: position_Some)

lemma read_no_panic [simp]:
  "read_u8 r \<noteq> Inl Panic" "read_take r n \<noteq> Inl Panic" "read_u16 r \<noteq> Inl Panic"
  "read_u32 r \<noteq> Inl Panic" "read_i32 r \<noteq> Inl Panic" "read_u64 r \<noteq> Inl Panic"
  "read_i64 r \<noteq> Inl Panic"
  "pos r \<le> length (src r) \<Longrightarrow> read_cstr r \<noteq> Inl Panic"
  by (auto simp: read_u8_def read_take_def read_u16_def read_u32_def read_i32_def read_u64_def
        read_i64_def read_cstr_def Let_def and_then_eq_Inl split: if_splits option.splits)

lemma read_cell_cases:
  assumes "read_cell r = Inr (c, bin, r')"
  obtains (plain) k where "read_u8 r = Inr (k, r')" "c = RNull \<or> c = RUnchangedToast"
  | (ranged) k r1 len r2 b where "read_u8 r = Inr (k, r1)" "read_u32 r1 = Inr (len, r2)"
      "read_take r2 (unat len) = Inr (b, r')" "c = RText (of_nat (pos r2)) len"
  using assms by (auto simp: read_cell_def result_simps Let_def split: if_splits)

lemma read_cell_Inr [reader_facts]:
  assumes "read_cell r = Inr (c, bin, r')"
  shows "src r' = src r \<and> pos r' \<le> length (src r)
         \<and> (length (src r) < 2 ^ 32 \<longrightarrow> cellr_wf (src r) c)"
  using assms
proof (cases rule: read_cell_cases)
  case (plain k)
  then show ?thesis by (auto dest: read_u8_Inr)
next
  case (ranged k r1 len r2 b)
  have "unat (of_nat (pos r2) :: u32) \<le> pos r2"
    by (simp add: unat_of_nat take_bit_eq_mod)
  with read_u8_Inr [OF ranged(1)] read_ints_Inr(2) [OF ranged(2)] read_take_Inr [OF ranged(3)] ranged(4)
  show ?thesis
    by (auto simp: cellr_wf_def)
qed

lemma read_cell_no_panic [simp]: "read_cell r \<noteq> Inl Panic"
  by (auto simp: read_cell_def and_then_eq_Inl Let_def split: if_splits)

lemma read_cells_Inr [reader_facts]:
  "read_cells n i r = Inr (cs, bins, r') \<Longrightarrow> pos r \<le> length (src r) \<Longrightarrow>
   src r' = src r \<and> pos r' \<le> length (src r) \<and> length cs = n
   \<and> (\<forall>j \<in> set bins. i \<le> j \<and> j < i + n)
   \<and> (length (src r) < 2 ^ 32 \<longrightarrow> list_all (cellr_wf (src r)) cs)"
proof (induction n arbitrary: i r cs bins)
  case 0
  then show ?case by simp
next
  case (Suc n)
  from Suc.prems(1) obtain c bin r1 cs' bins' where
    c: "read_cell r = Inr (c, bin, r1)" and
    rest: "read_cells n (Suc i) r1 = Inr (cs', bins', r')" and
    out: "cs = c # cs'" "bins = (if bin then i # bins' else bins')"
    by (auto simp: result_simps)
  from read_cell_Inr [OF c] have r1: "src r1 = src r" "pos r1 \<le> length (src r)"
    "length (src r) < 2 ^ 32 \<longrightarrow> cellr_wf (src r) c"
    by auto
  from Suc.IH [OF rest] r1 out show ?case
    by auto
qed

lemma read_cells_no_panic [simp]: "read_cells n i r \<noteq> Inl Panic"
  by (induction n arbitrary: i r) (auto simp: and_then_eq_Inl)

lemma slice_of_wf:
  "cellr_wf s (RText off len) \<Longrightarrow> \<exists>raw. slice_range s (unat off) (unat (off + len)) = Inr raw"
  using cellr_view_wf [of s "RText off len"]
  by (cases "slice_range s (unat off) (unat (off + len))") (auto simp: cellr_view_def)

lemma rebuild_cells_no_panic:
  "(\<forall>oid raw. render oid raw \<noteq> Inl Panic) \<Longrightarrow> list_all (cellr_wf s) cs \<Longrightarrow>
   i + length cs \<le> length oids \<Longrightarrow> rebuild_cells render oids s i bins cs f out \<noteq> Inl Panic"
  by (induction render oids s i bins cs f out rule: rebuild_cells.induct)
    (auto simp: and_then_eq_Inl Let_def dest!: slice_of_wf)

lemma rebuild_cells_frame:
  "rebuild_cells render oids s i bins cs f out = Inr (f', out') \<Longrightarrow> \<exists>x. f' = f @ x"
proof (induction render oids s i bins cs f out rule: rebuild_cells.induct)
  case (4 render oids s i bins off len cs f out)
  then show ?case
    by (fastforce simp: result_simps Let_def)
qed auto

lemma rebuild_cells_wf:
  "rebuild_cells render oids s i bins cs f out = Inr (f', out') \<Longrightarrow> length f' < 2 ^ 32 \<Longrightarrow>
   list_all (cellr_wf f) out \<Longrightarrow> list_all (cellr_wf f') out'"
proof (induction render oids s i bins cs f out rule: rebuild_cells.induct)
  case (4 render oids s i bins off len cs f out)
  let ?bin = "bins \<noteq> [] \<and> hd bins = i"
  from "4.prems"(1) obtain raw t where
    raw: "slice_range s (unat off) (unat (off + len)) = Inr raw" and
    t: "(if ?bin then and_then (index_list oids i) (\<lambda>oid. render oid raw) else Inr raw) = Inr t" and
    rest: "rebuild_cells render oids s (Suc i) (if ?bin then tl bins else bins) cs (f @ t)
             (out @ [RText (of_nat (length f)) (of_nat (length (f @ t)) - of_nat (length f))]) = Inr (f', out')"
    by (auto simp: result_simps Let_def)
  have b: "length (f @ t) < 2 ^ 32"
    using rebuild_cells_frame [OF rest] "4.prems"(2) by auto
  have "unat (of_nat (length f) :: u32) = length f"
    using b by (intro unat_of_nat_u32) simp
  moreover have "unat ((of_nat (length (f @ t)) - of_nat (length f)) :: u32) = length t"
    using b by (simp add: unat_of_nat take_bit_nat_eq_self)
  ultimately have "list_all (cellr_wf (f @ t))
      (out @ [RText (of_nat (length f)) (of_nat (length (f @ t)) - of_nat (length f))])"
    using "4.prems"(3) b by (auto simp: list_all_iff cellr_wf_def split: cellr.splits)
  from "4.IH" [OF raw refl t rest "4.prems"(2) this] show ?case .
qed auto

lemma read_tuple_Inr [reader_facts]:
  assumes "read_tuple render oids kb r = Inr (t, r')" "pos r \<le> length (src r)"
  shows "src r' = src r \<and> pos r' \<le> length (src r)
         \<and> (length (src r) < 2 ^ 32 \<longrightarrow> length (frame t) < 2 ^ 32 \<longrightarrow> tuple_wf t)"
proof -
  from assms(1) obtain n r1 cs bins r2 where
    n: "read_u16 r = Inr (n, r1)" and
    cs: "read_cells (unat n) 0 r1 = Inr (cs, bins, r2)" and
    fin: "if bins = [] \<or> kb then (t, r') = (\<lparr>frame = src r2, cells = cs\<rparr>, r2)
          else \<exists>os f out. oids = Some os \<and> r' = r2 \<and> t = from_rendered f out \<and>
                 rebuild_cells render os (src r2) 0 bins cs [] [] = Inr (f, out)"
    by (auto simp: read_tuple_def result_simps split: if_splits option.splits)
  from read_ints_Inr(1) [OF n] assms(2) have "src r1 = src r" "pos r1 \<le> length (src r1)"
    by auto
  with read_cells_Inr [OF cs] fin show ?thesis
    by (auto simp: tuple_wf_def from_rendered_def dest: rebuild_cells_wf split: if_splits)
qed

lemma read_tuple_no_panic:
  assumes "\<forall>oid raw. render oid raw \<noteq> Inl Panic" "pos r \<le> length (src r)" "length (src r) < 2 ^ 32"
  shows "read_tuple render oids kb r \<noteq> Inl Panic"
proof
  assume "read_tuple render oids kb r = Inl Panic"
  then obtain n r1 cs bins r2 os where
    n: "read_u16 r = Inr (n, r1)" and cs: "read_cells (unat n) 0 r1 = Inr (cs, bins, r2)" and
    os: "length os = unat n" "rebuild_cells render os (src r2) 0 bins cs [] [] = Inl Panic"
    by (auto simp: read_tuple_def and_then_eq_Inl split: if_splits option.splits)
  from read_ints_Inr(1) [OF n] read_cells_Inr [OF cs] assms(2,3) os(1)
  have "list_all (cellr_wf (src r2)) cs" "0 + length cs \<le> length os"
    by auto
  from rebuild_cells_no_panic [OF assms(1) this] os(2) show False by simp
qed

fun msg_tuples :: "pgo_message \<Rightarrow> tuple list" where
  "msg_tuples (Pgo_Insert _ t) = [t]"
| "msg_tuples (Pgo_Update _ None t) = [t]"
| "msg_tuples (Pgo_Update _ (Some old) t) = [old_tuple old, t]"
| "msg_tuples (Pgo_Delete _ old) = [old_tuple old]"
| "msg_tuples _ = []"

lemma read_relation_cols_no_panic:
  "pos r \<le> length (src r) \<Longrightarrow> read_relation_cols n r \<noteq> Inl Panic"
proof (induction n arbitrary: r)
  case (Suc n)
  then show ?case
    by (fastforce simp: and_then_eq_Inl dest: reader_facts)
qed simp

lemma read_u32s_no_panic: "read_u32s n r \<noteq> Inl Panic"
  by (induction n arbitrary: r) (auto simp: and_then_eq_Inl)

lemma decode_relation_no_panic:
  "pos r \<le> length (src r) \<Longrightarrow> decode_relation r \<noteq> Inl Panic"
  using read_relation_cols_no_panic
  by (fastforce simp: decode_relation_def and_then_eq_Inl dest: reader_facts)

lemmas control_defs = decode_stream_start_def decode_stream_commit_def decode_stream_abort_def
  decode_begin_def decode_commit_def decode_truncate_def

lemma control_no_panic:
  "decode_stream_start r \<noteq> Inl Panic" "decode_stream_commit r \<noteq> Inl Panic"
  "decode_stream_abort r \<noteq> Inl Panic" "decode_begin r \<noteq> Inl Panic"
  "decode_commit r \<noteq> Inl Panic" "decode_truncate r \<noteq> Inl Panic"
  by (auto simp: control_defs and_then_eq_Inl read_u32s_no_panic)

lemma decode_rows_no_panic:
  assumes "\<forall>oid raw. render oid raw \<noteq> Inl Panic" "pos r \<le> length (src r)" "length (src r) < 2 ^ 32"
  shows "decode_insert render ro kb r \<noteq> Inl Panic" "decode_update render ro kb r \<noteq> Inl Panic"
    "decode_delete render ro kb r \<noteq> Inl Panic"
  using assms read_tuple_no_panic [OF assms(1)]
  by (auto simp: decode_insert_def decode_update_def decode_delete_def and_then_eq_Inl
      result_simps split: if_splits dest!: reader_facts)

lemma decode_body_no_panic:
  assumes "\<forall>oid raw. render oid raw \<noteq> Inl Panic" "pos r \<le> length (src r)" "length (src r) < 2 ^ 32"
  shows "decode_body render ro kb tag r \<noteq> Inl Panic"
  using assms decode_rows_no_panic [OF assms]
  by (simp add: decode_body_def control_no_panic decode_relation_no_panic)

lemma decode_reader:
  assumes "decode render payload st ro kb = Inr (msg, x)"
  obtains tag r where "decode_body render ro kb tag r = Inr msg" "src r = payload"
    "pos r \<le> length (src r)"
  using assms
  by (auto simp: decode_def reader_new_def result_simps split: if_splits dest!: reader_facts)

lemma decode_body_tuples:
  assumes "decode_body render ro kb tag r = Inr msg" "pos r \<le> length (src r)"
    "length (src r) < 2 ^ 32" "t \<in> set (msg_tuples msg)" "length (frame t) < 2 ^ 32"
  shows "tuple_wf t"
  using assms
  by (auto simp: decode_body_def control_defs decode_relation_def decode_insert_def
      decode_update_def decode_delete_def result_simps split: if_splits dest!: reader_facts)

section \<open>The wire format, and that decoding inverts it\<close>

fun enc_cell :: "cell \<Rightarrow> bytes" where
  "enc_cell Null = ascii ''n''"
| "enc_cell (Text t) = ascii ''t'' @ to_be_bytes (of_nat (length t) :: u32) @ t"
| "enc_cell UnchangedToast = ascii ''u''"

definition enc_tuple :: "cell list \<Rightarrow> bytes" where
  "enc_tuple cs = to_be_bytes (of_nat (length cs) :: u16) @ concat (map enc_cell cs)"

text \<open>A change inside a stream block names its (sub)transaction first.\<close>

definition enc_xid :: "u32 option \<Rightarrow> bytes" where
  "enc_xid x = (case x of None \<Rightarrow> [] | Some w \<Rightarrow> to_be_bytes w)"

definition enc_old :: "(bool \<times> cell list) option \<Rightarrow> bytes" where
  "enc_old old = (case old of None \<Rightarrow> []
     | Some (fl, cs) \<Rightarrow> (if fl then ascii ''O'' else ascii ''K'') @ enc_tuple cs)"

text \<open>A row change as the protocol documents it: tuples as lists of cells.\<close>

datatype wire_row =
    WInsert u32 "cell list"
  | WUpdate u32 "(bool \<times> cell list) option" "cell list"
  | WDelete u32 bool "cell list"

fun enc_row :: "u32 option \<Rightarrow> wire_row \<Rightarrow> bytes" where
  "enc_row x (WInsert rid new) =
     byte_of CHR ''I'' # enc_xid x @ to_be_bytes rid @ ascii ''N'' @ enc_tuple new"
| "enc_row x (WUpdate rid old new) =
     byte_of CHR ''U'' # enc_xid x @ to_be_bytes rid @ enc_old old @ ascii ''N'' @ enc_tuple new"
| "enc_row x (WDelete rid fl old) =
     byte_of CHR ''D'' # enc_xid x @ to_be_bytes rid @ enc_old (Some (fl, old))"

fun row_of :: "pgo_message \<Rightarrow> wire_row option" where
  "row_of (Pgo_Insert rid t) = Some (WInsert rid (cells_of t))"
| "row_of (Pgo_Update rid old t) =
     Some (WUpdate rid (map_option (\<lambda>i. (full i, cells_of (old_tuple i))) old) (cells_of t))"
| "row_of (Pgo_Delete rid old) = Some (WDelete rid (full old) (cells_of (old_tuple old)))"
| "row_of _ = None"

text \<open>The column count travels in 16 bits.\<close>

fun row_fits :: "wire_row \<Rightarrow> bool" where
  "row_fits (WInsert _ new) = (length new < 2 ^ 16)"
| "row_fits (WUpdate _ old new) =
     (length new < 2 ^ 16 \<and> (case old of Some (_, cs) \<Rightarrow> length cs < 2 ^ 16 | None \<Rightarrow> True))"
| "row_fits (WDelete _ _ cs) = (length cs < 2 ^ 16)"

text \<open>A reader with \<open>pre\<close> consumed and \<open>rest\<close> to come.\<close>

definition at :: "bytes \<Rightarrow> bytes \<Rightarrow> reader" where
  "at pre rest = \<lparr>src = pre @ rest, pos = length pre\<rparr>"

lemma reader_new_at: "reader_new b = at [] b"
  by (simp add: reader_new_def at_def)

lemma src_at [simp]: "src (at pre rest) = pre @ rest"
  by (simp add: at_def)

lemma read_u8_at [simp]: "read_u8 (at pre (b # rest)) = Inr (b, at (pre @ [b]) rest)"
  by (simp add: read_u8_def at_def)

lemma read_take_at:
  "length pre + length b < 2 ^ 64 \<Longrightarrow>
   read_take (at pre (b @ rest)) (length b) = Inr (b, at (pre @ b) rest)"
  by (simp add: read_take_def at_def)

lemma read_ints_at [simp]:
  "length pre + 2 < 2 ^ 64 \<Longrightarrow> read_u16 (at pre (to_be_bytes w2 @ rest)) = Inr (w2, at (pre @ to_be_bytes w2) rest)"
  "length pre + 4 < 2 ^ 64 \<Longrightarrow> read_u32 (at pre (to_be_bytes w4 @ rest)) = Inr (w4, at (pre @ to_be_bytes w4) rest)"
  using read_take_at [of pre "to_be_bytes w2" rest] read_take_at [of pre "to_be_bytes w4" rest]
  by (simp_all add: read_u16_def read_u32_def from_to_be_bytes)

lemma read_cell_at:
  assumes "length pre + length (enc_cell c) + length rest < 2 ^ 32"
  shows "\<exists>r. read_cell (at pre (enc_cell c @ rest)) = Inr (r, False, at (pre @ enc_cell c) rest)
             \<and> cell_of (pre @ enc_cell c @ rest) r = c"
proof (cases c)
  case (Text t)
  let ?len = "of_nat (length t) :: u32"
  have len: "unat ?len = length t"
    using assms Text by (intro unat_of_nat_u32) simp
  have off: "unat (of_nat (length pre + 5) :: u32) = length pre + 5"
    using assms Text by (intro unat_of_nat_u32) simp
  have take: "read_take (at (pre @ [byte_of CHR ''t''] @ to_be_bytes ?len) (t @ rest)) (unat ?len)
              = Inr (t, at (pre @ enc_cell c) rest)"
    using read_take_at [of "pre @ [byte_of CHR ''t''] @ to_be_bytes ?len" t rest] assms Text
    by (simp add: len byte_of_def)
  have pos: "pos (at (pre @ [byte_of CHR ''t''] @ to_be_bytes ?len) (t @ rest)) = length pre + 5"
    by (simp add: at_def)
  let ?r = "RText (of_nat (length pre + 5)) ?len"
  have "read_cell (at pre (enc_cell c @ rest)) = Inr (?r, False, at (pre @ enc_cell c) rest)"
    using Text assms take pos by (simp add: read_cell_def byte_of_def Let_def del: of_nat_add)
  moreover have "cell_of (pre @ enc_cell c @ rest) ?r = c"
    using Text len off by (simp add: cell_of_def del: of_nat_add)
  ultimately show ?thesis by blast
qed (use assms in \<open>auto simp: read_cell_def byte_of_def cell_of_def\<close>)

lemma read_cells_at:
  "length pre + length (concat (map enc_cell cs)) + length rest < 2 ^ 32 \<Longrightarrow>
   \<exists>rs. read_cells (length cs) i (at pre (concat (map enc_cell cs) @ rest))
          = Inr (rs, [], at (pre @ concat (map enc_cell cs)) rest)
        \<and> map (cell_of (pre @ concat (map enc_cell cs) @ rest)) rs = cs"
proof (induction cs arbitrary: pre i)
  case Nil
  then show ?case by simp
next
  case (Cons c cs)
  obtain r where r:
    "read_cell (at pre (enc_cell c @ concat (map enc_cell cs) @ rest))
       = Inr (r, False, at (pre @ enc_cell c) (concat (map enc_cell cs) @ rest))"
    "cell_of (pre @ enc_cell c @ concat (map enc_cell cs) @ rest) r = c"
    using read_cell_at [of pre c "concat (map enc_cell cs) @ rest"] Cons.prems by auto
  from Cons.IH [of "pre @ enc_cell c" "Suc i"] Cons.prems r show ?case
    by fastforce
qed

lemma read_tuple_at:
  assumes "length pre + length (enc_tuple cs) + length rest < 2 ^ 32" "length cs < 2 ^ 16"
  shows "\<exists>t. read_tuple render oids kb (at pre (enc_tuple cs @ rest)) = Inr (t, at (pre @ enc_tuple cs) rest)
             \<and> cells_of t = cs"
proof -
  have n: "unat (of_nat (length cs) :: u16) = length cs"
    using assms(2) by (simp add: unat_of_nat take_bit_nat_eq_self)
  obtain rs where rs:
    "read_cells (length cs) 0 (at (pre @ to_be_bytes (of_nat (length cs) :: u16)) (concat (map enc_cell cs) @ rest))
       = Inr (rs, [], at (pre @ enc_tuple cs) rest)"
    "map (cell_of (pre @ enc_tuple cs @ rest)) rs = cs"
    using read_cells_at [of "pre @ to_be_bytes (of_nat (length cs) :: u16)" cs rest 0] assms(1)
    by (auto simp: enc_tuple_def)
  have "read_tuple render oids kb (at pre (enc_tuple cs @ rest))
        = Inr (\<lparr>frame = pre @ enc_tuple cs @ rest, cells = rs\<rparr>, at (pre @ enc_tuple cs) rest)"
    using rs(1) assms(1) by (simp add: read_tuple_def enc_tuple_def n)
  with rs(2) show ?thesis
    by (auto simp: cells_of_def)
qed

lemma lsn_inverse: "lsn_from_string (lsn_to_string w) = Inr w"
proof -
  let ?hi = "show_radix 16 (unat (drop_bit 32 w))" and ?lo = "show_radix 16 (unat (w AND 0xFFFFFFFF))"
  have "\<forall>b \<in> set ?hi. b \<noteq> 47"
    using show_radix_chars [of 16] by auto
  then have "position (\<lambda>b. b = 47) (?hi @ 47 # ?lo) = Some (length ?hi)"
    by (intro position_skip) auto
  then have split: "split_once (byte_of CHR ''/'') (lsn_to_string w) = Some (?hi, ?lo)"
    by (simp add: split_once_def lsn_to_string_def byte_of_def)
  have m: "(0xFFFFFFFF :: u64) = mask 32"
    by (simp add: mask_eq_exp_minus_1)
  have "push_bit 32 (drop_bit 32 w) OR (w AND 0xFFFFFFFF) = w"
    unfolding m by (rule bit_word_eqI) (auto simp: bit_simps)
  with split show ?thesis
    by (simp add: lsn_from_string_def parse_show_u64)
qed
text \<open>The row messages, and what decoding them yields.\<close>

lemma decode_insert_at:
  assumes "length pre + length (to_be_bytes rid @ ascii ''N'' @ enc_tuple new) < 2 ^ 32" "length new < 2 ^ 16"
  shows "\<exists>t. decode_insert render ro kb (at pre (to_be_bytes rid @ ascii ''N'' @ enc_tuple new))
               = Inr (Pgo_Insert rid t) \<and> cells_of t = new"
proof -
  have "\<exists>t. read_tuple render (ro rid) kb (at (pre @ to_be_bytes rid @ ascii ''N'') (enc_tuple new @ []))
               = Inr (t, at ((pre @ to_be_bytes rid @ ascii ''N'') @ enc_tuple new) []) \<and> cells_of t = new"
    using assms by (intro read_tuple_at) simp_all
  then show ?thesis
    using assms(1) by (auto simp: decode_insert_def byte_of_def)
qed

lemma decode_delete_at:
  assumes "length pre + length (to_be_bytes rid @ enc_old (Some (fl, cs))) < 2 ^ 32" "length cs < 2 ^ 16"
  shows "\<exists>t. decode_delete render ro kb (at pre (to_be_bytes rid @ enc_old (Some (fl, cs))))
               = Inr (Pgo_Delete rid \<lparr>full = fl, old_tuple = t\<rparr>) \<and> cells_of t = cs"
proof -
  let ?k = "if fl then ascii ''O'' else ascii ''K''"
  have "\<exists>t. read_tuple render (ro rid) kb (at (pre @ to_be_bytes rid @ ?k) (enc_tuple cs @ []))
               = Inr (t, at ((pre @ to_be_bytes rid @ ?k) @ enc_tuple cs) []) \<and> cells_of t = cs"
    using assms by (intro read_tuple_at) (simp_all add: enc_old_def)
  then show ?thesis
    using assms(1) by (cases fl) (auto simp: decode_delete_def enc_old_def byte_of_def)
qed

lemma decode_update_at:
  assumes "length pre + length (to_be_bytes rid @ enc_old old @ ascii ''N'' @ enc_tuple new) < 2 ^ 32"
    "length new < 2 ^ 16" "\<forall>fl cs. old = Some (fl, cs) \<longrightarrow> length cs < 2 ^ 16"
  shows "\<exists>o' t. decode_update render ro kb (at pre (to_be_bytes rid @ enc_old old @ ascii ''N'' @ enc_tuple new))
               = Inr (Pgo_Update rid o' t) \<and> cells_of t = new
               \<and> map_option (\<lambda>i. (full i, cells_of (old_tuple i))) o' = old"
proof (cases old)
  case None
  have "\<exists>t. read_tuple render (ro rid) kb (at (pre @ to_be_bytes rid @ ascii ''N'') (enc_tuple new @ []))
               = Inr (t, at ((pre @ to_be_bytes rid @ ascii ''N'') @ enc_tuple new) []) \<and> cells_of t = new"
    using assms by (intro read_tuple_at) simp_all
  then show ?thesis
    using None assms(1) by (auto simp: decode_update_def enc_old_def byte_of_def)
next
  case (Some a)
  then obtain fl cs where old: "old = Some (fl, cs)"
    by (cases a) auto
  let ?k = "if fl then ascii ''O'' else ascii ''K''"
  let ?p1 = "pre @ to_be_bytes rid @ ?k" and ?p2 = "pre @ to_be_bytes rid @ ?k @ enc_tuple cs @ ascii ''N''"
  have "\<exists>t. read_tuple render (ro rid) kb (at ?p1 (enc_tuple cs @ ascii ''N'' @ enc_tuple new))
              = Inr (t, at (?p1 @ enc_tuple cs) (ascii ''N'' @ enc_tuple new)) \<and> cells_of t = cs"
    using assms old by (intro read_tuple_at) (simp_all add: enc_old_def)
  moreover have "\<exists>t. read_tuple render (ro rid) kb (at ?p2 (enc_tuple new @ []))
              = Inr (t, at (?p2 @ enc_tuple new) []) \<and> cells_of t = new"
    using assms old by (intro read_tuple_at) (simp_all add: enc_old_def)
  ultimately show ?thesis
    using old assms(1) by (cases fl) (auto simp: decode_update_def enc_old_def byte_of_def)
qed

text \<open>The tag and the optional transaction id, then the body.\<close>

lemma decode_tagged:
  assumes "carries_xid tag" "length body < 2 ^ 32"
  shows "decode render (tag # enc_xid x @ body) (x \<noteq> None) ro kb
         = and_then (decode_body render ro kb tag (at (tag # enc_xid x) body)) (\<lambda>m. Inr (m, x))"
  using assms by (cases x) (simp_all add: decode_def reader_new_at enc_xid_def)

section \<open>Properties\<close>


definition hex_render :: "u32 \<Rightarrow> bytes \<Rightarrow> bytes result" where
  "hex_render oid raw = (if raw = [] then Inl (Transfer (Rendering (unat oid))) else Inr raw)"


text \<open>
  C26: every tuple of a decoded message has its ranges inside its own frame, so reading
  any of its cells later cannot panic.
\<close>

theorem decode_tuples_in_frame:
  assumes "decode render payload in_stream rel_oids keep_binary = Inr (msg, xid)"
    and "length payload < 2 ^ 32" "t \<in> set (msg_tuples msg)" "length (frame t) < 2 ^ 32"
  shows "tuple_wf t \<and> tuple_views t = Inr (cells_of t)"
proof -
  from assms(1) obtain tag r where "decode_body render rel_oids keep_binary tag r = Inr msg"
    "src r = payload" "pos r \<le> length (src r)"
    by (rule decode_reader)
  then have "tuple_wf t"
    using assms by (auto intro: decode_body_tuples)
  then show ?thesis
    by (simp add: tuple_simps)
qed

definition sample_insert :: bytes where
  "sample_insert = enc_row None (WInsert 7 [Text (ascii ''42''), Null, UnchangedToast, Text []])"

definition sample_tuple :: tuple where
  "sample_tuple = \<lparr>frame = sample_insert, cells = [RText 13 2, RNull, RUnchangedToast, RText 22 0]\<rparr>"

lemma read_cells_numeral:
  "read_cells (numeral k) i r =
     and_then (read_cell r) (\<lambda>(c, bin, r).
       and_then (read_cells (pred_numeral k) (Suc i) r) (\<lambda>(cs, bins, r).
         Inr (c # cs, (if bin then i # bins else bins), r)))"
  by (simp only: numeral_eq_Suc [of k] read_cells.simps be_bytes.simps)

lemma be_bytes_numeral:
  "be_bytes (numeral k) v = be_bytes (pred_numeral k) (v div 256) @ [of_nat (v mod 256)]"
  by (simp only: numeral_eq_Suc [of k] read_cells.simps be_bytes.simps)

lemmas decode_eval = decode_def reader_new_def carries_xid_def decode_body_def decode_insert_def
  read_tuple_def read_cell_def read_u8_def read_take_def read_u16_def read_u32_def from_be_bytes_def
  to_be_bytes_def be_nat_def byte_of_def enc_tuple_def enc_xid_def
  read_cells_numeral be_bytes_numeral

lemma sample_insert_decodes:
  "decode hex_render sample_insert False Map.empty False = Inr (Pgo_Insert 7 sample_tuple, None)"
  by (simp add: decode_eval sample_insert_def sample_tuple_def)

theorem decode_tuples_in_frame_witness:
  "tuple_wf sample_tuple \<and> tuple_views sample_tuple = Inr (cells_of sample_tuple)"
proof (rule decode_tuples_in_frame [OF sample_insert_decodes])
  show "length sample_insert < 2 ^ 32" by (simp add: sample_insert_def enc_tuple_def enc_xid_def)
  show "sample_tuple \<in> set (msg_tuples (Pgo_Insert 7 sample_tuple))" by simp
  show "length (frame sample_tuple) < 2 ^ 32"
    by (simp add: sample_tuple_def sample_insert_def enc_tuple_def enc_xid_def)
qed

text \<open>
  C8: decoding inverts the documented wire format of the row messages: the relation id,
  the old image with its kind, every cell with NULL, empty text and unchanged TOAST kept
  apart, and, inside a stream block, the transaction id that prefixes the change.
\<close>

theorem decode_rows_roundtrip:
  assumes "length (enc_row xid w) < 2 ^ 32" "row_fits w"
  shows "\<exists>msg. decode render (enc_row xid w) (xid \<noteq> None) rel_oids keep_binary = Inr (msg, xid)
               \<and> row_of msg = Some w"
proof (cases w)
  case (WInsert rid new)
  have "\<exists>t. decode_insert render rel_oids keep_binary
          (at (byte_of CHR ''I'' # enc_xid xid) (to_be_bytes rid @ ascii ''N'' @ enc_tuple new))
          = Inr (Pgo_Insert rid t) \<and> cells_of t = new"
    using assms WInsert by (intro decode_insert_at) simp_all
  then show ?thesis
    using assms WInsert
    by (auto simp: decode_tagged carries_xid_def decode_body_def byte_of_def simp del: not_None_eq)
next
  case (WUpdate rid old new)
  have "\<exists>o' t. decode_update render rel_oids keep_binary
          (at (byte_of CHR ''U'' # enc_xid xid) (to_be_bytes rid @ enc_old old @ ascii ''N'' @ enc_tuple new))
          = Inr (Pgo_Update rid o' t) \<and> cells_of t = new
          \<and> map_option (\<lambda>i. (full i, cells_of (old_tuple i))) o' = old"
    using assms WUpdate by (intro decode_update_at) (auto split: option.splits)
  then show ?thesis
    using assms WUpdate
    by (auto simp: decode_tagged carries_xid_def decode_body_def byte_of_def simp del: not_None_eq)
next
  case (WDelete rid fl old)
  have "\<exists>t. decode_delete render rel_oids keep_binary
          (at (byte_of CHR ''D'' # enc_xid xid) (to_be_bytes rid @ enc_old (Some (fl, old))))
          = Inr (Pgo_Delete rid \<lparr>full = fl, old_tuple = t\<rparr>) \<and> cells_of t = old"
    using assms WDelete by (intro decode_delete_at) simp_all
  then show ?thesis
    using assms WDelete
    by (auto simp: decode_tagged carries_xid_def decode_body_def byte_of_def simp del: not_None_eq)
qed

theorem decode_rows_roundtrip_witness:
  "\<exists>msg. decode hex_render (enc_row (Some 9) (WUpdate 7 (Some (True, [Null])) [Text []])) (Some (9::u32) \<noteq> None)
           Map.empty False = Inr (msg, Some 9)
         \<and> row_of msg = Some (WUpdate 7 (Some (True, [Null])) [Text []])"
  by (rule decode_rows_roundtrip) (simp_all add: enc_tuple_def enc_xid_def enc_old_def)

text \<open>An LSN printed as Postgres prints it parses back to itself, for all 64-bit values.\<close>

lemma lsn_text_roundtrip: "lsn_from_string (lsn_to_string lsn) = Inr lsn"
  by (rule lsn_inverse)

end
