(* ===== verification/Layout.thy ===== *)
theory Layout
  imports Pgoutput
begin

text \<open>
  A table's column layout (\<^verbatim>\<open>logbased/window.rs\<close>): names and type OIDs in row order, and
  where the run's key columns sit among them. \<open>from_relation\<close> and \<open>from_mysql\<close> are the only
  constructors; the lemmas say when they accept and that what they build is coherent.
\<close>

record layout =
  l_cols :: "bytes list"
  l_oids :: "u32 list"
  l_key_cols :: "bytes list"
  l_key_idx :: "nat list"

text \<open>Each key column's position among the columns, in key order; the first missing one is named.\<close>

definition key_positions :: "bytes list \<Rightarrow> bytes list \<Rightarrow> (bytes \<Rightarrow> error) \<Rightarrow> nat list result" where
  "key_positions cols ks missing =
     collect_results (\<lambda>k. ok_or (missing k) (position (\<lambda>c. c = k) cols)) ks"

text \<open>\<^verbatim>\<open>{}.{}\<close>.\<close>

definition qualified_name :: "bytes \<Rightarrow> bytes \<Rightarrow> bytes" where
  "qualified_name ns name = ns @ ascii ''.'' @ name"

text \<open>
  The loop over the key positions under DEFAULT and USING INDEX: every key column must
  be flagged, or its old images would not carry it.
\<close>

fun check_key_flags :: "bytes \<Rightarrow> relation_col list \<Rightarrow> nat list \<Rightarrow> unit result" where
  "check_key_flags table cs [] = Inr ()"
| "check_key_flags table cs (i # is) =
     and_then (index_list cs i) (\<lambda>c.
       if \<not> rc_key c then Inl (InvalidInput (Key_not_in_identity (rc_name c) table))
       else check_key_flags table cs is)"

definition from_relation :: "relation \<Rightarrow> (bytes \<rightharpoonup> bytes list) \<Rightarrow> layout option result" where
  "from_relation r key_cols =
     (let table = qualified_name (namespace r) (rel_name r) in
      case key_cols table of
        None \<Rightarrow> Inr None
      | Some want \<Rightarrow>
          if replica_identity r = byte_of CHR ''n'' then Inl (InvalidInput (Identity_nothing table))
          else
            let cols = map rc_name (rel_cols r) in
            and_then (key_positions cols want (\<lambda>k. Transfer (Key_not_in_relation k table))) (\<lambda>key_idx.
            and_then (if replica_identity r \<noteq> byte_of CHR ''f''
                      then check_key_flags table (rel_cols r) key_idx else Inr ())
              (\<lambda>_. Inr (Some \<lparr>l_cols = cols, l_oids = map rc_type_oid (rel_cols r),
                              l_key_cols = want, l_key_idx = key_idx\<rparr>))))"

text \<open>The column names of a MySQL table's schema; the other fields of it are not read here.\<close>

definition from_mysql :: "bytes \<Rightarrow> bytes list \<Rightarrow> bytes list \<Rightarrow> layout result" where
  "from_mysql table names key_cols =
     and_then (key_positions names key_cols (\<lambda>k. Transfer (Key_not_in_source k table))) (\<lambda>key_idx.
       Inr \<lparr>l_cols = names, l_oids = replicate (length names) 0,
            l_key_cols = key_cols, l_key_idx = key_idx\<rparr>)"

definition key_oids :: "layout \<Rightarrow> u32 list result" where
  "key_oids l = collect_results (index_list (l_oids l)) (l_key_idx l)"

section \<open>Coherent layouts\<close>

definition layout_wf :: "layout \<Rightarrow> bool" where
  "layout_wf l \<longleftrightarrow> length (l_oids l) = length (l_cols l)
     \<and> length (l_key_idx l) = length (l_key_cols l)
     \<and> (\<forall>j < length (l_key_idx l). l_key_idx l ! j < length (l_cols l)
          \<and> l_cols l ! (l_key_idx l ! j) = l_key_cols l ! j)"

lemma key_positions_Inr:
  assumes "key_positions cols ks missing = Inr idx"
  shows "length idx = length ks \<and> (\<forall>j < length ks. idx ! j < length cols \<and> cols ! (idx ! j) = ks ! j)"
  using assms
  by (auto simp: key_positions_def collect_results_Inr result_simps dest!: position_Some)

lemma key_positions_missing:
  assumes "key_positions cols ks missing = Inl e"
  shows "\<exists>k \<in> set ks. k \<notin> set cols \<and> e = missing k"
  using assms unfolding key_positions_def
proof (induction ks)
  case (Cons k ks)
  then show ?case
    by (cases "position (\<lambda>c. c = k) cols") (auto simp: and_then_eq_Inl position_None)
qed simp

lemma check_key_flags_iff:
  "\<forall>i \<in> set is. i < length cs \<Longrightarrow>
   check_key_flags table cs is = Inr () \<longleftrightarrow> (\<forall>i \<in> set is. rc_key (cs ! i))"
  by (induction "is") auto

lemma check_key_flags_no_panic:
  "\<forall>i \<in> set is. i < length cs \<Longrightarrow> check_key_flags table cs is \<noteq> Inl Panic"
  by (induction "is") auto

lemma key_oids_wf:
  "layout_wf l \<Longrightarrow> key_oids l = Inr (map ((!) (l_oids l)) (l_key_idx l))"
  unfolding key_oids_def layout_wf_def
  by (intro collect_results_map) (auto simp: in_set_conv_nth)

text \<open>Checking the flags at the key positions is checking the columns the key names.\<close>

lemma key_flags_by_name:
  assumes idx: "key_positions (map rc_name cs) want missing = Inr idx"
    and names: "distinct (map rc_name cs)"
  shows "(\<forall>i \<in> set idx. rc_key (cs ! i)) \<longleftrightarrow> (\<forall>c \<in> set cs. rc_name c \<in> set want \<longrightarrow> rc_key c)"
proof -
  note p = key_positions_Inr [OF idx]
  have "\<exists>j. j \<in> set idx \<and> cs ! j = c" if c: "c \<in> set cs" "rc_name c \<in> set want" for c
  proof -
    from c(2) obtain m where m: "m < length want" "want ! m = rc_name c"
      by (auto simp: in_set_conv_nth)
    from c(1) obtain j where j: "j < length cs" "cs ! j = c"
      by (auto simp: in_set_conv_nth)
    with p m have "map rc_name cs ! (idx ! m) = map rc_name cs ! j" "idx ! m < length (map rc_name cs)"
      by auto
    with names j(1) have "idx ! m = j"
      by (simp add: nth_eq_iff_index_eq del: nth_map)
    with j m p show ?thesis by (metis nth_mem)
  qed
  moreover have "cs ! i \<in> set cs \<and> rc_name (cs ! i) \<in> set want" if "i \<in> set idx" for i
  proof -
    from that p obtain m where "m < length want" "i = idx ! m"
      by (auto simp: in_set_conv_nth)
    with p have "i < length cs" "rc_name (cs ! i) = want ! m"
      by auto
    with \<open>m < length want\<close> show ?thesis by simp
  qed
  ultimately show ?thesis by metis
qed

lemma key_positions_inside:
  "key_positions (map f cs) want missing = Inr idx \<Longrightarrow> \<forall>i \<in> set idx. i < length cs"
  by (auto simp: in_set_conv_nth dest!: key_positions_Inr)

lemma from_relation_no_panic: "from_relation r key_cols \<noteq> Inl Panic"
  using check_key_flags_no_panic [OF key_positions_inside]
    key_positions_missing [where missing = "\<lambda>k. Transfer (Key_not_in_relation k t)" for t]
  by (fastforce simp: from_relation_def Let_def and_then_eq_Inl split: option.splits if_splits)

section \<open>Properties\<close>

text \<open>
  A tracked relation is accepted exactly when its identity is not NOTHING, every key
  column of the run is among its columns and, unless the identity is FULL, every key
  column is flagged. The layout it then yields is coherent and keyed by the run's names,
  and building it never panics.
\<close>

lemma from_relation_accepts:
  assumes tracked: "key_cols (qualified_name (namespace r) (rel_name r)) = Some want"
    and names: "distinct (map rc_name (rel_cols r))"
  shows "from_relation r key_cols \<noteq> Inl Panic \<and>
         ((\<exists>l. from_relation r key_cols = Inr (Some l) \<and> layout_wf l \<and> l_key_cols l = want
              \<and> l_cols l = map rc_name (rel_cols r))
          \<longleftrightarrow> replica_identity r \<noteq> byte_of CHR ''n''
              \<and> set want \<subseteq> set (map rc_name (rel_cols r))
              \<and> (replica_identity r = byte_of CHR ''f''
                 \<or> (\<forall>c \<in> set (rel_cols r). rc_name c \<in> set want \<longrightarrow> rc_key c)))"
proof (rule conjI [OF from_relation_no_panic])
  let ?cols = "map rc_name (rel_cols r)"
  let ?table = "qualified_name (namespace r) (rel_name r)"
  show "(\<exists>l. from_relation r key_cols = Inr (Some l) \<and> layout_wf l \<and> l_key_cols l = want
              \<and> l_cols l = ?cols)
          \<longleftrightarrow> replica_identity r \<noteq> byte_of CHR ''n'' \<and> set want \<subseteq> set ?cols
              \<and> (replica_identity r = byte_of CHR ''f''
                 \<or> (\<forall>c \<in> set (rel_cols r). rc_name c \<in> set want \<longrightarrow> rc_key c))"
  proof (cases "key_positions ?cols want (\<lambda>k. Transfer (Key_not_in_relation k ?table))")
    case (Inl e)
    then have "\<not> set want \<subseteq> set ?cols"
      by (auto dest!: key_positions_missing)
    with Inl tracked show ?thesis
      by (auto simp: from_relation_def Let_def)
  next
    case (Inr idx)
    note p = key_positions_Inr [OF Inr]
    have "set want \<subseteq> set ?cols"
      using p by (metis in_set_conv_nth subsetI)
    with Inr tracked p key_flags_by_name [OF Inr names]
      check_key_flags_iff [OF key_positions_inside [OF Inr]] show ?thesis
      by (auto simp: from_relation_def Let_def result_simps layout_wf_def)
  qed
qed

end
