(* ===== verification/Collapse.thy ===== *)
theory Collapse
  imports Layout
begin

text \<open>
  The per-key collapse of one drained window (\<^verbatim>\<open>logbased/collapse.rs\<close>): the key fast
  path, the slot map, one definition per operation of the collapser, and the sealed
  result. The second half states what a window means for a keyed table (replaying its
  events one by one) and what applying the collapsed form means (truncate, deletes,
  upserts, residue), and proves the two equal.
\<close>

section \<open>Keys\<close>

type_synonym key = "bytes list"

datatype ckey = I64 int | V key

definition parse_i64_key :: "bytes \<Rightarrow> int option" where
  "parse_i64_key t =
     (if utf8_valid t then
        case parse_i64 t of None \<Rightarrow> None | Some v \<Rightarrow> if show_int v = t then Some v else None
      else None)"

fun materialize :: "ckey \<Rightarrow> key" where
  "materialize (I64 v) = [show_int v]"
| "materialize (V k) = k"

fun any_toast_at :: "nat list \<Rightarrow> tuple \<Rightarrow> bool result" where
  "any_toast_at [] row = Inr False"
| "any_toast_at (i # is) row =
     and_then (tuple_get row i) (\<lambda>c. if c = Some UnchangedToast then Inr True else any_toast_at is row)"

fun fill_key_cells :: "nat list \<Rightarrow> tuple \<Rightarrow> cell list \<Rightarrow> cell list result" where
  "fill_key_cells [] old cs = Inr cs"
| "fill_key_cells (i # is) old cs =
     and_then (tuple_get old i) (\<lambda>oc.
       fill_key_cells is old
         (if i < length cs \<and> cs ! i = UnchangedToast
          then (case oc of Some (Text t) \<Rightarrow> cs[i := Text t] | _ \<Rightarrow> cs) else cs))"

definition key_from_old :: "nat list \<Rightarrow> tuple \<Rightarrow> tuple \<Rightarrow> tuple result" where
  "key_from_old idx old row =
     and_then (any_toast_at idx row) (\<lambda>any.
       if \<not> any then Inr row
       else and_then (to_cells row) (\<lambda>cs.
            and_then (fill_key_cells idx old cs) (\<lambda>cs'. Inr (from_cells cs'))))"

section \<open>The collapsed window\<close>

datatype residue_op =
    MaskedUpdate key "cell list"
  | RUpsert "cell list"
  | RDelete key
  | Rekey key key "cell list"

record collapsed =
  deletes :: "key list"
  upserts :: "tuple list"
  residue :: "residue_op list"
  residue_at :: "u64 list"
  truncated :: bool
  events :: nat

datatype slot = SUpsert nat bool | SDelete | SResidue bool

fun slot_del :: "slot \<Rightarrow> bool" where
  "slot_del (SUpsert _ del) = del"
| "slot_del (SResidue del) = del"
| "slot_del SDelete = True"

record tail =
  ops :: "residue_op list"
  tat :: "u64 list"
  tpos :: u64

definition tail_push :: "tail \<Rightarrow> residue_op \<Rightarrow> tail" where
  "tail_push t op = t\<lparr>ops := ops t @ [op], tat := tat t @ [tpos t]\<rparr>"

definition tail_clear :: "tail \<Rightarrow> tail" where
  "tail_clear t = t\<lparr>ops := [], tat := []\<rparr>"

text \<open>
  The hash map is an association list with distinct keys: some iteration order, which
  \<open>collapser_finish\<close> reads and no statement below depends on.
\<close>

record collapser =
  c_layout :: layout
  c_map :: "(ckey \<times> slot) list"
  c_upserts :: "tuple option list"
  c_residue :: tail
  c_truncate :: bool
  c_events :: nat

definition collapser_new :: "layout \<Rightarrow> collapser" where
  "collapser_new l = \<lparr>c_layout = l, c_map = [], c_upserts = [],
     c_residue = \<lparr>ops = [], tat = [], tpos = 0\<rparr>, c_truncate = False, c_events = 0\<rparr>"

definition collapser_at :: "u64 \<Rightarrow> collapser \<Rightarrow> collapser" where
  "collapser_at p c = c\<lparr>c_residue := (c_residue c)\<lparr>tpos := p\<rparr>\<rparr>"

text \<open>One key column of a row image.\<close>

definition key_cell :: "tuple \<Rightarrow> nat \<Rightarrow> bytes result" where
  "key_cell row i =
     and_then (tuple_get row i) (\<lambda>c. case c of
        Some (Text t) \<Rightarrow> Inr t
      | Some Null \<Rightarrow> Inl (Transfer Null_key_column)
      | None \<Rightarrow> Inl (Transfer Null_key_column)
      | Some UnchangedToast \<Rightarrow> Inl (Transfer Toast_key_column))"

text \<open>The single-integer fast path, tried before the owned form.\<close>

definition fast_key :: "nat list \<Rightarrow> tuple \<Rightarrow> int option result" where
  "fast_key idx row =
     (case idx of
        [i] \<Rightarrow> and_then (tuple_get row i) (\<lambda>c. case c of
                  Some (Text t) \<Rightarrow> Inr (parse_i64_key t) | _ \<Rightarrow> Inr None)
      | _ \<Rightarrow> Inr None)"

definition key_of_row :: "nat list \<Rightarrow> tuple \<Rightarrow> ckey result" where
  "key_of_row idx row =
     and_then (fast_key idx row) (\<lambda>f. case f of
        Some v \<Rightarrow> Inr (I64 v)
      | None \<Rightarrow> and_then (collect_results (key_cell row) idx) (\<lambda>k. Inr (V k)))"

section \<open>Operations\<close>

definition count_event :: "collapser \<Rightarrow> collapser" where
  "count_event c = c\<lparr>c_events := c_events c + 1\<rparr>"

definition set_slot :: "ckey \<Rightarrow> slot \<Rightarrow> collapser \<Rightarrow> collapser" where
  "set_slot k s c = c\<lparr>c_map := AList.update k s (c_map c)\<rparr>"

definition push_upsert :: "ckey \<Rightarrow> bool \<Rightarrow> tuple \<Rightarrow> collapser \<Rightarrow> collapser" where
  "push_upsert k del row c =
     set_slot k (SUpsert (length (c_upserts c)) del) (c\<lparr>c_upserts := c_upserts c @ [Some row]\<rparr>)"

definition write_upsert :: "nat \<Rightarrow> tuple option \<Rightarrow> collapser \<Rightarrow> collapser result" where
  "write_upsert seq v c =
     and_then (write_list (c_upserts c) seq v) (\<lambda>u. Inr (c\<lparr>c_upserts := u\<rparr>))"

definition push_residue :: "residue_op \<Rightarrow> collapser \<Rightarrow> collapser" where
  "push_residue op c = c\<lparr>c_residue := tail_push (c_residue c) op\<rparr>"

definition collapser_insert :: "tuple \<Rightarrow> collapser \<Rightarrow> collapser result" where
  "collapser_insert row c0 =
     (let c = count_event c0 in
      and_then (key_of_row (l_key_idx (c_layout c)) row) (\<lambda>k.
        case map_of (c_map c) k of
          Some (SResidue _) \<Rightarrow> and_then (to_cells row) (\<lambda>cs. Inr (push_residue (RUpsert cs) c))
        | Some (SUpsert seq _) \<Rightarrow> write_upsert seq (Some row) c
        | Some SDelete \<Rightarrow> Inr (push_upsert k True row c)
        | None \<Rightarrow> Inr (push_upsert k False row c)))"

definition put_delete :: "ckey \<Rightarrow> collapser \<Rightarrow> collapser result" where
  "put_delete k c =
     (case map_of (c_map c) k of
        Some (SResidue _) \<Rightarrow> Inr (push_residue (RDelete (materialize k)) c)
      | Some (SUpsert seq _) \<Rightarrow> and_then (write_upsert seq None c) (\<lambda>c. Inr (set_slot k SDelete c))
      | Some SDelete \<Rightarrow> Inr c
      | None \<Rightarrow> Inr (set_slot k SDelete c))"

text \<open>
  Whether the row the window last wrote at the old key is another row than the one a
  FULL old image names (a deferrable key's transient duplicate).
\<close>

definition other_row :: "bool \<Rightarrow> tuple \<Rightarrow> ckey \<Rightarrow> collapser \<Rightarrow> bool result" where
  "other_row old_full old k c =
     (if \<not> old_full then Inr False
      else case map_of (c_map c) k of
        Some (SUpsert seq _) \<Rightarrow>
          and_then (index_list (c_upserts c) seq) (\<lambda>up. case up of
             None \<Rightarrow> Inr False
           | Some up \<Rightarrow> and_then (tuple_views up) (\<lambda>a. and_then (tuple_views old) (\<lambda>b. Inr (a \<noteq> b))))
      | _ \<Rightarrow> Inr False)"

text \<open>The key-changing half of an update whose new image is whole: the old row goes.\<close>

definition leave_old_key :: "bool \<Rightarrow> tuple \<Rightarrow> ckey \<Rightarrow> collapser \<Rightarrow> collapser result" where
  "leave_old_key old_full old k c =
     and_then (other_row old_full old k c) (\<lambda>other.
       if other then
         (case map_of (c_map c) k of
            Some (SUpsert seq _) \<Rightarrow> Inr (set_slot k (SUpsert seq True) c)
          | _ \<Rightarrow> Inr c)
       else put_delete k c)"

text \<open>The key-changing update whose new image is masked: the row moves, in the tail.\<close>

definition move_row :: "ckey \<Rightarrow> ckey \<Rightarrow> tuple \<Rightarrow> collapser \<Rightarrow> collapser result" where
  "move_row old_key new_key row c =
     and_then (to_cells row) (\<lambda>cs.
       let c = push_residue (Rekey (materialize old_key) (materialize new_key) cs) c;
           d_old = (case map_of (c_map c) old_key of Some s \<Rightarrow> slot_del s | None \<Rightarrow> False);
           d_new = (case map_of (c_map c) new_key of Some s \<Rightarrow> slot_del s | None \<Rightarrow> False)
       in Inr (set_slot new_key (SResidue d_new) (set_slot old_key (SResidue d_old) c)))"

text \<open>Landing the new image at its key.\<close>

definition land_image :: "ckey \<Rightarrow> bool \<Rightarrow> tuple \<Rightarrow> collapser \<Rightarrow> collapser result" where
  "land_image k toast row c =
     (case map_of (c_map c) k of
        Some (SResidue _) \<Rightarrow>
          and_then (to_cells row) (\<lambda>cs.
            Inr (push_residue (if toast then MaskedUpdate (materialize k) cs else RUpsert cs) c))
      | Some s \<Rightarrow>
          (if toast then
             and_then (to_cells row) (\<lambda>cs.
               Inr (set_slot k (SResidue (slot_del s)) (push_residue (MaskedUpdate (materialize k) cs) c)))
           else (case s of
               SUpsert seq _ \<Rightarrow> write_upsert seq (Some row) c
             | _ \<Rightarrow> Inr (push_upsert k True row c)))
      | None \<Rightarrow>
          (if toast then
             and_then (to_cells row) (\<lambda>cs.
               Inr (set_slot k (SResidue False) (push_residue (MaskedUpdate (materialize k) cs) c)))
           else Inr (push_upsert k False row c)))"

definition update_image :: "tuple option \<Rightarrow> bool \<Rightarrow> tuple \<Rightarrow> collapser \<Rightarrow> collapser result" where
  "update_image old old_full row0 c0 =
     (let c = count_event c0; idx = l_key_idx (c_layout c) in
      and_then (case old of Some o' \<Rightarrow> key_from_old idx o' row0 | None \<Rightarrow> Inr row0) (\<lambda>row.
      and_then (key_of_row idx row) (\<lambda>new_key.
        let toast = has_toast row in
        case old of
          None \<Rightarrow> land_image new_key toast row c
        | Some o' \<Rightarrow>
            and_then (key_of_row idx o') (\<lambda>old_key.
              if old_key = new_key then land_image new_key toast row c
              else if toast then move_row old_key new_key row c
              else and_then (leave_old_key old_full o' old_key c) (land_image new_key toast row)))))"

definition collapser_delete :: "tuple \<Rightarrow> collapser \<Rightarrow> collapser result" where
  "collapser_delete old c0 =
     (let c = count_event c0 in and_then (key_of_row (l_key_idx (c_layout c)) old) (\<lambda>k. put_delete k c))"

definition collapser_truncate :: "collapser \<Rightarrow> collapser" where
  "collapser_truncate c0 =
     (let c = count_event c0
      in c\<lparr>c_map := [], c_upserts := [], c_residue := tail_clear (c_residue c), c_truncate := True\<rparr>)"

definition collapser_finish :: "collapser \<Rightarrow> collapsed" where
  "collapser_finish c =
     \<lparr>deletes = map (\<lambda>(k, _). materialize k) (filter (\<lambda>(_, s). slot_del s) (c_map c)),
      upserts = map the (filter (\<lambda>u. u \<noteq> None) (c_upserts c)),
      residue = ops (c_residue c), residue_at = tat (c_residue c),
      truncated = c_truncate c, events = c_events c\<rparr>"

text \<open>
  For each residue op, whether a later op of the window takes the row away from the key
  it has to find: the loop of \<^verbatim>\<open>deleted_later\<close>, from the last op back.
\<close>

fun deleted_later_from :: "residue_op list \<Rightarrow> bool list \<times> key set" where
  "deleted_later_from [] = ([], {})"
| "deleted_later_from (op # rest) =
     (case deleted_later_from rest of (out, gone) \<Rightarrow>
        (case op of
           MaskedUpdate k _ \<Rightarrow> ((k \<in> gone) # out, gone)
         | Rekey old_key new_key _ \<Rightarrow> ((new_key \<in> gone) # out, insert old_key gone)
         | RDelete k \<Rightarrow> (False # out, insert k gone)
         | RUpsert _ \<Rightarrow> (False # out, gone)))"

definition deleted_later :: "residue_op list \<Rightarrow> bool list" where
  "deleted_later rs = fst (deleted_later_from rs)"

text \<open>One buffered row operation of a transaction (\<^verbatim>\<open>StreamOp\<close>), and landing it.\<close>

datatype stream_op =
    Op_Insert tuple
  | Op_Update "tuple option" tuple bool
  | Op_Delete tuple
  | Op_Truncate

fun collapse_op :: "collapser \<Rightarrow> stream_op \<Rightarrow> collapser result" where
  "collapse_op c (Op_Insert row) = collapser_insert row c"
| "collapse_op c (Op_Update old row fl) = update_image old fl row c"
| "collapse_op c (Op_Delete old) = collapser_delete old c"
| "collapse_op c Op_Truncate = Inr (collapser_truncate c)"

section \<open>Keys of well-formed rows\<close>

text \<open>The owned key a row's cells spell, and when every key column carries text.\<close>

fun text_of :: "cell \<Rightarrow> bytes" where
  "text_of (Text t) = t"
| "text_of _ = []"

definition row_key :: "nat list \<Rightarrow> cell list \<Rightarrow> key" where
  "row_key idx cs = map (\<lambda>i. text_of (cs ! i)) idx"

definition keyed :: "nat list \<Rightarrow> cell list \<Rightarrow> bool" where
  "keyed idx cs = list_all (\<lambda>i. i < length cs \<and> cs ! i = Text (text_of (cs ! i))) idx"

text \<open>The map key of an owned key.\<close>

definition to_ckey :: "key \<Rightarrow> ckey" where
  "to_ckey k = (case k of [t] \<Rightarrow> (case parse_i64_key t of Some v \<Rightarrow> I64 v | None \<Rightarrow> V k) | _ \<Rightarrow> V k)"

lemma parse_i64_key_Some: "parse_i64_key t = Some v \<Longrightarrow> show_int v = t"
  by (auto simp: parse_i64_key_def split: if_splits option.splits)

lemma materialize_to_ckey [simp]: "materialize (to_ckey k) = k"
  by (auto simp: to_ckey_def parse_i64_key_Some split: list.splits option.splits)

lemma to_ckey_inject [simp]: "to_ckey k = to_ckey k' \<longleftrightarrow> k = k'"
  by (metis materialize_to_ckey)

lemma length_row_key [simp]: "length (row_key idx cs) = length idx"
  by (simp add: row_key_def)

lemma key_cells_wf:
  assumes "tuple_wf row" "keyed idx (cells_of row)"
  shows "collect_results (key_cell row) idx = Inr (row_key idx (cells_of row))"
  unfolding row_key_def
proof (rule collect_results_map)
  fix i
  assume "i \<in> set idx"
  with assms(2) obtain t where "i < length (cells row)" "cells_of row ! i = Text t"
    by (auto simp: keyed_def list_all_iff)
  with assms(1) show "key_cell row i = Inr (text_of (cells_of row ! i))"
    by (simp add: key_cell_def tuple_simps)
qed

lemma key_of_row_wf:
  assumes "tuple_wf row" "keyed idx (cells_of row)"
  shows "key_of_row idx row = Inr (to_ckey (row_key idx (cells_of row)))"
proof (cases "\<exists>i. idx = [i]")
  case True
  then obtain i where i: "idx = [i]" by blast
  with assms(2) obtain t where "i < length (cells row)" "cells_of row ! i = Text t"
    by (auto simp: keyed_def)
  with i assms key_cells_wf [OF assms] show ?thesis
    by (auto simp: key_of_row_def fast_key_def tuple_simps to_ckey_def row_key_def split: option.splits)
next
  case False
  then have "fast_key idx row = Inr None"
    by (auto simp: fast_key_def split: list.splits)
  moreover have "to_ckey (row_key idx (cells_of row)) = V (row_key idx (cells_of row))"
    using False by (auto simp: to_ckey_def row_key_def split: list.splits)
  ultimately show ?thesis
    by (simp add: key_of_row_def key_cells_wf [OF assms])
qed

text \<open>Filling a new image's unsent key cells from the old image, over owned cells.\<close>

fun key_fill :: "nat list \<Rightarrow> cell list \<Rightarrow> cell list \<Rightarrow> cell list" where
  "key_fill [] old cs = cs"
| "key_fill (i # is) old cs =
     key_fill is old
       (if i < length cs \<and> cs ! i = UnchangedToast \<and> i < length old \<and> (\<exists>t. old ! i = Text t)
        then cs[i := old ! i] else cs)"

lemma length_key_fill [simp]: "length (key_fill idx old cs) = length cs"
  by (induction idx old cs rule: key_fill.induct) auto

lemma key_fill_id:
  "\<forall>i \<in> set idx. \<not> (i < length cs \<and> cs ! i = UnchangedToast) \<Longrightarrow> key_fill idx old cs = cs"
  by (induction idx) auto

lemma any_toast_at_wf:
  "tuple_wf row \<Longrightarrow> any_toast_at idx row =
     Inr (\<exists>i \<in> set idx. i < length (cells row) \<and> cells_of row ! i = UnchangedToast)"
  by (induction idx) (auto simp: tuple_simps)

lemma fill_key_cells_wf:
  "tuple_wf old \<Longrightarrow> fill_key_cells idx old cs = Inr (key_fill idx (cells_of old) cs)"
proof (induction idx arbitrary: cs)
  case (Cons i "is")
  then show ?case
    by (cases "cells_of old ! i") (auto simp: tuple_simps)
qed simp

lemma key_from_old_wf:
  assumes "tuple_wf old" "tuple_wf row" "text_bytes (key_fill idx (cells_of old) (cells_of row)) < 2 ^ 32"
  obtains row' where "key_from_old idx old row = Inr row'" "tuple_wf row'"
    "cells_of row' = key_fill idx (cells_of old) (cells_of row)"
proof (cases "\<exists>i \<in> set idx. i < length (cells row) \<and> cells_of row ! i = UnchangedToast")
  case True
  let ?cs = "key_fill idx (cells_of old) (cells_of row)"
  have "key_from_old idx old row = Inr (from_cells ?cs)"
    using True assms by (simp add: key_from_old_def any_toast_at_wf to_cells_wf fill_key_cells_wf)
  moreover have "tuple_wf (from_cells ?cs)" "cells_of (from_cells ?cs) = ?cs"
    using assms(3) by (simp_all add: from_cells_wf cells_of_from_cells)
  ultimately show ?thesis by (rule that)
next
  case False
  then have "key_from_old idx old row = Inr row"
    using assms(2) by (simp add: key_from_old_def any_toast_at_wf)
  moreover have "cells_of row = key_fill idx (cells_of old) (cells_of row)"
    using False by (intro key_fill_id [symmetric]) auto
  ultimately show ?thesis using assms(2) by (intro that) auto
qed

end
