(* ===== verification/Replica.thy ===== *)
theory Replica
  imports Collapse
begin

text \<open>
  What a window means for a replica. A destination table is a map from keys to rows.
  \<open>apply_event\<close> replays one change as the source made it; \<open>apply_collapsed\<close> is the order
  in which every destination applies a collapsed window (truncate, deletes, upserts,
  residue). The collapser's invariant and the refinement between the two follow.
\<close>

section \<open>Tables, events and collapsed windows\<close>

type_synonym row = "cell list"
type_synonym table = "key \<rightharpoonup> row"

text \<open>A masked image over the row it updates: only the cells the source sent change.\<close>

fun fill :: "row \<Rightarrow> row \<Rightarrow> row" where
  "fill (c # cs) (b # bs) = (if c = UnchangedToast then b else c) # fill cs bs"
| "fill cs bs = cs"

definition masked_at :: "key \<Rightarrow> row \<Rightarrow> table \<Rightarrow> table" where
  "masked_at k row d = (case d k of None \<Rightarrow> d | Some b \<Rightarrow> d(k \<mapsto> fill row b))"

definition moved :: "key \<Rightarrow> key \<Rightarrow> row \<Rightarrow> table \<Rightarrow> table" where
  "moved old_key new_key row d =
     (case d old_key of None \<Rightarrow> d | Some b \<Rightarrow> (d(old_key := None))(new_key \<mapsto> fill row b))"

fun apply_residue :: "nat list \<Rightarrow> residue_op \<Rightarrow> table \<Rightarrow> table" where
  "apply_residue idx (MaskedUpdate k row) d = masked_at k row d"
| "apply_residue idx (RUpsert row) d = d(row_key idx row \<mapsto> row)"
| "apply_residue idx (RDelete k) d = d(k := None)"
| "apply_residue idx (Rekey old_key new_key row) d = moved old_key new_key row d"

definition delete_keys :: "key list \<Rightarrow> table \<Rightarrow> table" where
  "delete_keys ks d = (\<lambda>k. if k \<in> set ks then None else d k)"

definition upsert_rows :: "nat list \<Rightarrow> row list \<Rightarrow> table \<Rightarrow> table" where
  "upsert_rows idx rs d = fold (\<lambda>r d. d(row_key idx r \<mapsto> r)) rs d"

definition apply_collapsed :: "nat list \<Rightarrow> collapsed \<Rightarrow> table \<Rightarrow> table" where
  "apply_collapsed idx c d =
     fold (apply_residue idx) (residue c)
       (upsert_rows idx (map cells_of (upserts c))
         (delete_keys (deletes c) (if truncated c then Map.empty else d)))"

text \<open>One change of the source, over the rows its images spell.\<close>

fun apply_event :: "nat list \<Rightarrow> stream_op \<Rightarrow> table \<Rightarrow> table" where
  "apply_event idx (Op_Insert row) d = d(row_key idx (cells_of row) \<mapsto> cells_of row)"
| "apply_event idx (Op_Delete old) d = d(row_key idx (cells_of old) := None)"
| "apply_event idx Op_Truncate d = Map.empty"
| "apply_event idx (Op_Update old row _) d =
     (let new = (case old of Some o' \<Rightarrow> key_fill idx (cells_of o') (cells_of row) | None \<Rightarrow> cells_of row);
          nk = row_key idx new;
          ok = (case old of Some o' \<Rightarrow> row_key idx (cells_of o') | None \<Rightarrow> nk)
      in if UnchangedToast \<in> set new then (if ok = nk then masked_at nk new d else moved ok nk new d)
         else (d(ok := None))(nk \<mapsto> new))"

text \<open>
  The images are readable and name their row: every tuple is well-formed, every key
  column carries text, and an image rebuilt with its old key still fits 32-bit ranges.
\<close>

fun op_ok :: "nat list \<Rightarrow> stream_op \<Rightarrow> bool" where
  "op_ok idx (Op_Insert row) = (tuple_wf row \<and> keyed idx (cells_of row))"
| "op_ok idx (Op_Delete old) = (tuple_wf old \<and> keyed idx (cells_of old))"
| "op_ok idx Op_Truncate = True"
| "op_ok idx (Op_Update None row _) = (tuple_wf row \<and> keyed idx (cells_of row))"
| "op_ok idx (Op_Update (Some old) row _) =
     (tuple_wf row \<and> tuple_wf old \<and> keyed idx (cells_of old)
      \<and> keyed idx (key_fill idx (cells_of old) (cells_of row))
      \<and> text_bytes (key_fill idx (cells_of old) (cells_of row)) < 2 ^ 32)"

text \<open>
  Per-row uniqueness: a FULL old image of a row that changes its key is the row the
  replica holds there. A source whose key is not deferrable always satisfies it.
\<close>

fun names_row :: "nat list \<Rightarrow> table \<Rightarrow> stream_op \<Rightarrow> bool" where
  "names_row idx d (Op_Update (Some old) row True) =
     (row_key idx (cells_of old) = row_key idx (key_fill idx (cells_of old) (cells_of row))
      \<or> d (row_key idx (cells_of old)) \<in> {None, Some (cells_of old)})"
| "names_row idx d _ = True"

lemma length_fill [simp]: "length (fill cs bs) = length cs"
  by (induction cs bs rule: fill.induct) simp_all

section \<open>The collapser's invariant\<close>

abbreviation slot_at :: "collapser \<Rightarrow> key \<Rightarrow> slot option" where
  "slot_at c b \<equiv> map_of (c_map c) (to_ckey b)"

fun touched :: "nat list \<Rightarrow> residue_op \<Rightarrow> key set" where
  "touched idx (MaskedUpdate k _) = {k}"
| "touched idx (RUpsert row) = {row_key idx row}"
| "touched idx (RDelete k) = {k}"
| "touched idx (Rekey old_key new_key _) = {old_key, new_key}"

text \<open>Position \<open>i\<close> of the image list holds the row \<open>r\<close> of key \<open>b\<close>.\<close>

definition live_at :: "nat list \<Rightarrow> collapser \<Rightarrow> nat \<Rightarrow> key \<Rightarrow> row \<Rightarrow> bool" where
  "live_at idx c i b r \<longleftrightarrow> i < length (c_upserts c) \<and>
     (\<exists>u. c_upserts c ! i = Some u \<and> row_key idx (cells_of u) = b \<and> cells_of u = r)"

definition slots_ok :: "nat list \<Rightarrow> collapser \<Rightarrow> bool" where
  "slots_ok idx c \<longleftrightarrow>
     (\<forall>b seq del. slot_at c b = Some (SUpsert seq del) \<longrightarrow> (\<exists>r. live_at idx c seq b r)) \<and>
     (\<forall>i b r. live_at idx c i b r \<longrightarrow>
        (\<exists>del. slot_at c b = Some (SUpsert i del) \<or> slot_at c b = Some (SResidue del))) \<and>
     (\<forall>i j b r r'. live_at idx c i b r \<longrightarrow> live_at idx c j b r' \<longrightarrow> i = j)"

definition collapser_inv :: "nat list \<Rightarrow> collapser \<Rightarrow> bool" where
  "collapser_inv idx c \<longleftrightarrow>
     l_key_idx (c_layout c) = idx \<and>
     distinct (map fst (c_map c)) \<and> fst ` set (c_map c) \<subseteq> range to_ckey \<and>
     (\<forall>u. Some u \<in> set (c_upserts c) \<longrightarrow> tuple_wf u \<and> keyed idx (cells_of u)) \<and>
     slots_ok idx c \<and>
     (\<forall>op \<in> set (ops (c_residue c)). \<forall>b \<in> touched idx op. \<exists>del. slot_at c b = Some (SResidue del)) \<and>
     length (tat (c_residue c)) = length (ops (c_residue c))"

lemma collapser_inv_new: "collapser_inv (l_key_idx l) (collapser_new l)"
  by (simp add: collapser_inv_def collapser_new_def slots_ok_def live_at_def)

section \<open>The set phase as a function of the key\<close>

definition pending_del :: "collapser \<Rightarrow> key \<Rightarrow> bool" where
  "pending_del c b = (case slot_at c b of Some s \<Rightarrow> slot_del s | None \<Rightarrow> False)"

definition live_row :: "nat list \<Rightarrow> collapser \<Rightarrow> key \<Rightarrow> row option" where
  "live_row idx c = map_of (map (\<lambda>u. (row_key idx (cells_of u), cells_of u)) (upserts (collapser_finish c)))"

definition set_phase :: "nat list \<Rightarrow> collapser \<Rightarrow> table \<Rightarrow> table" where
  "set_phase idx c d =
     (\<lambda>b. case live_row idx c b of
            Some r \<Rightarrow> Some r
          | None \<Rightarrow> if pending_del c b \<or> c_truncate c then None else d b)"

lemma set_finish_upserts: "set (upserts (collapser_finish c)) = {u. Some u \<in> set (c_upserts c)}"
  by (force simp: collapser_finish_def)

lemma filter_some_distinct:
  assumes "\<And>i j u v. i < length us \<Longrightarrow> j < length us \<Longrightarrow> us ! i = Some u \<Longrightarrow> us ! j = Some v \<Longrightarrow>
             f u = f v \<Longrightarrow> i = j"
  shows "distinct (map f (map the (filter (\<lambda>u. u \<noteq> None) us)))"
  using assms
proof (induction us)
  case (Cons a us)
  have "i = j" if "i < length us" "j < length us" "us ! i = Some u" "us ! j = Some v" "f u = f v" for i j u v
    using Cons.prems [of "Suc i" "Suc j" u v] that by simp
  then have tail: "distinct (map f (map the (filter (\<lambda>u. u \<noteq> None) us)))"
    by (rule Cons.IH)
  show ?case
  proof (cases a)
    case (Some u)
    have "f u \<noteq> f v" if "Some v \<in> set us" for v
    proof
      assume "f u = f v"
      from that obtain j where "j < length us" "us ! j = Some v"
        by (auto simp: in_set_conv_nth)
      with Cons.prems [of 0 "Suc j" u v] Some \<open>f u = f v\<close> show False by simp
    qed
    with Some tail show ?thesis by force
  qed (use tail in simp)
qed simp

lemma upsert_keys_distinct:
  assumes "collapser_inv idx c"
  shows "distinct (map (\<lambda>u. row_key idx (cells_of u)) (upserts (collapser_finish c)))"
  using assms unfolding collapser_finish_def collapser_inv_def slots_ok_def live_at_def
  by (simp only: collapsed.simps) (rule filter_some_distinct, blast)

lemma live_row_Some:
  assumes "collapser_inv idx c"
  shows "live_row idx c b = Some r \<longleftrightarrow> (\<exists>i. live_at idx c i b r)"
proof -
  have "live_row idx c b = Some r \<longleftrightarrow>
      (b, r) \<in> set (map (\<lambda>u. (row_key idx (cells_of u), cells_of u)) (upserts (collapser_finish c)))"
    unfolding live_row_def using upsert_keys_distinct [OF assms]
    by (intro map_of_eq_Some_iff) (simp add: comp_def)
  also have "\<dots> \<longleftrightarrow> (\<exists>i. live_at idx c i b r)"
    by (auto simp: set_finish_upserts live_at_def in_set_conv_nth image_iff)
  finally show ?thesis .
qed

lemma upsert_rows_map:
  "distinct (map (row_key idx) rs) \<Longrightarrow>
   upsert_rows idx rs d = d ++ map_of (map (\<lambda>r. (row_key idx r, r)) rs)"
proof (induction rs arbitrary: d)
  case (Cons r rs)
  then have "map_of (map (\<lambda>r. (row_key idx r, r)) rs) (row_key idx r) = None"
    by (auto simp: map_of_eq_None_iff)
  with Cons show ?case
    by (auto simp: upsert_rows_def fun_eq_iff map_add_def split: option.splits)
qed (simp add: upsert_rows_def)

lemma finish_deletes:
  assumes "collapser_inv idx c"
  shows "b \<in> set (deletes (collapser_finish c)) \<longleftrightarrow> pending_del c b"
proof -
  have dom: "distinct (map fst (c_map c))" and canon: "fst ` set (c_map c) \<subseteq> range to_ckey"
    using assms by (auto simp: collapser_inv_def)
  have "b \<in> set (deletes (collapser_finish c)) \<longleftrightarrow>
      (\<exists>k s. (k, s) \<in> set (c_map c) \<and> slot_del s \<and> materialize k = b)"
    by (force simp: collapser_finish_def)
  also have "\<dots> \<longleftrightarrow> (\<exists>s. (to_ckey b, s) \<in> set (c_map c) \<and> slot_del s)"
    using canon by (force simp: image_subset_iff)
  also have "\<dots> \<longleftrightarrow> pending_del c b"
    using dom by (auto simp: pending_del_def map_of_eq_Some_iff dest: eq_key_imp_eq_value split: option.splits)
  finally show ?thesis .
qed

lemma apply_finish:
  assumes "collapser_inv idx c"
  shows "apply_collapsed idx (collapser_finish c) d = fold (apply_residue idx) (ops (c_residue c)) (set_phase idx c d)"
proof -
  have "upsert_rows idx (map cells_of (upserts (collapser_finish c)))
          (delete_keys (deletes (collapser_finish c)) (if c_truncate c then Map.empty else d))
        = set_phase idx c d"
    using upsert_keys_distinct [OF assms]
    by (subst upsert_rows_map)
      (auto simp: comp_def set_phase_def delete_keys_def live_row_def finish_deletes [OF assms]
        map_add_def fun_eq_iff split: option.splits)
  then show ?thesis
    by (simp add: apply_collapsed_def collapser_finish_def)
qed

section \<open>What a change of one key does to the set phase\<close>

lemma set_phase_live:
  "\<lbrakk>collapser_inv idx c; live_at idx c i b r\<rbrakk> \<Longrightarrow> set_phase idx c d b = Some r"
  using live_row_Some [of idx c b r] by (auto simp: set_phase_def)

lemma set_phase_gone:
  "\<lbrakk>collapser_inv idx c; \<forall>i r. \<not> live_at idx c i b r; pending_del c b\<rbrakk> \<Longrightarrow> set_phase idx c d b = None"
  using live_row_Some by (fastforce simp: set_phase_def split: option.split)

lemma set_phase_update:
  assumes "collapser_inv idx c" "collapser_inv idx c'" "c_truncate c' = c_truncate c"
    "\<And>b'. b' \<noteq> b \<Longrightarrow> pending_del c' b' = pending_del c b'"
    "\<And>i b' r. b' \<noteq> b \<Longrightarrow> live_at idx c' i b' r = live_at idx c i b' r"
  shows "set_phase idx c' d = (set_phase idx c d)(b := set_phase idx c' d b)"
proof
  fix b'
  show "set_phase idx c' d b' = ((set_phase idx c d)(b := set_phase idx c' d b)) b'"
  proof (cases "b' = b")
    case False
    have "live_row idx c' b' = live_row idx c b'"
      using live_row_Some [OF assms(1), of b'] live_row_Some [OF assms(2), of b'] assms(5) [OF False]
      by (cases "live_row idx c' b'"; cases "live_row idx c b'") auto
    with False assms(3,4) show ?thesis by (simp add: set_phase_def)
  qed simp
qed

lemma residue_commutes:
  "b \<notin> touched idx op \<Longrightarrow> apply_residue idx op (d(b := v)) = (apply_residue idx op d)(b := v)"
  by (cases op) (auto simp: masked_at_def moved_def fun_upd_twist split: option.splits)

lemma fold_residue_commutes:
  "\<forall>op \<in> set rs. b \<notin> touched idx op \<Longrightarrow>
   fold (apply_residue idx) rs (d(b := v)) = (fold (apply_residue idx) rs d)(b := v)"
  by (induction rs arbitrary: d) (simp_all add: residue_commutes)

abbreviation meaning :: "nat list \<Rightarrow> table \<Rightarrow> collapser \<Rightarrow> table" where
  "meaning idx d c \<equiv> apply_collapsed idx (collapser_finish c) d"

lemma untouched:
  "\<lbrakk>collapser_inv idx c; \<nexists>del. slot_at c b = Some (SResidue del); op \<in> set (ops (c_residue c))\<rbrakk> \<Longrightarrow>
   b \<notin> touched idx op"
  unfolding collapser_inv_def by blast

text \<open>A key no residue op holds: what changes in its set phase changes in the result.\<close>

lemma meaning_update:
  assumes "collapser_inv idx c" "collapser_inv idx c'" "ops (c_residue c') = ops (c_residue c)"
    "\<nexists>del. slot_at c b = Some (SResidue del)"
    "set_phase idx c' d = (set_phase idx c d)(b := v)"
  shows "meaning idx d c' = (meaning idx d c)(b := v)"
proof -
  have "\<forall>op \<in> set (ops (c_residue c)). b \<notin> touched idx op"
    using untouched [OF assms(1,4)] by blast
  then show ?thesis
    using assms by (simp add: apply_finish fold_residue_commutes)
qed

lemma untouched_value:
  assumes "collapser_inv idx c" "\<nexists>del. slot_at c b = Some (SResidue del)"
  shows "meaning idx d c b = set_phase idx c d b"
proof -
  have "meaning idx d c = (meaning idx d c)(b := set_phase idx c d b)"
    using assms by (intro meaning_update) simp_all
  then show ?thesis by (metis fun_upd_same)
qed

section \<open>The primitive steps\<close>

declare map_of_eq_Some_iff [simp del]

lemma slot_at_set [simp]: "map_of (c_map (set_slot k s c)) = (map_of (c_map c))(k \<mapsto> s)"
  by (simp add: set_slot_def update_conv')

lemma set_slot_fields [simp]:
  "c_layout (set_slot k s c) = c_layout c" "c_upserts (set_slot k s c) = c_upserts c"
  "c_residue (set_slot k s c) = c_residue c" "c_truncate (set_slot k s c) = c_truncate c"
  by (simp_all add: set_slot_def)

lemma count_event_fields [simp]:
  "c_layout (count_event c) = c_layout c" "c_upserts (count_event c) = c_upserts c"
  "c_residue (count_event c) = c_residue c" "c_truncate (count_event c) = c_truncate c"
  "c_map (count_event c) = c_map c"
  by (simp_all add: count_event_def)

lemma map_set_slot [simp]:
  "distinct (map fst (c_map c)) \<Longrightarrow> distinct (map fst (c_map (set_slot k s c)))"
  "fst ` set (c_map (set_slot k s c)) = insert k (fst ` set (c_map c))"
  by (simp_all add: set_slot_def distinct_update dom_update)

lemma push_fields [simp]:
  "c_layout (push_upsert k del row c) = c_layout c" "c_residue (push_upsert k del row c) = c_residue c"
  "c_truncate (push_upsert k del row c) = c_truncate c"
  "map_of (c_map (push_upsert k del row c)) = (map_of (c_map c))(k \<mapsto> SUpsert (length (c_upserts c)) del)"
  "c_upserts (push_upsert k del row c) = c_upserts c @ [Some row]"
  "distinct (map fst (c_map c)) \<Longrightarrow> distinct (map fst (c_map (push_upsert k del row c)))"
  "fst ` set (c_map (push_upsert k del row c)) = insert k (fst ` set (c_map c))"
  by (simp_all add: push_upsert_def map_set_slot)

lemma residue_fields [simp]:
  "c_layout (push_residue op c) = c_layout c" "c_upserts (push_residue op c) = c_upserts c"
  "c_truncate (push_residue op c) = c_truncate c" "c_map (push_residue op c) = c_map c"
  "ops (c_residue (push_residue op c)) = ops (c_residue c) @ [op]"
  "tat (c_residue (push_residue op c)) = tat (c_residue c) @ [tpos (c_residue c)]"
  by (simp_all add: push_residue_def tail_push_def)

lemma live_at_set_slot [simp]: "live_at idx (set_slot k s c) = live_at idx c"
  by (simp add: live_at_def fun_eq_iff)

lemma live_at_count [simp]: "live_at idx (count_event c) = live_at idx c"
  by (simp add: live_at_def fun_eq_iff)

lemma inv_count [simp]: "collapser_inv idx (count_event c) = collapser_inv idx c"
  by (simp add: collapser_inv_def slots_ok_def)

lemma meaning_count [simp]: "meaning idx d (count_event c) = meaning idx d c"
  by (simp add: apply_collapsed_def collapser_finish_def)

lemma pending_del_set: "b' \<noteq> b \<Longrightarrow> pending_del (set_slot (to_ckey b) s c) b' = pending_del c b'"
  by (simp add: pending_del_def)

text \<open>The parts of the invariant that do not mention the slot map.\<close>

lemma inv_parts:
  assumes "collapser_inv idx c"
  shows "l_key_idx (c_layout c) = idx" "distinct (map fst (c_map c))" "fst ` set (c_map c) \<subseteq> range to_ckey"
    "\<And>u. Some u \<in> set (c_upserts c) \<Longrightarrow> tuple_wf u" "\<And>u. Some u \<in> set (c_upserts c) \<Longrightarrow> keyed idx (cells_of u)"
    "\<And>b seq del. slot_at c b = Some (SUpsert seq del) \<Longrightarrow> \<exists>r. live_at idx c seq b r"
    "\<And>i b r. live_at idx c i b r \<Longrightarrow> \<exists>del. slot_at c b = Some (SUpsert i del) \<or> slot_at c b = Some (SResidue del)"
    "\<And>i j b r r'. live_at idx c i b r \<Longrightarrow> live_at idx c j b r' \<Longrightarrow> i = j"
    "\<And>op b. op \<in> set (ops (c_residue c)) \<Longrightarrow> b \<in> touched idx op \<Longrightarrow> \<exists>del. slot_at c b = Some (SResidue del)"
    "length (tat (c_residue c)) = length (ops (c_residue c))"
  using assms unfolding collapser_inv_def slots_ok_def by blast+

lemma collapser_invI:
  assumes "l_key_idx (c_layout c) = idx" "distinct (map fst (c_map c))" "fst ` set (c_map c) \<subseteq> range to_ckey"
    "\<And>u. Some u \<in> set (c_upserts c) \<Longrightarrow> tuple_wf u \<and> keyed idx (cells_of u)"
    "\<And>b seq del. slot_at c b = Some (SUpsert seq del) \<Longrightarrow> \<exists>r. live_at idx c seq b r"
    "\<And>i b r. live_at idx c i b r \<Longrightarrow> \<exists>del. slot_at c b = Some (SUpsert i del) \<or> slot_at c b = Some (SResidue del)"
    "\<And>i j b r r'. live_at idx c i b r \<Longrightarrow> live_at idx c j b r' \<Longrightarrow> i = j"
    "\<And>op b. op \<in> set (ops (c_residue c)) \<Longrightarrow> b \<in> touched idx op \<Longrightarrow> \<exists>del. slot_at c b = Some (SResidue del)"
    "length (tat (c_residue c)) = length (ops (c_residue c))"
  shows "collapser_inv idx c"
  using assms unfolding collapser_inv_def slots_ok_def by blast

text \<open>Marking a key as held by the tail changes nothing else.\<close>

lemma set_residue_slot:
  assumes "collapser_inv idx c"
  shows "collapser_inv idx (set_slot (to_ckey b) (SResidue (pending_del c b)) c)" (is "collapser_inv idx ?c'")
    and "meaning idx d (set_slot (to_ckey b) (SResidue (pending_del c b)) c) = meaning idx d c"
proof -
  note p = inv_parts [OF assms]
  show inv: "collapser_inv idx ?c'"
    by (rule collapser_invI) (use p in \<open>auto split: if_splits\<close>)
  have "pending_del ?c' b' = pending_del c b'" for b'
    by (cases "b' = b") (simp_all add: pending_del_def)
  then have "set_phase idx ?c' d = set_phase idx c d"
    by (simp add: set_phase_def live_row_def collapser_finish_def cong: option.case_cong)
  then show "meaning idx d ?c' = meaning idx d c"
    by (simp add: apply_finish inv assms)
qed

lemma push_residue_step:
  assumes "collapser_inv idx c" "\<And>b. b \<in> touched idx op \<Longrightarrow> \<exists>del. slot_at c b = Some (SResidue del)"
  shows "collapser_inv idx (push_residue op c)"
    and "meaning idx d (push_residue op c) = apply_residue idx op (meaning idx d c)"
proof -
  have live: "live_at idx (push_residue op c) = live_at idx c"
    by (simp add: live_at_def push_residue_def fun_eq_iff)
  note p = inv_parts [OF assms(1)]
  show "collapser_inv idx (push_residue op c)"
    by (rule collapser_invI) (use p assms(2) in \<open>auto simp: live\<close>)
  show "meaning idx d (push_residue op c) = apply_residue idx op (meaning idx d c)"
    by (simp add: apply_collapsed_def collapser_finish_def push_residue_def tail_push_def)
qed

lemma live_at_push:
  "live_at idx (push_upsert k del row c) i b r \<longleftrightarrow>
     live_at idx c i b r \<or> (i = length (c_upserts c) \<and> b = row_key idx (cells_of row) \<and> r = cells_of row)"
  by (auto simp: live_at_def push_upsert_def nth_append less_Suc_eq)

lemma push_upsert_step:
  assumes "collapser_inv idx c" "slot_at c b = None \<or> slot_at c b = Some SDelete"
    "tuple_wf row" "keyed idx (cells_of row)" "row_key idx (cells_of row) = b"
  shows "collapser_inv idx (push_upsert (to_ckey b) del row c)" (is "collapser_inv idx ?c'")
    and "meaning idx d (push_upsert (to_ckey b) del row c) = (meaning idx d c)(b \<mapsto> cells_of row)"
proof -
  note p = inv_parts [OF assms(1)]
  have fresh: "\<not> live_at idx c i b r" for i r
    using p(7) [of i b r] assms(2) by auto
  have bound: "live_at idx c i b' r \<Longrightarrow> i \<noteq> length (c_upserts c)" for i b' r
    by (simp add: live_at_def)
  have free: "b \<notin> touched idx op" if "op \<in> set (ops (c_residue c))" for op
    using untouched [OF assms(1) _ that] assms(2) by auto
  show inv: "collapser_inv idx ?c'"
    by (rule collapser_invI) (use p free fresh bound assms in \<open>auto simp: live_at_push split: if_splits\<close>)
  have "set_phase idx ?c' d = (set_phase idx c d)(b := set_phase idx ?c' d b)"
    by (rule set_phase_update [OF assms(1) inv])
      (use assms(5) in \<open>auto simp: live_at_push pending_del_def\<close>)
  moreover have "set_phase idx ?c' d b = Some (cells_of row)"
    using assms(5) by (intro set_phase_live [OF inv]) (auto simp: live_at_push)
  ultimately show "meaning idx d ?c' = (meaning idx d c)(b \<mapsto> cells_of row)"
    using assms(2) by (intro meaning_update [OF assms(1) inv]) auto
qed

lemma live_at_write:
  "seq < length (c_upserts c) \<Longrightarrow>
   live_at idx (c\<lparr>c_upserts := (c_upserts c)[seq := v]\<rparr>) i b r \<longleftrightarrow>
     (if i = seq then \<exists>u. v = Some u \<and> row_key idx (cells_of u) = b \<and> cells_of u = r else live_at idx c i b r)"
  by (auto simp: live_at_def nth_list_update)

lemma live_key_unique: "\<lbrakk>live_at idx c i b r; live_at idx c i b' r'\<rbrakk> \<Longrightarrow> b' = b \<and> r' = r"
  by (auto simp: live_at_def)

text \<open>Overwriting the image a key already has in the window.\<close>

lemma overwrite_step:
  assumes "collapser_inv idx c" "slot_at c b = Some (SUpsert seq del)"
    "tuple_wf row" "keyed idx (cells_of row)" "row_key idx (cells_of row) = b"
  obtains c' where "write_upsert seq (Some row) c = Inr c'" "collapser_inv idx c'"
    "meaning idx d c' = (meaning idx d c)(b \<mapsto> cells_of row)"
proof -
  note p = inv_parts [OF assms(1)]
  obtain r where r: "live_at idx c seq b r" using p(6) assms(2) by blast
  then have seq: "seq < length (c_upserts c)" by (simp add: live_at_def)
  let ?c' = "c\<lparr>c_upserts := (c_upserts c)[seq := Some row]\<rparr>"
  note live = live_at_write [OF seq]
  have only: "live_at idx c seq b' r' \<longleftrightarrow> b' = b \<and> r' = r" for b' r'
    using live_key_unique [OF r] r by blast
  have inv: "collapser_inv idx ?c'"
  proof (rule collapser_invI)
    show "\<exists>r. live_at idx ?c' seq' b' r" if "slot_at ?c' b' = Some (SUpsert seq' del')" for b' seq' del'
      using p(6) [of b' seq' del'] that assms(5) only by (cases "seq' = seq") (auto simp: live)
    show "\<exists>del. slot_at ?c' b' = Some (SUpsert i del) \<or> slot_at ?c' b' = Some (SResidue del)"
      if "live_at idx ?c' i b' r'" for i b' r'
      using p(7) [of i b' r'] that assms(2,5) by (auto simp: live split: if_splits)
    show "i = j" if "live_at idx ?c' i b' r1" "live_at idx ?c' j b' r2" for i j b' r1 r2
      using p(8) that assms(5) r by (auto simp: live split: if_splits)
  qed (use p assms in \<open>auto dest: set_update_subset_insert [THEN subsetD]\<close>)
  have "set_phase idx ?c' d = (set_phase idx c d)(b := set_phase idx ?c' d b)"
    by (rule set_phase_update [OF assms(1) inv]) (use assms(5) only in \<open>auto simp: live pending_del_def\<close>)
  moreover have "set_phase idx ?c' d b = Some (cells_of row)"
    using assms(5) by (intro set_phase_live [OF inv, where i = seq]) (auto simp: live)
  ultimately have "meaning idx d ?c' = (meaning idx d c)(b \<mapsto> cells_of row)"
    using assms(2) by (intro meaning_update [OF assms(1) inv]) auto
  moreover have "write_upsert seq (Some row) c = Inr ?c'"
    using seq by (simp add: write_upsert_def write_list_def)
  ultimately show ?thesis using inv by (intro that)
qed

text \<open>Taking a row away, on every slot of its key.\<close>

lemma mark_deleted:
  assumes "collapser_inv idx c" "\<And>i r. \<not> live_at idx c i b r" "\<nexists>del. slot_at c b = Some (SResidue del)"
  shows "collapser_inv idx (set_slot (to_ckey b) SDelete c)" (is "collapser_inv idx ?c'")
    and "meaning idx d (set_slot (to_ckey b) SDelete c) = (meaning idx d c)(b := None)"
proof -
  note p = inv_parts [OF assms(1)]
  show inv: "collapser_inv idx ?c'"
    by (rule collapser_invI) (use p assms untouched [OF assms(1,3)] in \<open>auto split: if_splits\<close>)
  have "set_phase idx ?c' d = (set_phase idx c d)(b := set_phase idx ?c' d b)"
    by (rule set_phase_update [OF assms(1) inv]) (auto simp: pending_del_def)
  moreover have "set_phase idx ?c' d b = None"
    using assms(2) by (intro set_phase_gone [OF inv]) (auto simp: pending_del_def)
  ultimately show "meaning idx d ?c' = (meaning idx d c)(b := None)"
    using assms(3) by (intro meaning_update [OF assms(1) inv]) auto
qed

lemma erase_step:
  assumes "collapser_inv idx c" "slot_at c b = Some (SUpsert seq del)"
  obtains c' where "and_then (write_upsert seq None c) (\<lambda>c. Inr (set_slot (to_ckey b) SDelete c)) = Inr c'"
    "collapser_inv idx c'" "meaning idx d c' = (meaning idx d c)(b := None)"
proof -
  note p = inv_parts [OF assms(1)]
  obtain r where r: "live_at idx c seq b r" using p(6) assms(2) by blast
  then have seq: "seq < length (c_upserts c)" by (simp add: live_at_def)
  let ?c' = "set_slot (to_ckey b) SDelete (c\<lparr>c_upserts := (c_upserts c)[seq := None]\<rparr>)"
  note live = live_at_write [OF seq]
  have only: "live_at idx c seq b' r' \<longleftrightarrow> b' = b \<and> r' = r" for b' r'
    using live_key_unique [OF r] r by blast
  have gone: "\<not> live_at idx c i b r'" if "i \<noteq> seq" for i r'
    using p(8) r that by blast
  have inv: "collapser_inv idx ?c'"
  proof (rule collapser_invI)
    show "\<exists>r. live_at idx ?c' seq' b' r" if "slot_at ?c' b' = Some (SUpsert seq' del')" for b' seq' del'
      using p(6) [of b' seq' del'] that only by (auto simp: live split: if_splits)
    show "\<exists>del. slot_at ?c' b' = Some (SUpsert i del) \<or> slot_at ?c' b' = Some (SResidue del)"
      if "live_at idx ?c' i b' r'" for i b' r'
      using p(7) [of i b' r'] that gone by (auto simp: live split: if_splits)
    show "i = j" if "live_at idx ?c' i b' r1" "live_at idx ?c' j b' r2" for i j b' r1 r2
      using p(8) that by (auto simp: live split: if_splits)
    show "\<exists>del. slot_at ?c' b' = Some (SResidue del)" if "op \<in> set (ops (c_residue ?c'))" "b' \<in> touched idx op" for op b'
      using p(9) [of op b'] that assms(2) by auto
  qed (use p in \<open>auto dest: set_update_subset_insert [THEN subsetD]\<close>)
  have "set_phase idx ?c' d = (set_phase idx c d)(b := set_phase idx ?c' d b)"
    by (rule set_phase_update [OF assms(1) inv]) (use only in \<open>auto simp: live pending_del_def\<close>)
  moreover have "set_phase idx ?c' d b = None"
    using gone by (intro set_phase_gone [OF inv]) (auto simp: live pending_del_def)
  ultimately have "meaning idx d ?c' = (meaning idx d c)(b := None)"
    using assms(2) by (intro meaning_update [OF assms(1) inv]) auto
  moreover have "and_then (write_upsert seq None c) (\<lambda>c. Inr (set_slot (to_ckey b) SDelete c)) = Inr ?c'"
    using seq by (simp add: write_upsert_def write_list_def)
  ultimately show ?thesis using inv by (intro that)
qed

section \<open>The operations\<close>

lemma set_slot_push: "set_slot k s (push_residue op c) = push_residue op (set_slot k s c)"
  by (simp add: set_slot_def push_residue_def)

lemma pending_del_Some: "slot_at c b = Some s \<Longrightarrow> pending_del c b = slot_del s"
  by (simp add: pending_del_def)

lemma pending_del_None: "slot_at c b = None \<Longrightarrow> pending_del c b = False"
  by (simp add: pending_del_def)

text \<open>A masked image joins the tail, whatever the key's slot was.\<close>

lemma mask_step:
  assumes "collapser_inv idx c" "del = pending_del c b"
  shows "collapser_inv idx (set_slot (to_ckey b) (SResidue del) (push_residue (MaskedUpdate b cs) c))"
    and "meaning idx d (set_slot (to_ckey b) (SResidue del) (push_residue (MaskedUpdate b cs) c))
       = masked_at b cs (meaning idx d c)"
  using push_residue_step [OF set_residue_slot(1) [OF assms(1), of b], of "MaskedUpdate b cs"]
    set_residue_slot(2) [OF assms(1), of b d]
  by (simp_all add: set_slot_push assms(2))

lemma residue_slot_step:
  assumes "collapser_inv idx c" "slot_at c b = Some (SResidue del)" "touched idx op = {b}"
  shows "collapser_inv idx (push_residue op c)"
    and "meaning idx d (push_residue op c) = apply_residue idx op (meaning idx d c)"
  using push_residue_step [OF assms(1), of op] assms(2,3) by auto

definition landed :: "key \<Rightarrow> row \<Rightarrow> table \<Rightarrow> table" where
  "landed b r d = (if UnchangedToast \<in> set r then masked_at b r d else d(b \<mapsto> r))"

lemma land_image_step:
  assumes "collapser_inv idx c" "tuple_wf row" "keyed idx (cells_of row)" "row_key idx (cells_of row) = b"
  obtains c' where "land_image (to_ckey b) (has_toast row) row c = Inr c'" "collapser_inv idx c'"
    "meaning idx d c' = landed b (cells_of row) (meaning idx d c)"
proof (cases "\<exists>del. slot_at c b = Some (SResidue del)")
  case True
  then obtain del where s: "slot_at c b = Some (SResidue del)" by blast
  note st = residue_slot_step [OF assms(1) s]
  show ?thesis
  proof (cases "has_toast row")
    case True
    then show ?thesis
      using that [of "push_residue (MaskedUpdate b (cells_of row)) c"] st [of "MaskedUpdate b (cells_of row)"] s assms
      by (simp add: land_image_def tuple_simps landed_def)
  next
    case False
    then show ?thesis
      using that [of "push_residue (RUpsert (cells_of row)) c"] st [of "RUpsert (cells_of row)"] s assms
      by (simp add: land_image_def tuple_simps landed_def)
  qed
next
  case free: False
  show ?thesis
  proof (cases "has_toast row")
    case True
    with free have "land_image (to_ckey b) (has_toast row) row c = Inr
        (set_slot (to_ckey b) (SResidue (pending_del c b)) (push_residue (MaskedUpdate b (cells_of row)) c))"
      using assms(2) by (auto simp: land_image_def tuple_simps pending_del_def split: option.splits slot.splits)
    then show ?thesis
      using that mask_step [OF assms(1) refl] True by (simp add: landed_def tuple_simps)
  next
    case False
    show ?thesis
    proof (cases "\<exists>seq del. slot_at c b = Some (SUpsert seq del)")
      case True
      then obtain seq del where s: "slot_at c b = Some (SUpsert seq del)" by blast
      show ?thesis
        by (rule overwrite_step [OF assms(1) s assms(2,3,4), where d = d])
          (use that s False in \<open>simp add: land_image_def tuple_simps landed_def\<close>)
    next
      case empty: False
      with free have s: "slot_at c b = None \<or> slot_at c b = Some SDelete"
        by (metis option.exhaust slot.exhaust)
      then show ?thesis
        using that push_upsert_step [OF assms(1) s assms(2,3,4)] False
        by (auto simp: land_image_def tuple_simps landed_def)
    qed
  qed
qed

lemma insert_step:
  assumes "collapser_inv idx c" "tuple_wf row" "keyed idx (cells_of row)"
  obtains c' where "collapser_insert row c = Inr c'" "collapser_inv idx c'"
    "meaning idx d c' = (meaning idx d c)(row_key idx (cells_of row) \<mapsto> cells_of row)"
proof -
  let ?b = "row_key idx (cells_of row)" and ?c = "count_event c"
  have inv: "collapser_inv idx ?c" using assms(1) by simp
  have k: "key_of_row (l_key_idx (c_layout ?c)) row = Inr (to_ckey ?b)"
    using inv_parts(1) [OF assms(1)] key_of_row_wf [OF assms(2,3)] by simp
  consider (res) del where "slot_at ?c ?b = Some (SResidue del)"
    | (up) seq del where "slot_at ?c ?b = Some (SUpsert seq del)"
    | (free) "slot_at ?c ?b = None \<or> slot_at ?c ?b = Some SDelete"
    by (metis option.exhaust slot.exhaust)
  then show ?thesis
  proof cases
    case res
    then show ?thesis
      using that residue_slot_step [OF inv res, of "RUpsert (cells_of row)"] k assms(2)
      by (simp add: collapser_insert_def tuple_simps)
  next
    case up
    show ?thesis
      by (rule overwrite_step [OF inv up assms(2,3) refl, where d = d])
        (use that up k in \<open>simp add: collapser_insert_def\<close>)
  next
    case free
    then show ?thesis
      using that push_upsert_step [OF inv free assms(2,3) refl] k
      by (auto simp: collapser_insert_def)
  qed
qed

lemma put_delete_step:
  assumes "collapser_inv idx c"
  obtains c' where "put_delete (to_ckey b) c = Inr c'" "collapser_inv idx c'"
    "meaning idx d c' = (meaning idx d c)(b := None)"
proof -
  note p = inv_parts [OF assms]
  consider (res) del where "slot_at c b = Some (SResidue del)"
    | (up) seq del where "slot_at c b = Some (SUpsert seq del)"
    | (del) "slot_at c b = Some SDelete" | (none) "slot_at c b = None"
    by (metis option.exhaust slot.exhaust)
  then show ?thesis
  proof cases
    case res
    then show ?thesis
      using that residue_slot_step [OF assms res, of "RDelete b"] by (simp add: put_delete_def)
  next
    case up
    show ?thesis
      by (rule erase_step [OF assms up, where d = d]) (use that up in \<open>simp add: put_delete_def\<close>)
  next
    case del
    have "\<not> live_at idx c i b r" for i r using p(7) [of i b r] del by auto
    then have "meaning idx d c b = None"
      using del set_phase_gone [OF assms] untouched_value [OF assms] by (simp add: pending_del_def)
    then show ?thesis using that [of c] del assms by (simp add: put_delete_def fun_upd_idem)
  next
    case none
    have "\<not> live_at idx c i b r" for i r using p(7) [of i b r] none by auto
    then show ?thesis
      using that mark_deleted [OF assms, of b] none by (simp add: put_delete_def)
  qed
qed

text \<open>
  Leaving the old key: the row goes, unless a FULL old image shows that the window's row
  at that key is another one, which then stays.
\<close>

lemma leave_old_key_step:
  assumes "collapser_inv idx c" "tuple_wf old" "row_key idx (cells_of old) = b"
  obtains c' where "leave_old_key fl old (to_ckey b) c = Inr c'" "collapser_inv idx c'"
    "\<lbrakk>fl \<Longrightarrow> meaning idx d c b \<in> {None, Some (cells_of old)}\<rbrakk> \<Longrightarrow> meaning idx d c' = (meaning idx d c)(b := None)"
proof (cases "\<exists>seq del. slot_at c b = Some (SUpsert seq del)")
  case True
  then obtain seq del where s: "slot_at c b = Some (SUpsert seq del)" by blast
  note p = inv_parts [OF assms(1)]
  obtain u where u: "seq < length (c_upserts c)" "c_upserts c ! seq = Some u" "live_at idx c seq b (cells_of u)"
    using p(6) [OF s] by (auto simp: live_at_def)
  have wf: "tuple_wf u" using p(4) u by (metis nth_mem)
  have other: "other_row fl old (to_ckey b) c = Inr (fl \<and> cells_of u \<noteq> cells_of old)"
    using s u wf assms(2) by (simp add: other_row_def tuple_simps)
  have val: "meaning idx d c b = Some (cells_of u)"
    using s untouched_value [OF assms(1)] set_phase_live [OF assms(1) u(3)] by simp
  show ?thesis
  proof (cases "fl \<and> cells_of u \<noteq> cells_of old")
    case True
    let ?c' = "set_slot (to_ckey b) (SUpsert seq True) c"
    have free: "b \<notin> touched idx op" if "op \<in> set (ops (c_residue c))" for op
      using untouched [OF assms(1) _ that] s by simp
    have one: "i = seq" if "live_at idx c i b r" for i r
      using p(8) [OF that u(3)] .
    have "collapser_inv idx ?c'"
    proof (rule collapser_invI)
      show "\<exists>r. live_at idx ?c' seq' b' r" if "slot_at ?c' b' = Some (SUpsert seq' del')" for b' seq' del'
        using that p(6) [of b' seq' del'] u(3) by (auto split: if_splits)
      show "\<exists>del. slot_at ?c' b' = Some (SUpsert i del) \<or> slot_at ?c' b' = Some (SResidue del)"
        if "live_at idx ?c' i b' r'" for i b' r'
        using that p(7) [of i b' r'] one [of i r'] by auto
      show "\<exists>del. slot_at ?c' b' = Some (SResidue del)" if "op \<in> set (ops (c_residue ?c'))" "b' \<in> touched idx op" for op b'
        using that p(9) [of op b'] free [of op] by auto
    qed (use p(1-5,8,10) in \<open>auto\<close>)
    with True other s val show ?thesis
      using that [of ?c'] by (simp add: leave_old_key_def)
  next
    case False
    show ?thesis
      by (rule put_delete_step [OF assms(1), of b d]) (use that other False in \<open>simp add: leave_old_key_def\<close>)
  qed
next
  case False
  then have other: "other_row fl old (to_ckey b) c = Inr False"
    by (auto simp: other_row_def split: option.splits slot.splits)
  show ?thesis
    by (rule put_delete_step [OF assms(1), of b d]) (use that other in \<open>simp add: leave_old_key_def\<close>)
qed

lemma move_row_step:
  assumes "collapser_inv idx c" "tuple_wf row" "a \<noteq> b"
  obtains c' where "move_row (to_ckey a) (to_ckey b) row c = Inr c'" "collapser_inv idx c'"
    "meaning idx d c' = moved a b (cells_of row) (meaning idx d c)"
proof -
  let ?c1 = "set_slot (to_ckey a) (SResidue (pending_del c a)) c"
  let ?c2 = "set_slot (to_ckey b) (SResidue (pending_del ?c1 b)) ?c1"
  note s1 = set_residue_slot [OF assms(1), of a]
  note s2 = set_residue_slot [OF s1(1), of b]
  note s3 = push_residue_step [OF s2(1), of "Rekey a b (cells_of row)"]
  have "move_row (to_ckey a) (to_ckey b) row c = Inr (push_residue (Rekey a b (cells_of row)) ?c2)"
    using assms(2,3) by (simp add: move_row_def tuple_simps set_slot_push pending_del_def Let_def)
  moreover have "\<exists>del. slot_at ?c2 b' = Some (SResidue del)" if "b' \<in> touched idx (Rekey a b (cells_of row))" for b'
    using that by auto
  ultimately show ?thesis
    using that s3 by (simp add: s1(2) s2(2))
qed

lemma update_step:
  assumes "collapser_inv idx c" "op_ok idx (Op_Update old row fl)"
  obtains c' where "update_image old fl row c = Inr c'" "collapser_inv idx c'"
    "names_row idx (meaning idx d c) (Op_Update old row fl) \<Longrightarrow>
     meaning idx d c' = apply_event idx (Op_Update old row fl) (meaning idx d c)"
proof -
  let ?c = "count_event c"
  have inv: "collapser_inv idx ?c" using assms(1) by simp
  have idx: "l_key_idx (c_layout ?c) = idx" using inv_parts(1) [OF assms(1)] by simp
  show ?thesis
  proof (cases old)
    case None
    then have row: "tuple_wf row" "keyed idx (cells_of row)" using assms(2) by auto
    show ?thesis
      by (rule land_image_step [OF inv row refl, where d = d])
        (use that None idx row in \<open>simp add: update_image_def key_of_row_wf landed_def Let_def\<close>)
  next
    case (Some o')
    let ?new = "key_fill idx (cells_of o') (cells_of row)"
    let ?a = "row_key idx (cells_of o')" and ?b = "row_key idx ?new"
    have o': "tuple_wf o'" "keyed idx (cells_of o')" and new: "keyed idx ?new"
      using assms(2) Some by auto
    obtain row' where r': "key_from_old idx o' row = Inr row'" "tuple_wf row'" "cells_of row' = ?new"
      using assms(2) Some by (auto intro: key_from_old_wf)
    have row': "keyed idx (cells_of row')" "row_key idx (cells_of row') = ?b" using new r'(3) by simp_all
    have upd: "update_image old fl row c =
        (if ?a = ?b then land_image (to_ckey ?b) (has_toast row') row' ?c
         else if has_toast row' then move_row (to_ckey ?a) (to_ckey ?b) row' ?c
         else and_then (leave_old_key fl o' (to_ckey ?a) ?c) (land_image (to_ckey ?b) (has_toast row') row'))"
      using Some idx r' row' o' by (simp add: update_image_def key_of_row_wf)
    consider (same) "?a = ?b" | (move) "?a \<noteq> ?b" "has_toast row'" | (leave) "?a \<noteq> ?b" "\<not> has_toast row'"
      by blast
    then show ?thesis
    proof cases
      case same
      show ?thesis
        by (rule land_image_step [OF inv r'(2) row', where d = d])
          (use that upd same Some r'(3) in \<open>simp add: landed_def tuple_simps Let_def\<close>)
    next
      case move
      show ?thesis
        by (rule move_row_step [OF inv r'(2) move(1), where d = d])
          (use that upd move Some r'(3) in \<open>simp add: tuple_simps Let_def\<close>)
    next
      case leave
      obtain c1 where c1: "leave_old_key fl o' (to_ckey ?a) ?c = Inr c1" "collapser_inv idx c1"
        "\<lbrakk>fl \<Longrightarrow> meaning idx d c ?a \<in> {None, Some (cells_of o')}\<rbrakk> \<Longrightarrow> meaning idx d c1 = (meaning idx d c)(?a := None)"
        by (rule leave_old_key_step [OF inv o'(1) refl, where d = d and fl = fl]) simp
      show ?thesis
        by (rule land_image_step [OF c1(2) r'(2) row', where d = d])
          (use that upd leave Some r'(3) c1 in \<open>cases fl; simp add: landed_def tuple_simps Let_def\<close>)
    qed
  qed
qed

lemma truncate_step:
  assumes "collapser_inv idx c"
  shows "collapser_inv idx (collapser_truncate c)" "meaning idx d (collapser_truncate c) = Map.empty"
proof -
  show "collapser_inv idx (collapser_truncate c)"
    using inv_parts(1) [OF assms]
    by (simp add: collapser_inv_def collapser_truncate_def slots_ok_def live_at_def tail_clear_def)
  show "meaning idx d (collapser_truncate c) = Map.empty"
    by (simp add: apply_collapsed_def collapser_finish_def collapser_truncate_def tail_clear_def
        upsert_rows_def delete_keys_def)
qed

text \<open>Every operation on readable images succeeds, keeps the invariant and replays its event.\<close>

lemma collapse_op_step:
  assumes "collapser_inv idx c" "op_ok idx op"
  obtains c' where "collapse_op c op = Inr c'" "collapser_inv idx c'"
    "names_row idx (meaning idx d c) op \<Longrightarrow> meaning idx d c' = apply_event idx op (meaning idx d c)"
proof (cases op)
  case (Op_Insert row)
  show ?thesis
    by (rule insert_step [OF assms(1), of row d]) (use that assms(2) Op_Insert in simp_all)
next
  case (Op_Update old row fl)
  show ?thesis
    by (rule update_step [OF assms(1), of old row fl d]) (use that assms(2) Op_Update in simp_all)
next
  case (Op_Delete old)
  have inv: "collapser_inv idx (count_event c)" using assms(1) by simp
  show ?thesis
    by (rule put_delete_step [OF inv, of "row_key idx (cells_of old)" d])
      (use that assms(2) Op_Delete inv_parts(1) [OF assms(1)] in \<open>simp add: collapser_delete_def key_of_row_wf\<close>)
next
  case Op_Truncate
  show ?thesis
    using that truncate_step [OF assms(1)] Op_Truncate by simp
qed

section \<open>A small table\<close>

text \<open>Two rows of a table with columns \<open>id\<close> and \<open>body\<close>, for the concrete windows below.\<close>

definition sample_layout :: layout where
  "sample_layout = \<lparr>l_cols = [ascii ''id'', ascii ''body''], l_oids = [20, 25],
     l_key_cols = [ascii ''id''], l_key_idx = [0]\<rparr>"

abbreviation sample_cells :: "string \<Rightarrow> string \<Rightarrow> row" where
  "sample_cells k v \<equiv> [Text (ascii k), Text (ascii v)]"

abbreviation sample_row :: "string \<Rightarrow> string \<Rightarrow> tuple" where
  "sample_row k v \<equiv> from_cells (sample_cells k v)"

abbreviation masked_cells :: "string \<Rightarrow> row" where
  "masked_cells k \<equiv> [Text (ascii k), UnchangedToast]"

abbreviation masked_row :: "string \<Rightarrow> tuple" where
  "masked_row k \<equiv> from_cells (masked_cells k)"

lemma cells_Nil_iff: "cells t = [] \<longleftrightarrow> cells_of t = []"
  by (simp add: cells_of_def)

lemmas sample_eval = cells_Nil_iff from_cells_wf cells_of_from_cells keyed_def row_key_def sample_layout_def

text \<open>A window that moves a row with its unsent value, reuses the old key and deletes another row.\<close>

definition sample_window :: "stream_op list" where
  "sample_window =
     [Op_Update (Some (sample_row ''1'' ''a'')) (masked_row ''9'') False,
      Op_Insert (sample_row ''1'' ''b''),
      Op_Delete (sample_row ''3'' ''c''),
      Op_Update None (sample_row ''1'' ''d'') False]"

definition sample_table :: table where
  "sample_table = [[ascii ''1''] \<mapsto> sample_cells ''1'' ''a'', [ascii ''3''] \<mapsto> sample_cells ''3'' ''c'']"

end
