(* ===== verification/Changelog.thy ===== *)
theory Changelog
  imports Replica
begin

text \<open>
  The append-only lane (\<^verbatim>\<open>logbased/changelog.rs\<close>): every operation of a window kept in
  order, and the reconstruction of the cells the source did not send. The records a
  window resolves to are compared with the records the source's own rows would give.
\<close>

section \<open>Captured operations\<close>

datatype change_op = CInsert | CUpdate | CDelete | CTruncate

fun code :: "change_op \<Rightarrow> string" where
  "code CInsert = ''I''"
| "code CUpdate = ''U''"
| "code CDelete = ''D''"
| "code CTruncate = ''T''"

record change =
  ch_op :: change_op
  ch_row :: "tuple option"
  ch_moved :: "key option"

record changes =
  ch_events :: "change list"
  ch_count :: nat
  ch_masked :: bool
  ch_layout :: layout

definition changes_new :: "layout \<Rightarrow> changes" where
  "changes_new l = \<lparr>ch_events = [], ch_count = 0, ch_masked = False, ch_layout = l\<rparr>"

definition key_of :: "tuple \<Rightarrow> nat list \<Rightarrow> key result" where
  "key_of row pk_idx =
     collect_results (\<lambda>i. and_then (tuple_get row i) (\<lambda>c.
       case c of Some (Text t) \<Rightarrow> Inr t | _ \<Rightarrow> Inr [])) pk_idx"

fun any_view_toast :: "tuple \<Rightarrow> nat list \<Rightarrow> bool result" where
  "any_view_toast row [] = Inr False"
| "any_view_toast row (i # is) =
     and_then (tuple_view row i) (\<lambda>c. if c = UnchangedToast then Inr True else any_view_toast row is)"

definition note_mask :: "tuple \<Rightarrow> changes \<Rightarrow> changes result" where
  "note_mask row c =
     (if ch_masked c then Inr c
      else and_then (any_view_toast row [0..<tuple_len row]) (\<lambda>m. Inr (c\<lparr>ch_masked := m\<rparr>)))"

definition count_change :: "changes \<Rightarrow> changes" where
  "count_change c = c\<lparr>ch_count := ch_count c + 1\<rparr>"

definition push_change :: "change_op \<Rightarrow> tuple option \<Rightarrow> key option \<Rightarrow> changes \<Rightarrow> changes" where
  "push_change op row moved_from c =
     c\<lparr>ch_events := ch_events c @ [\<lparr>ch_op = op, ch_row = row, ch_moved = moved_from\<rparr>]\<rparr>"

definition changes_insert :: "tuple \<Rightarrow> changes \<Rightarrow> changes result" where
  "changes_insert row c =
     and_then (note_mask row (count_change c)) (\<lambda>c. Inr (push_change CInsert (Some row) None c))"

definition changes_update :: "tuple option \<Rightarrow> tuple \<Rightarrow> changes \<Rightarrow> changes result" where
  "changes_update old row0 c0 =
     (let c1 = count_change c0; pk_idx = l_key_idx (ch_layout c1) in
      and_then (case old of Some o' \<Rightarrow> key_from_old pk_idx o' row0 | None \<Rightarrow> Inr row0) (\<lambda>row.
      and_then (note_mask row c1) (\<lambda>c.
        case old of
          None \<Rightarrow> Inr (push_change CUpdate (Some row) None c)
        | Some o' \<Rightarrow>
            and_then (key_of o' pk_idx) (\<lambda>from.
            and_then (key_of row pk_idx) (\<lambda>to.
              if from \<noteq> to
              then Inr (push_change CUpdate (Some row) (Some from) (push_change CDelete (Some o') None c))
              else Inr (push_change CUpdate (Some row) None c))))))"

definition changes_delete :: "tuple \<Rightarrow> changes \<Rightarrow> changes" where
  "changes_delete old c = push_change CDelete (Some old) None (count_change c)"

definition changes_truncate :: "changes \<Rightarrow> changes" where
  "changes_truncate c = push_change CTruncate None None (count_change c)"

fun changes_op :: "changes \<Rightarrow> stream_op \<Rightarrow> changes result" where
  "changes_op c (Op_Insert row) = changes_insert row c"
| "changes_op c (Op_Update old row _) = changes_update old row c"
| "changes_op c (Op_Delete old) = Inr (changes_delete old c)"
| "changes_op c Op_Truncate = Inr (changes_truncate c)"

section \<open>The readback plan\<close>

text \<open>An ordered set of column positions (\<^verbatim>\<open>BTreeSet\<close>).\<close>

definition set_insert :: "nat \<Rightarrow> nat list \<Rightarrow> nat list" where
  "set_insert i xs = (if i \<in> set xs then xs else insort i xs)"

fun mask_columns :: "tuple \<Rightarrow> nat list \<Rightarrow> nat list \<Rightarrow> (nat list \<times> bool) result" where
  "mask_columns row [] cols = Inr (cols, False)"
| "mask_columns row (i # is) cols =
     and_then (tuple_view row i) (\<lambda>c.
       and_then (mask_columns row is (if c = UnchangedToast then set_insert i cols else cols)) (\<lambda>(cols', any).
         Inr (cols', c = UnchangedToast \<or> any)))"

definition change_source :: "nat list \<Rightarrow> change \<Rightarrow> tuple \<Rightarrow> key result" where
  "change_source pk_idx ev row = (case ch_moved ev of Some from \<Rightarrow> Inr from | None \<Rightarrow> key_of row pk_idx)"

definition plan_event ::
  "nat list \<Rightarrow> key list \<times> nat list \<Rightarrow> change \<Rightarrow> (key list \<times> nat list) result" where
  "plan_event pk_idx s ev =
     (case (ch_op ev, ch_row ev) of
        (CDelete, _) \<Rightarrow> Inr s
      | (_, None) \<Rightarrow> Inr s
      | (_, Some row) \<Rightarrow>
          and_then (mask_columns row [0..<tuple_len row] (snd s)) (\<lambda>(cols, any).
            if any then and_then (change_source pk_idx ev row) (\<lambda>k.
                Inr (if k \<in> set (fst s) then fst s else fst s @ [k], cols))
            else Inr (fst s, cols)))"

definition mask_plan :: "changes \<Rightarrow> (key list \<times> nat list) result" where
  "mask_plan c = fold_results (plan_event (l_key_idx (ch_layout c))) ([], []) (ch_events c)"

section \<open>Resolving masked cells\<close>

type_synonym carry = "key \<rightharpoonup> (nat \<rightharpoonup> bytes option)"
type_synonym base = "key \<rightharpoonup> bytes option list"

fun cell_value :: "cell \<Rightarrow> bytes option" where
  "cell_value (Text t) = Some t"
| "cell_value _ = None"

fun value_cell :: "bytes option \<Rightarrow> cell" where
  "value_cell (Some b) = Text b"
| "value_cell None = Null"

text \<open>The value a column still holds: what the window carried, else what the destination held.\<close>

definition held_value :: "nat list \<Rightarrow> base \<Rightarrow> bool \<Rightarrow> carry \<Rightarrow> key \<Rightarrow> nat \<Rightarrow> bytes option option" where
  "held_value cols base was_truncated carry held_at i =
     (case Option.bind (carry held_at) (\<lambda>s. s i) of
        Some v \<Rightarrow> Some v
      | None \<Rightarrow>
          if was_truncated then None
          else Option.bind (position (\<lambda>c. c = i) cols) (\<lambda>p.
                 Option.bind (base held_at) (\<lambda>b. if p < length b then Some (b ! p) else None)))"

fun resolve_cells :: "bytes list \<Rightarrow> (nat \<Rightarrow> bytes option option) \<Rightarrow> nat \<Rightarrow> cell list \<Rightarrow> cell list result" where
  "resolve_cells names held i [] = Inr []"
| "resolve_cells names held i (c # cs) =
     (if c \<noteq> UnchangedToast then and_then (resolve_cells names held (Suc i) cs) (\<lambda>cs. Inr (c # cs))
      else (case held i of
              None \<Rightarrow> Inl (Transfer (Torn_window (if i < length names then Some (names ! i) else None)))
            | Some v \<Rightarrow> and_then (resolve_cells names held (Suc i) cs) (\<lambda>cs. Inr (value_cell v # cs))))"

definition carry_cells :: "cell list \<Rightarrow> (nat \<rightharpoonup> bytes option) \<Rightarrow> (nat \<rightharpoonup> bytes option)" where
  "carry_cells cs slot =
     (\<lambda>i. if i < length cs \<and> cs ! i \<noteq> UnchangedToast then Some (cell_value (cs ! i)) else slot i)"

record resolving =
  rs_carry :: carry
  rs_truncated :: bool
  rs_out :: "nat \<rightharpoonup> tuple"
  rs_index :: nat

definition resolve_event ::
  "nat list \<Rightarrow> bytes list \<Rightarrow> nat list \<Rightarrow> base \<Rightarrow> resolving \<Rightarrow> change \<Rightarrow> resolving result" where
  "resolve_event pk_idx names cols base s ev =
     (let next = (\<lambda>s. s\<lparr>rs_index := rs_index s + 1\<rparr>) in
      case (ch_op ev, ch_row ev) of
        (CTruncate, _) \<Rightarrow> Inr (next (s\<lparr>rs_carry := Map.empty, rs_truncated := True\<rparr>))
      | (CDelete, _) \<Rightarrow> Inr (next s)
      | (_, None) \<Rightarrow> Inr (next s)
      | (_, Some row) \<Rightarrow>
          and_then (tuple_views row) (\<lambda>cells0.
          and_then (key_of row pk_idx) (\<lambda>key.
            let masked_any = UnchangedToast \<in> set cells0;
                held_at = (case ch_moved ev of Some from \<Rightarrow> from | None \<Rightarrow> key) in
            and_then (if masked_any
                      then resolve_cells names (held_value cols base (rs_truncated s) (rs_carry s) held_at) 0 cells0
                      else Inr cells0) (\<lambda>cells.
              let slot = (case rs_carry s key of Some m \<Rightarrow> m | None \<Rightarrow> Map.empty) in
              Inr (next (s\<lparr>rs_carry := (rs_carry s)(key \<mapsto> carry_cells cells slot),
                           rs_out := (if masked_any then (rs_out s)(rs_index s \<mapsto> from_cells cells)
                                      else rs_out s)\<rparr>))))))"

definition resolve_masked :: "changes \<Rightarrow> nat list \<Rightarrow> base \<Rightarrow> (nat \<rightharpoonup> tuple) result" where
  "resolve_masked c cols base =
     and_then (fold_results (resolve_event (l_key_idx (ch_layout c)) (l_cols (ch_layout c)) cols base)
                 \<lparr>rs_carry = Map.empty, rs_truncated = False, rs_out = Map.empty, rs_index = 0\<rparr> (ch_events c))
       (\<lambda>s. Inr (rs_out s))"

section \<open>The log the source's own rows give\<close>

type_synonym log_record = "change_op \<times> row option"

text \<open>The row an update leaves, its unsent cells taken from the row it updates.\<close>

definition new_image :: "nat list \<Rightarrow> tuple option \<Rightarrow> tuple \<Rightarrow> row" where
  "new_image idx old row = (case old of Some o' \<Rightarrow> key_fill idx (cells_of o') (cells_of row) | None \<Rightarrow> cells_of row)"

definition updated_key :: "nat list \<Rightarrow> tuple option \<Rightarrow> tuple \<Rightarrow> key" where
  "updated_key idx old row =
     (case old of Some o' \<Rightarrow> row_key idx (cells_of o') | None \<Rightarrow> row_key idx (cells_of row))"

definition updated_row :: "nat list \<Rightarrow> table \<Rightarrow> tuple option \<Rightarrow> tuple \<Rightarrow> row" where
  "updated_row idx d old row =
     (let new = new_image idx old row in
      if UnchangedToast \<in> set new then fill new (the (d (updated_key idx old row))) else new)"

fun true_records :: "nat list \<Rightarrow> table \<Rightarrow> stream_op \<Rightarrow> log_record list" where
  "true_records idx d (Op_Insert row) = [(CInsert, Some (cells_of row))]"
| "true_records idx d (Op_Delete old) = [(CDelete, Some (cells_of old))]"
| "true_records idx d Op_Truncate = [(CTruncate, None)]"
| "true_records idx d (Op_Update old row _) =
     (case old of
        Some o' \<Rightarrow> if row_key idx (cells_of o') \<noteq> row_key idx (new_image idx old row)
                   then [(CDelete, Some (cells_of o'))] else []
      | None \<Rightarrow> []) @ [(CUpdate, Some (updated_row idx d old row))]"

fun true_log :: "nat list \<Rightarrow> table \<Rightarrow> stream_op list \<Rightarrow> log_record list" where
  "true_log idx d [] = []"
| "true_log idx d (op # es) = true_records idx d op @ true_log idx (apply_event idx op d) es"

text \<open>The records a resolved window writes, and the table a reader of the log derives.\<close>

definition written :: "(nat \<rightharpoonup> tuple) \<Rightarrow> nat \<Rightarrow> change \<Rightarrow> log_record" where
  "written out i ev =
     (ch_op ev, map_option cells_of (case out i of Some t \<Rightarrow> Some t | None \<Rightarrow> ch_row ev))"

fun read_record :: "nat list \<Rightarrow> log_record \<Rightarrow> table \<Rightarrow> table" where
  "read_record idx (CInsert, Some r) d = d(row_key idx r \<mapsto> r)"
| "read_record idx (CUpdate, Some r) d = d(row_key idx r \<mapsto> r)"
| "read_record idx (CDelete, Some r) d = d(row_key idx r := None)"
| "read_record idx (CTruncate, _) d = Map.empty"
| "read_record idx (_, None) d = d"

text \<open>
  What the source guarantees of a logged operation over the table it ran on: readable
  images of the table's width, whole rows on insert, and a row under every masked update.
\<close>

fun log_ok :: "nat list \<Rightarrow> nat \<Rightarrow> table \<Rightarrow> stream_op \<Rightarrow> bool" where
  "log_ok idx n d (Op_Insert row) =
     (op_ok idx (Op_Insert row) \<and> length (cells_of row) = n \<and> UnchangedToast \<notin> set (cells_of row))"
| "log_ok idx n d (Op_Update old row fl) =
     (op_ok idx (Op_Update old row fl) \<and> length (cells_of row) = n
      \<and> (UnchangedToast \<in> set (new_image idx old row) \<longrightarrow> d (updated_key idx old row) \<noteq> None)
      \<and> text_bytes (updated_row idx d old row) < 2 ^ 32)"
| "log_ok idx n d op = op_ok idx op"

section \<open>Reading keys and images\<close>

lemma key_of_wf:
  assumes "tuple_wf row" "keyed idx (cells_of row)"
  shows "key_of row idx = Inr (row_key idx (cells_of row))"
  unfolding key_of_def row_key_def
proof (rule collect_results_map)
  fix i
  assume "i \<in> set idx"
  with assms(2) obtain t where "i < length (cells row)" "cells_of row ! i = Text t"
    by (auto simp: keyed_def list_all_iff)
  with assms(1) show "and_then (tuple_get row i) (\<lambda>c. case c of Some (Text t) \<Rightarrow> Inr t | _ \<Rightarrow> Inr []) =
      Inr (text_of (cells_of row ! i))"
    by (simp add: tuple_simps)
qed

lemma any_view_toast_wf:
  "tuple_wf row \<Longrightarrow> \<forall>i \<in> set is. i < length (cells row) \<Longrightarrow>
   any_view_toast row is = Inr (\<exists>i \<in> set is. cells_of row ! i = UnchangedToast)"
  by (induction "is") (auto simp: tuple_simps)

lemma note_mask_wf: "tuple_wf row \<Longrightarrow> \<exists>m. note_mask row c = Inr (c\<lparr>ch_masked := m\<rparr>)"
  by (cases "ch_masked c") (auto simp: note_mask_def any_view_toast_wf tuple_len_def intro: exI [of _ True])

lemma push_change_fields [simp]:
  "ch_events (push_change op row mf c) = ch_events c @ [\<lparr>ch_op = op, ch_row = row, ch_moved = mf\<rparr>]"
  "ch_layout (push_change op row mf c) = ch_layout c" "ch_count (push_change op row mf c) = ch_count c"
  by (simp_all add: push_change_def)

lemma count_change_fields [simp]:
  "ch_events (count_change c) = ch_events c" "ch_layout (count_change c) = ch_layout c"
  "ch_count (count_change c) = ch_count c + 1"
  by (simp_all add: count_change_def)

text \<open>The events one operation adds.\<close>

inductive captures :: "nat list \<Rightarrow> stream_op \<Rightarrow> change list \<Rightarrow> bool" for idx where
  ins: "captures idx (Op_Insert row) [\<lparr>ch_op = CInsert, ch_row = Some row, ch_moved = None\<rparr>]"
| del: "captures idx (Op_Delete old) [\<lparr>ch_op = CDelete, ch_row = Some old, ch_moved = None\<rparr>]"
| trunc: "captures idx Op_Truncate [\<lparr>ch_op = CTruncate, ch_row = None, ch_moved = None\<rparr>]"
| upd: "\<lbrakk>tuple_wf row'; cells_of row' = new_image idx old row;
         updated_key idx old row = row_key idx (new_image idx old row)\<rbrakk> \<Longrightarrow>
   captures idx (Op_Update old row fl) [\<lparr>ch_op = CUpdate, ch_row = Some row', ch_moved = None\<rparr>]"
| move: "\<lbrakk>tuple_wf row'; cells_of row' = new_image idx (Some o') row;
          row_key idx (cells_of o') \<noteq> row_key idx (new_image idx (Some o') row)\<rbrakk> \<Longrightarrow>
   captures idx (Op_Update (Some o') row fl)
     [\<lparr>ch_op = CDelete, ch_row = Some o', ch_moved = None\<rparr>,
      \<lparr>ch_op = CUpdate, ch_row = Some row', ch_moved = Some (row_key idx (cells_of o'))\<rparr>]"

inductive_cases captures_insert: "captures idx (Op_Insert row) es"
inductive_cases captures_delete: "captures idx (Op_Delete old) es"
inductive_cases captures_truncate: "captures idx Op_Truncate es"
inductive_cases captures_update: "captures idx (Op_Update old row fl) es"

lemma changes_op_step:
  assumes "op_ok idx op" "l_key_idx (ch_layout c) = idx"
  shows "\<exists>c' es. changes_op c op = Inr c' \<and> ch_events c' = ch_events c @ es \<and> captures idx op es
           \<and> ch_layout c' = ch_layout c \<and> ch_count c' = ch_count c + 1"
proof (cases op)
  case (Op_Insert row)
  with assms obtain m where "note_mask row (count_change c) = Inr ((count_change c)\<lparr>ch_masked := m\<rparr>)"
    using note_mask_wf by fastforce
  with Op_Insert show ?thesis
    by (auto simp: changes_insert_def intro: captures.intros)
next
  case (Op_Delete old)
  then show ?thesis by (auto simp: changes_delete_def intro: captures.intros)
next
  case Op_Truncate
  then show ?thesis by (auto simp: changes_truncate_def intro: captures.intros)
next
  case (Op_Update old row fl)
  show ?thesis
  proof (cases old)
    case None
    with assms Op_Update obtain m where "note_mask row (count_change c) = Inr ((count_change c)\<lparr>ch_masked := m\<rparr>)"
      using note_mask_wf by fastforce
    with None Op_Update assms show ?thesis
      by (auto simp: changes_update_def Let_def new_image_def updated_key_def intro!: captures.upd)
  next
    case (Some o')
    let ?new = "key_fill idx (cells_of o') (cells_of row)"
    have ok: "tuple_wf row" "tuple_wf o'" "keyed idx (cells_of o')" "keyed idx ?new" "text_bytes ?new < 2 ^ 32"
      using assms Op_Update Some by auto
    obtain row' where r': "key_from_old idx o' row = Inr row'" "tuple_wf row'" "cells_of row' = ?new"
      using key_from_old_wf ok by blast
    obtain m where m: "note_mask row' (count_change c) = Inr ((count_change c)\<lparr>ch_masked := m\<rparr>)"
      using note_mask_wf r'(2) by blast
    have keys: "key_of o' idx = Inr (row_key idx (cells_of o'))" "key_of row' idx = Inr (row_key idx ?new)"
      using key_of_wf ok r' by metis+
    show ?thesis
      using Some Op_Update assms r' m keys
      by (cases "row_key idx (cells_of o') = row_key idx ?new")
        (auto simp: changes_update_def Let_def new_image_def updated_key_def intro!: captures.upd captures.move)
  qed
qed

interpretation changes_machine: fallible_machine changes_op "\<lambda>c. l_key_idx (ch_layout c) = idx" "op_ok idx" for idx
proof
  fix c c' :: changes and op
  assume "l_key_idx (ch_layout c) = idx" "op_ok idx op"
  note st = changes_op_step [OF this(2,1)]
  show "\<exists>s'. changes_op c op = Inr s'" using st by blast
  show "changes_op c op = Inr c' \<Longrightarrow> l_key_idx (ch_layout c') = idx"
    using st \<open>l_key_idx (ch_layout c) = idx\<close> by auto
qed

lemma changes_capture:
  "\<lbrakk>\<forall>op \<in> set es. op_ok idx op; l_key_idx (ch_layout c) = idx; fold_results changes_op c es = Inr c'\<rbrakk> \<Longrightarrow>
   \<exists>ess. list_all2 (captures idx) es ess \<and> ch_events c' = ch_events c @ concat ess
       \<and> ch_layout c' = ch_layout c \<and> ch_count c' = ch_count c + length es"
proof (induction es arbitrary: c)
  case (Cons op es)
  from Cons.prems changes_op_step [of idx op c] obtain c1 e1 where
    c1: "changes_op c op = Inr c1" "ch_events c1 = ch_events c @ e1" "captures idx op e1"
        "ch_layout c1 = ch_layout c" "ch_count c1 = ch_count c + 1" by auto
  with Cons.prems Cons.IH [of c1] obtain ess where
    "list_all2 (captures idx) es ess" "ch_events c' = ch_events c1 @ concat ess"
    "ch_layout c' = ch_layout c1" "ch_count c' = ch_count c1 + length es" by auto
  with c1 show ?case by (intro exI [of _ "e1 # ess"]) simp
qed simp

section \<open>The plan covers every masked cell\<close>

definition event_ok :: "nat list \<Rightarrow> change \<Rightarrow> bool" where
  "event_ok idx ev = (case ch_row ev of None \<Rightarrow> True | Some row \<Rightarrow> tuple_wf row \<and> keyed idx (cells_of row))"

lemma op_ok_new_image: "op_ok idx (Op_Update old row fl) \<Longrightarrow> keyed idx (new_image idx old row)"
  by (cases old) (simp_all add: new_image_def)

lemma captures_ok: "\<lbrakk>captures idx op es; op_ok idx op; ev \<in> set es\<rbrakk> \<Longrightarrow> event_ok idx ev"
  by (induction rule: captures.induct) (auto simp: event_ok_def new_image_def dest: op_ok_new_image)

definition source_key :: "nat list \<Rightarrow> change \<Rightarrow> tuple \<Rightarrow> key" where
  "source_key idx ev row = (case ch_moved ev of Some k \<Rightarrow> k | None \<Rightarrow> row_key idx (cells_of row))"

definition covers :: "nat list \<Rightarrow> key list \<Rightarrow> nat list \<Rightarrow> change \<Rightarrow> bool" where
  "covers idx keys cols ev \<longleftrightarrow>
     (\<forall>row. ch_op ev \<noteq> CDelete \<longrightarrow> ch_row ev = Some row \<longrightarrow> UnchangedToast \<in> set (cells_of row) \<longrightarrow>
        source_key idx ev row \<in> set keys \<and>
        (\<forall>i < length (cells_of row). cells_of row ! i = UnchangedToast \<longrightarrow> i \<in> set cols))"

lemma set_set_insert [simp]: "set (set_insert i xs) = insert i (set xs)"
  by (auto simp: set_insert_def set_insort_key)

lemma mask_columns_wf:
  "tuple_wf row \<Longrightarrow> \<forall>i \<in> set is. i < length (cells row) \<Longrightarrow>
   \<exists>cols'. mask_columns row is cols = Inr (cols', \<exists>i \<in> set is. cells_of row ! i = UnchangedToast)
         \<and> set cols' = set cols \<union> {i \<in> set is. cells_of row ! i = UnchangedToast}"
proof (induction "is" arbitrary: cols)
  case (Cons i "is")
  let ?cols = "if cells_of row ! i = UnchangedToast then set_insert i cols else cols"
  obtain cols' where "mask_columns row is ?cols = Inr (cols', \<exists>i \<in> set is. cells_of row ! i = UnchangedToast)"
      "set cols' = set ?cols \<union> {i \<in> set is. cells_of row ! i = UnchangedToast}"
    using Cons.IH [of ?cols] Cons.prems by auto
  with Cons.prems show ?case by (auto simp: tuple_simps split: if_splits)
qed simp

lemma plan_event_ok:
  assumes "event_ok idx ev"
  shows "\<exists>s'. plan_event idx s ev = Inr s' \<and> set (fst s) \<subseteq> set (fst s') \<and> set (snd s) \<subseteq> set (snd s')
           \<and> covers idx (fst s') (snd s') ev"
proof (cases "ch_op ev = CDelete \<or> ch_row ev = None")
  case True
  then have "plan_event idx s ev = Inr s" by (cases "ch_op ev") (auto simp: plan_event_def)
  with True show ?thesis by (auto simp: covers_def)
next
  case False
  then obtain row where row: "ch_row ev = Some row" "ch_op ev \<noteq> CDelete" by auto
  with assms have wf: "tuple_wf row" "keyed idx (cells_of row)" by (auto simp: event_ok_def)
  obtain cols' where cols: "mask_columns row [0..<tuple_len row] (snd s) =
        Inr (cols', \<exists>i \<in> set [0..<tuple_len row]. cells_of row ! i = UnchangedToast)"
      "set cols' = set (snd s) \<union> {i \<in> set [0..<tuple_len row]. cells_of row ! i = UnchangedToast}"
    using mask_columns_wf [OF wf(1), of "[0..<tuple_len row]"] by (auto simp: tuple_len_def)
  have any: "(\<exists>i \<in> set [0..<tuple_len row]. cells_of row ! i = UnchangedToast) \<longleftrightarrow> UnchangedToast \<in> set (cells_of row)"
    by (auto simp: in_set_conv_nth tuple_len_def)
  have key: "change_source idx ev row = Inr (source_key idx ev row)"
    using wf by (auto simp: change_source_def source_key_def key_of_wf split: option.splits)
  have "plan_event idx s ev = Inr
      (if UnchangedToast \<in> set (cells_of row) \<and> source_key idx ev row \<notin> set (fst s)
       then fst s @ [source_key idx ev row] else fst s, cols')"
    using row cols(1) any key by (cases "ch_op ev") (auto simp: plan_event_def)
  with row cols(2) show ?thesis
    by (auto simp: covers_def tuple_len_def)
qed

lemma covers_mono: "\<lbrakk>covers idx ks cs ev; set ks \<subseteq> set ks'; set cs \<subseteq> set cs'\<rbrakk> \<Longrightarrow> covers idx ks' cs' ev"
  unfolding covers_def by blast

lemma plan_covers:
  "\<forall>ev \<in> set evs. event_ok idx ev \<Longrightarrow>
   \<exists>s'. fold_results (plan_event idx) s evs = Inr s' \<and> set (fst s) \<subseteq> set (fst s') \<and> set (snd s) \<subseteq> set (snd s')
      \<and> (\<forall>ev \<in> set evs. covers idx (fst s') (snd s') ev)"
proof (induction evs arbitrary: s)
  case (Cons ev evs)
  obtain s1 where s1: "plan_event idx s ev = Inr s1" "set (fst s) \<subseteq> set (fst s1)" "set (snd s) \<subseteq> set (snd s1)"
      "covers idx (fst s1) (snd s1) ev"
    using plan_event_ok Cons.prems by (metis list.set_intros(1))
  obtain s2 where s2: "fold_results (plan_event idx) s1 evs = Inr s2" "set (fst s1) \<subseteq> set (fst s2)"
      "set (snd s1) \<subseteq> set (snd s2)" "\<forall>ev \<in> set evs. covers idx (fst s2) (snd s2) ev"
    using Cons.IH [of s1] Cons.prems by auto
  with s1 covers_mono [OF s1(4) s2(2,3)] show ?case by (intro exI [of _ s2]) auto
qed simp

section \<open>Every resolved record is the source's row\<close>

lemma value_cell_value: "c \<noteq> UnchangedToast \<Longrightarrow> value_cell (cell_value c) = c"
  by (cases c) simp_all

lemma resolve_cells_fill:
  "\<lbrakk>length cs = length r; UnchangedToast \<notin> set r;
    \<forall>i < length cs. cs ! i = UnchangedToast \<longrightarrow> held (j + i) = Some (cell_value (r ! i))\<rbrakk> \<Longrightarrow>
   resolve_cells names held j cs = Inr (fill cs r)"
proof (induction cs r arbitrary: j rule: list_induct2)
  case (Cons c cs b bs)
  have "held (Suc j + i) = Some (cell_value (bs ! i))" if "i < length cs" "cs ! i = UnchangedToast" for i
    using Cons.prems(2) [rule_format, of "Suc i"] that by simp
  then have "resolve_cells names held (Suc j) cs = Inr (fill cs bs)"
    using Cons.IH [of "Suc j"] Cons.prems(1) by simp
  moreover have "held j = Some (cell_value b)" if "c = UnchangedToast"
    using Cons.prems(2) [rule_format, of 0] that by simp
  ultimately show ?case using Cons.prems(1) by (auto simp: value_cell_value)
qed simp

lemma fill_whole: "\<lbrakk>length cs = length r; UnchangedToast \<notin> set r\<rbrakk> \<Longrightarrow> UnchangedToast \<notin> set (fill cs r)"
  by (induction cs r rule: list_induct2) auto

text \<open>What the carry knows: each row the table holds, whole, or the pre-window row.\<close>

definition carry_ok :: "table \<Rightarrow> nat \<Rightarrow> resolving \<Rightarrow> table \<Rightarrow> bool" where
  "carry_ok d0 n s d \<longleftrightarrow>
     (\<forall>j \<ge> rs_index s. rs_out s j = None) \<and>
     (\<forall>k r. d k = Some r \<longrightarrow> length r = n \<and> UnchangedToast \<notin> set r \<and>
        (case rs_carry s k of
           Some m \<Rightarrow> \<forall>i < n. m i = Some (cell_value (r ! i))
         | None \<Rightarrow> \<not> rs_truncated s \<and> d0 k = Some r))"

lemma carry_okD:
  assumes "carry_ok d0 n s d" "d k = Some r"
  shows "length r = n" "UnchangedToast \<notin> set r"
    "rs_carry s k = Some m \<Longrightarrow> i < n \<Longrightarrow> m i = Some (cell_value (r ! i))"
    "rs_carry s k = None \<Longrightarrow> \<not> rs_truncated s \<and> d0 k = Some r"
proof -
  have "length r = n \<and> UnchangedToast \<notin> set r \<and>
      (case rs_carry s k of Some m \<Rightarrow> \<forall>i < n. m i = Some (cell_value (r ! i))
       | None \<Rightarrow> \<not> rs_truncated s \<and> d0 k = Some r)"
    using assms unfolding carry_ok_def by blast
  then show "length r = n" "UnchangedToast \<notin> set r"
    "rs_carry s k = Some m \<Longrightarrow> i < n \<Longrightarrow> m i = Some (cell_value (r ! i))"
    "rs_carry s k = None \<Longrightarrow> \<not> rs_truncated s \<and> d0 k = Some r"
    by simp_all
qed

definition base_ok :: "table \<Rightarrow> key list \<Rightarrow> nat list \<Rightarrow> base \<Rightarrow> bool" where
  "base_ok d0 keys cols b \<longleftrightarrow>
     (\<forall>k \<in> set keys. b k = map_option (\<lambda>r. map (\<lambda>i. cell_value (r ! i)) cols) (d0 k))"

lemma held_value_row:
  assumes "carry_ok d0 n s d" "base_ok d0 keys cols b" "d k = Some r" "k \<in> set keys" "i < n" "i \<in> set cols"
  shows "held_value cols b (rs_truncated s) (rs_carry s) k i = Some (cell_value (r ! i))"
proof (cases "rs_carry s k")
  case None
  then have "\<not> rs_truncated s" "b k = Some (map (\<lambda>i. cell_value (r ! i)) cols)"
    using carry_okD(4) [OF assms(1,3)] assms(2,4) by (auto simp: base_ok_def)
  moreover obtain p where "position (\<lambda>c. c = i) cols = Some p" "p < length cols" "cols ! p = i"
    using assms(6) position_None [of "\<lambda>c. c = i" cols] position_Some [of "\<lambda>c. c = i" cols]
    by (cases "position (\<lambda>c. c = i) cols") auto
  ultimately show ?thesis by (simp add: held_value_def None)
next
  case (Some m)
  then show ?thesis using carry_okD(3) [OF assms(1,3) Some assms(5)] by (simp add: held_value_def)
qed

text \<open>One image: the cells it resolves to, and the row the table then holds.\<close>

lemma resolve_image:
  assumes "carry_ok d0 n s d" "base_ok d0 keys cols b" "covers idx keys cols ev"
    and "ch_row ev = Some row" "ch_op ev = CInsert \<or> ch_op ev = CUpdate"
    and "tuple_wf row" "keyed idx (cells_of row)" "length (cells_of row) = n"
    and "UnchangedToast \<in> set (cells_of row) \<Longrightarrow> d (source_key idx ev row) = Some r"
    and "whole_row = (if UnchangedToast \<in> set (cells_of row) then fill (cells_of row) r else cells_of row)"
    and "UnchangedToast \<in> set (cells_of row) \<Longrightarrow> text_bytes whole_row < 2 ^ 32"
    and "\<And>k. k \<noteq> row_key idx (cells_of row) \<Longrightarrow> d' k = d k \<or> d' k = None"
    and "d' (row_key idx (cells_of row)) = Some whole_row"
  shows "\<exists>s'. resolve_event idx names cols b s ev = Inr s' \<and> carry_ok d0 n s' d' \<and> rs_index s' = rs_index s + 1
           \<and> (\<forall>j < rs_index s. rs_out s' j = rs_out s j) \<and> written (rs_out s') (rs_index s) ev = (ch_op ev, Some whole_row)"
proof -
  let ?k = "row_key idx (cells_of row)"
  have r: "length r = n" "UnchangedToast \<notin> set r" if "UnchangedToast \<in> set (cells_of row)"
    using carry_okD(1,2) [OF assms(1)] assms(9) that by blast+
  have res: "(if UnchangedToast \<in> set (cells_of row)
      then resolve_cells names (held_value cols b (rs_truncated s) (rs_carry s) (source_key idx ev row)) 0 (cells_of row)
      else Inr (cells_of row)) = Inr whole_row"
  proof (cases "UnchangedToast \<in> set (cells_of row)")
    case True
    have cov: "source_key idx ev row \<in> set keys"
        "\<forall>i < length (cells_of row). cells_of row ! i = UnchangedToast \<longrightarrow> i \<in> set cols"
      using assms(3-5) True unfolding covers_def by auto
    have "resolve_cells names (held_value cols b (rs_truncated s) (rs_carry s) (source_key idx ev row)) 0 (cells_of row)
        = Inr (fill (cells_of row) r)"
      using held_value_row [OF assms(1,2) assms(9) [OF True] cov(1)] cov(2) r [OF True] assms(8)
      by (intro resolve_cells_fill) auto
    with True assms(10) show ?thesis by simp
  qed (use assms(10) in simp)
  let ?s' = "s\<lparr>rs_carry := (rs_carry s)(?k \<mapsto> carry_cells whole_row (case rs_carry s ?k of Some m \<Rightarrow> m | None \<Rightarrow> Map.empty)),
      rs_out := (if UnchangedToast \<in> set (cells_of row) then (rs_out s)(rs_index s \<mapsto> from_cells whole_row) else rs_out s),
      rs_index := rs_index s + 1\<rparr>"
  have ev: "resolve_event idx names cols b s ev = Inr ?s'"
    using assms(4-7) res
    by (auto simp: resolve_event_def Let_def tuple_simps key_of_wf source_key_def split: option.splits)
  have whole: "length whole_row = n" "UnchangedToast \<notin> set whole_row"
    using assms(8,10) r fill_whole [of "cells_of row" r] by auto
  have "carry_ok d0 n ?s' d'"
    unfolding carry_ok_def
  proof (intro conjI allI impI)
    fix k x
    assume x: "d' k = Some x"
    show "length x = n" "UnchangedToast \<notin> set x"
      using x assms(1,12,13) whole by (cases "k = ?k"; force simp: carry_ok_def)+
    show "case rs_carry ?s' k of Some m \<Rightarrow> \<forall>i < n. m i = Some (cell_value (x ! i))
        | None \<Rightarrow> \<not> rs_truncated ?s' \<and> d0 k = Some x"
    proof (cases "k = ?k")
      case True
      with x assms(13) whole show ?thesis by (auto simp: carry_cells_def) (metis nth_mem)
    next
      case False
      with x assms(12) have "d k = Some x" by force
      with False show ?thesis
        using carry_okD(3,4) [OF assms(1) \<open>d k = Some x\<close>] by (cases "rs_carry s k") simp_all
    qed
  qed (use assms(1) in \<open>auto simp: carry_ok_def\<close>)
  moreover have "written (rs_out ?s') (rs_index s) ev = (ch_op ev, Some whole_row)"
    using assms(1,4,10,11) by (auto simp: written_def carry_ok_def cells_of_from_cells)
  ultimately show ?thesis using ev by (intro exI [of _ ?s']) simp
qed

fun written_from :: "(nat \<rightharpoonup> tuple) \<Rightarrow> nat \<Rightarrow> change list \<Rightarrow> log_record list" where
  "written_from out i [] = []"
| "written_from out i (ev # evs) = written out i ev # written_from out (Suc i) evs"

lemma written_from_cong:
  "\<forall>j < i + length evs. out j = out' j \<Longrightarrow> written_from out i evs = written_from out' i evs"
  by (induction evs arbitrary: i) (auto simp: written_def)

lemma written_from_append:
  "written_from out i (evs @ evs') = written_from out i evs @ written_from out (i + length evs) evs'"
  by (induction evs arbitrary: i) simp_all

text \<open>A delete record writes nothing into the carry.\<close>

lemma carry_ok_skip:
  assumes "carry_ok d0 n s d" "\<And>k. d' k = d k \<or> d' k = None"
  shows "carry_ok d0 n (s\<lparr>rs_index := rs_index s + 1\<rparr>) d'"
proof -
  have old: "d k = Some r" if "d' k = Some r" for k r using assms(2) [of k] that by auto
  have "case rs_carry s k of Some m \<Rightarrow> \<forall>i < n. m i = Some (cell_value (r ! i))
      | None \<Rightarrow> \<not> rs_truncated s \<and> d0 k = Some r" if "d' k = Some r" for k r
    using carry_okD(3,4) [OF assms(1) old [OF that]] by (cases "rs_carry s k") simp_all
  with assms(1) carry_okD(1,2) [OF assms(1) old] show ?thesis
    unfolding carry_ok_def by (simp cong: option.case_cong)
qed

lemma resolve_delete:
  assumes "carry_ok d0 n s d" "\<And>k. d' k = d k \<or> d' k = None"
  shows "\<exists>s'. resolve_event idx names cols b s \<lparr>ch_op = CDelete, ch_row = Some old, ch_moved = None\<rparr> = Inr s'
           \<and> carry_ok d0 n s' d' \<and> rs_index s' = rs_index s + 1 \<and> rs_out s' = rs_out s \<and> rs_out s (rs_index s) = None"
  using carry_ok_skip [OF assms] assms(1)
  by (intro exI [of _ "s\<lparr>rs_index := rs_index s + 1\<rparr>"]) (simp add: resolve_event_def Let_def carry_ok_def)

lemma resolve_op:
  assumes "carry_ok d0 n s d" "base_ok d0 keys cols b" "log_ok idx n d op" "captures idx op evs"
    and "\<forall>ev \<in> set evs. covers idx keys cols ev"
  shows "\<exists>s'. fold_results (resolve_event idx names cols b) s evs = Inr s' \<and> carry_ok d0 n s' (apply_event idx op d)
           \<and> rs_index s' = rs_index s + length evs \<and> (\<forall>j < rs_index s. rs_out s' j = rs_out s j)
           \<and> written_from (rs_out s') (rs_index s) evs = true_records idx d op"
  using assms(4)
proof cases
  case (ins row)
  with assms show ?thesis
    using resolve_image [OF assms(1,2), where idx = idx and ev = "hd evs" and row = row
        and whole_row = "cells_of row" and d' = "apply_event idx op d" and names = names]
    by (force simp: result_simps)
next
  case (del old)
  have "(d(row_key idx (cells_of old) := None)) k = d k \<or> (d(row_key idx (cells_of old) := None)) k = None" for k
    by simp
  from resolve_delete [OF assms(1), of "d(row_key idx (cells_of old) := None)", OF this, of idx names cols b old] del
  show ?thesis by (auto simp: result_simps written_def)
next
  case trunc
  then show ?thesis using assms(1)
    by (auto simp: resolve_event_def Let_def written_def carry_ok_def split: option.splits)
next
  case (upd row' old row fl)
  let ?new = "new_image idx old row" and ?full = "updated_row idx d old row"
  have ok: "op_ok idx (Op_Update old row fl)" "length (cells_of row) = n" "text_bytes ?full < 2 ^ 32"
      "UnchangedToast \<in> set ?new \<Longrightarrow> d (updated_key idx old row) \<noteq> None"
    using assms(3) upd(1) by auto
  have d': "apply_event idx op d = d(row_key idx ?new \<mapsto> ?full)"
    using upd(1,5) ok(4)
    by (cases old) (auto simp: updated_row_def updated_key_def new_image_def masked_at_def Let_def)
  have "length (cells_of row') = n" using upd(4) ok(2) by (cases old) (simp_all add: new_image_def)
  then have "\<exists>s'. resolve_event idx names cols b s (hd evs) = Inr s' \<and> carry_ok d0 n s' (d(row_key idx ?new \<mapsto> ?full))
      \<and> rs_index s' = rs_index s + 1 \<and> (\<forall>j < rs_index s. rs_out s' j = rs_out s j)
      \<and> written (rs_out s') (rs_index s) (hd evs) = (ch_op (hd evs), Some ?full)"
    using assms(5) upd(2-5) ok(3,4) op_ok_new_image [OF ok(1)]
    by (intro resolve_image [OF assms(1,2), where row = row' and r = "the (d (updated_key idx old row))"])
      (auto simp: updated_row_def source_key_def Let_def)
  moreover have "true_records idx d op = [(CUpdate, Some ?full)]"
    using upd(1,5) by (auto simp: updated_key_def split: option.splits)
  ultimately show ?thesis using upd(2) unfolding d' by (force simp: result_simps)
next
  case (move row' o' row fl)
  let ?new = "new_image idx (Some o') row" and ?full = "updated_row idx d (Some o') row"
  let ?D = "\<lparr>ch_op = CDelete, ch_row = Some o', ch_moved = None\<rparr>"
  have ok: "op_ok idx (Op_Update (Some o') row fl)" "length (cells_of row) = n" "text_bytes ?full < 2 ^ 32"
      "UnchangedToast \<in> set ?new \<Longrightarrow> d (row_key idx (cells_of o')) \<noteq> None"
    using assms(3) move(1) by (auto simp: updated_key_def)
  have d': "apply_event idx op d = d(row_key idx (cells_of o') := None, row_key idx ?new \<mapsto> ?full)"
    using move(1,5) ok(4) by (auto simp: updated_row_def updated_key_def new_image_def moved_def Let_def)
  obtain s1 where s1: "resolve_event idx names cols b s ?D = Inr s1" "carry_ok d0 n s1 d"
      "rs_index s1 = rs_index s + 1" "rs_out s1 = rs_out s" "rs_out s (rs_index s) = None"
    using resolve_delete [OF assms(1), of d] by blast
  have "length (cells_of row') = n" using move(4) ok(2) by (simp add: new_image_def)
  then have "\<exists>s'. resolve_event idx names cols b s1 (last evs) = Inr s'
      \<and> carry_ok d0 n s' (d(row_key idx (cells_of o') := None, row_key idx ?new \<mapsto> ?full))
      \<and> rs_index s' = rs_index s1 + 1 \<and> (\<forall>j < rs_index s1. rs_out s' j = rs_out s1 j)
      \<and> written (rs_out s') (rs_index s1) (last evs) = (ch_op (last evs), Some ?full)"
    using assms(5) move(2-5) ok(3,4) op_ok_new_image [OF ok(1)]
    by (intro resolve_image [OF s1(2) assms(2), where row = row' and r = "the (d (row_key idx (cells_of o')))"])
      (auto simp: updated_row_def updated_key_def source_key_def Let_def)
  then obtain s2 where s2: "resolve_event idx names cols b s1 (last evs) = Inr s2"
      "carry_ok d0 n s2 (d(row_key idx (cells_of o') := None, row_key idx ?new \<mapsto> ?full))" "rs_index s2 = rs_index s1 + 1"
      "\<forall>j < rs_index s1. rs_out s2 j = rs_out s1 j"
      "written (rs_out s2) (rs_index s1) (last evs) = (ch_op (last evs), Some ?full)" by blast
  have "true_records idx d op = [(CDelete, Some (cells_of o')), (CUpdate, Some ?full)]"
    using move(1,5) by simp
  moreover have "written (rs_out s2) (rs_index s) ?D = (CDelete, Some (cells_of o'))"
    using s1(3-5) s2(4) by (simp add: written_def)
  ultimately show ?thesis
    using s1 s2 move(2) unfolding d' by (intro exI [of _ s2]) (simp add: result_simps)
qed

lemma resolve_log:
  "\<lbrakk>list_all2 (captures idx) es ess; carry_ok d0 n s d; base_ok d0 keys cols b;
    all_along (log_ok idx n) (apply_event idx) d es; \<forall>evs \<in> set ess. \<forall>ev \<in> set evs. covers idx keys cols ev\<rbrakk> \<Longrightarrow>
   \<exists>s'. fold_results (resolve_event idx names cols b) s (concat ess) = Inr s'
      \<and> (\<forall>j < rs_index s. rs_out s' j = rs_out s j)
      \<and> written_from (rs_out s') (rs_index s) (concat ess) = true_log idx d es"
proof (induction es ess arbitrary: s d rule: list_all2_induct)
  case (Cons op es evs ess)
  obtain s1 where s1: "fold_results (resolve_event idx names cols b) s evs = Inr s1"
      "carry_ok d0 n s1 (apply_event idx op d)" "rs_index s1 = rs_index s + length evs"
      "\<forall>j < rs_index s. rs_out s1 j = rs_out s j"
      "written_from (rs_out s1) (rs_index s) evs = true_records idx d op"
    using resolve_op [OF Cons.prems(1,2) _ Cons.hyps(1)] Cons.prems(3,4) by force
  obtain s2 where s2: "fold_results (resolve_event idx names cols b) s1 (concat ess) = Inr s2"
      "\<forall>j < rs_index s1. rs_out s2 j = rs_out s1 j"
      "written_from (rs_out s2) (rs_index s1) (concat ess) = true_log idx (apply_event idx op d) es"
    using Cons.IH [OF s1(2) Cons.prems(2)] Cons.prems(3,4) by auto
  have "written_from (rs_out s2) (rs_index s) evs = written_from (rs_out s1) (rs_index s) evs"
    using s2(2) s1(3) by (intro written_from_cong) simp
  with s1 s2 show ?case
    by (intro exI [of _ s2]) (simp add: fold_results_append written_from_append)
qed simp

lemma log_ok_op_ok: "log_ok idx n d op \<Longrightarrow> op_ok idx op"
  by (cases "(idx, n, d, op)" rule: log_ok.cases) auto

lemma all_along_log_ok: "all_along (log_ok idx n) (apply_event idx) d es \<Longrightarrow> \<forall>op \<in> set es. op_ok idx op"
  by (induction es arbitrary: d) (auto dest: log_ok_op_ok)

lemma resolve_window:
  assumes "all_along (log_ok (l_key_idx l) n) (apply_event (l_key_idx l)) d es"
    and "\<forall>k r. d k = Some r \<longrightarrow> length r = n \<and> UnchangedToast \<notin> set r"
    and "fold_results changes_op (changes_new l) es = Inr c"
    and "mask_plan c = Inr (keys, cols)" "base_ok d keys cols b"
  shows "\<exists>out. resolve_masked c cols b = Inr out
             \<and> written_from out 0 (ch_events c) = true_log (l_key_idx l) d es"
proof -
  let ?idx = "l_key_idx l"
  note ops = all_along_log_ok [OF assms(1)]
  obtain ess where ess: "list_all2 (captures ?idx) es ess" "ch_events c = concat ess" "ch_layout c = l"
    using changes_capture [OF ops _ assms(3)] by (auto simp: changes_new_def)
  have "event_ok ?idx ev" if "ev \<in> set (concat ess)" for ev
    using ess(1) ops that by (induction rule: list_all2_induct) (auto dest: captures_ok)
  then have "\<forall>ev \<in> set (ch_events c). covers ?idx keys cols ev"
    using plan_covers [of "ch_events c" ?idx "([], [])"] assms(4) ess by (auto simp: mask_plan_def)
  moreover have "carry_ok d n \<lparr>rs_carry = Map.empty, rs_truncated = False, rs_out = Map.empty, rs_index = 0\<rparr> d"
    using assms(2) by (simp add: carry_ok_def)
  ultimately show ?thesis
    using resolve_log [OF ess(1) _ assms(5,1), where names = "l_cols l"] ess(2,3)
    by (fastforce simp: resolve_masked_def)
qed

text \<open>
  C4: a changelog window writes the source's own rows. With the readback of the plan's
  keys and columns as they were before the window, resolving never refuses the window, and
  the records it writes are, in order, the ones the source's full rows give: an untouched
  value is never written as NULL, through updates, moves, deletes and truncates.
\<close>

theorem changelog_records:
  assumes "all_along (log_ok (l_key_idx l) n) (apply_event (l_key_idx l)) d es"
    and "\<forall>k r. d k = Some r \<longrightarrow> length r = n \<and> UnchangedToast \<notin> set r"
    and "fold_results changes_op (changes_new l) es = Inr c"
    and "mask_plan c = Inr (keys, cols)" "base_ok d keys cols b"
  shows "\<exists>out. resolve_masked c cols b = Inr out
             \<and> written_from out 0 (ch_events c) = true_log (l_key_idx l) d es"
  using resolve_window [OF assms] .

text \<open>A readback of a table at the planned columns.\<close>

definition readback :: "table \<Rightarrow> nat list \<Rightarrow> base" where
  "readback d cols = (\<lambda>k. map_option (\<lambda>r. map (\<lambda>i. cell_value (r ! i)) cols) (d k))"

lemma readback_ok: "base_ok d keys cols (readback d cols)"
  by (simp add: base_ok_def readback_def)

lemma changes_plan_total:
  assumes "\<forall>op \<in> set es. op_ok (l_key_idx l) op"
  obtains c keys cols where "fold_results changes_op (changes_new l) es = Inr c" "mask_plan c = Inr (keys, cols)"
proof -
  let ?idx = "l_key_idx l"
  obtain c where c: "fold_results changes_op (changes_new l) es = Inr c"
    using changes_machine.run_total [of "changes_new l" ?idx es] assms by (auto simp: changes_new_def)
  obtain ess where ess: "list_all2 (captures ?idx) es ess" "ch_events c = concat ess" "ch_layout c = l"
    using changes_capture [OF assms _ c] by (auto simp: changes_new_def)
  have "event_ok ?idx ev" if "ev \<in> set (concat ess)" for ev
    using ess(1) assms that by (induction rule: list_all2_induct) (auto dest: captures_ok)
  with plan_covers [of "concat ess" ?idx "([], [])"] ess that c show ?thesis
    by (auto simp: mask_plan_def)
qed

definition masked_window :: "stream_op list" where
  "masked_window =
     [Op_Update (Some (sample_row ''1'' ''a'')) (masked_row ''9'') False,
      Op_Update None (masked_row ''9'') False,
      Op_Delete (sample_row ''3'' ''c'')]"

lemma masked_window_ok:
  "all_along (log_ok (l_key_idx sample_layout) 2) (apply_event (l_key_idx sample_layout)) sample_table masked_window"
  by (simp add: masked_window_def sample_table_def sample_eval ascii_def new_image_def updated_key_def updated_row_def
      moved_def Let_def)

lemma sample_table_rows: "\<forall>k r. sample_table k = Some r \<longrightarrow> length r = 2 \<and> UnchangedToast \<notin> set r"
  by (auto simp: sample_table_def split: if_splits)

theorem changelog_records_witness:
  "\<exists>c keys cols out. fold_results changes_op (changes_new sample_layout) masked_window = Inr c
     \<and> mask_plan c = Inr (keys, cols) \<and> resolve_masked c cols (readback sample_table cols) = Inr out
     \<and> written_from out 0 (ch_events c) = true_log (l_key_idx sample_layout) sample_table masked_window"
proof -
  obtain c keys cols where c: "fold_results changes_op (changes_new sample_layout) masked_window = Inr c"
      "mask_plan c = Inr (keys, cols)"
    using changes_plan_total [OF all_along_log_ok [OF masked_window_ok]] .
  from changelog_records [OF masked_window_ok sample_table_rows c readback_ok] c show ?thesis by blast
qed

section \<open>The table a reader of the log derives\<close>

lemma nth_fill: "\<lbrakk>i < length cs; cs ! i \<noteq> UnchangedToast\<rbrakk> \<Longrightarrow> fill cs r ! i = cs ! i"
proof (induction cs r arbitrary: i rule: fill.induct)
  case (1 c cs b bs)
  then show ?case by (cases i) auto
qed simp_all

lemma row_key_fill: "keyed idx cs \<Longrightarrow> row_key idx (fill cs r) = row_key idx cs"
  by (auto simp: keyed_def row_key_def list_all_iff) (metis cell.distinct(5) nth_fill)

lemma read_true_records:
  assumes "log_ok idx n d op"
  shows "fold (read_record idx) (true_records idx d op) d = apply_event idx op d"
proof (cases op)
  case (Op_Update old row fl)
  let ?new = "new_image idx old row"
  have ok: "keyed idx ?new" "UnchangedToast \<in> set ?new \<Longrightarrow> d (updated_key idx old row) \<noteq> None"
    using assms Op_Update op_ok_new_image [of idx old row fl] by auto
  have key: "row_key idx (updated_row idx d old row) = row_key idx ?new"
    by (simp add: updated_row_def Let_def row_key_fill ok(1))
  show ?thesis
    using ok(2) key Op_Update
    by (cases old) (auto simp: updated_row_def updated_key_def new_image_def masked_at_def moved_def Let_def)
qed simp_all

lemma read_true_log:
  "all_along (log_ok idx n) (apply_event idx) d es \<Longrightarrow>
   fold (read_record idx) (true_log idx d es) d = fold (apply_event idx) es d"
  by (induction es arbitrary: d) (auto simp: read_true_records)

text \<open>
  C31: a reader of the written log who keeps, per key, the last record and drops the keys
  whose last record is a delete or lies before a truncate derives the source's table.
\<close>

theorem changelog_current:
  assumes "all_along (log_ok (l_key_idx l) n) (apply_event (l_key_idx l)) d es"
    and "\<forall>k r. d k = Some r \<longrightarrow> length r = n \<and> UnchangedToast \<notin> set r"
    and "fold_results changes_op (changes_new l) es = Inr c" "mask_plan c = Inr (keys, cols)"
    and "resolve_masked c cols (readback d cols) = Inr out"
  shows "fold (read_record (l_key_idx l)) (written_from out 0 (ch_events c)) d = fold (apply_event (l_key_idx l)) es d"
  using resolve_window [OF assms(1-4) readback_ok] read_true_log [OF assms(1)] assms(5) by auto

theorem changelog_current_witness:
  "\<exists>c keys cols out. fold_results changes_op (changes_new sample_layout) masked_window = Inr c
     \<and> mask_plan c = Inr (keys, cols) \<and> resolve_masked c cols (readback sample_table cols) = Inr out
     \<and> fold (read_record (l_key_idx sample_layout)) (written_from out 0 (ch_events c)) sample_table
       = fold (apply_event (l_key_idx sample_layout)) masked_window sample_table"
proof -
  obtain c keys cols where c: "fold_results changes_op (changes_new sample_layout) masked_window = Inr c"
      "mask_plan c = Inr (keys, cols)"
    using changes_plan_total [OF all_along_log_ok [OF masked_window_ok]] .
  obtain out where out: "resolve_masked c cols (readback sample_table cols) = Inr out"
    using resolve_window [OF masked_window_ok sample_table_rows c readback_ok] by blast
  from changelog_current [OF masked_window_ok sample_table_rows c out] c out show ?thesis by blast
qed

end
