(* ===== verification/Collapse_Correct.thy ===== *)
theory Collapse_Correct
  imports Replica
begin

text \<open>
  The properties of the collapse: a collapsed window, applied in the destinations' order,
  leaves the table that replaying its events one by one leaves; what the sealed lists
  contain; when a window may be applied twice; and which residue ops may find no row.
\<close>

section \<open>The collapser as a refining machine\<close>

interpretation collapse_machine: refining_machine collapse_op "collapser_inv idx" "op_ok idx"
  "meaning idx d" "apply_event idx" "names_row idx" for idx d
proof
  fix c e c'
  assume "collapser_inv idx c" "op_ok idx e"
  note st = collapse_op_step [OF this, where d = d]
  show "\<exists>s'. collapse_op c e = Inr s'" by (rule st) blast
  show "collapse_op c e = Inr c' \<Longrightarrow> collapser_inv idx c'" by (rule st) simp
  show "names_row idx (meaning idx d c) e \<Longrightarrow> collapse_op c e = Inr c' \<Longrightarrow>
      meaning idx d c' = apply_event idx e (meaning idx d c)" by (rule st) simp
qed

lemma meaning_new [simp]: "meaning idx d (collapser_new l) = d"
  by (simp add: apply_collapsed_def collapser_finish_def collapser_new_def upsert_rows_def delete_keys_def)

section \<open>Replaying a window\<close>

text \<open>
  C1: a window of readable images collapses without an error, and applying the collapsed
  window in the destinations' order (truncate, deletes, upserts, residue) leaves the same
  table as replaying the source's events one by one, when every key change of a FULL image
  names the row the replica holds there.
\<close>

theorem collapse_replays:
  assumes "\<forall>op \<in> set es. op_ok (l_key_idx l) op"
    and "all_along (names_row (l_key_idx l)) (apply_event (l_key_idx l)) d es"
  shows "\<exists>c. fold_results collapse_op (collapser_new l) es = Inr c
           \<and> apply_collapsed (l_key_idx l) (collapser_finish c) d = fold (apply_event (l_key_idx l)) es d"
proof -
  obtain c where c: "fold_results collapse_op (collapser_new l) es = Inr c"
    using collapse_machine.run_total [OF collapser_inv_new assms(1)] by blast
  with collapse_machine.run_refines [OF collapser_inv_new assms(1) _ c, of d] assms(2) show ?thesis
    by simp
qed

theorem collapse_replays_witness:
  "\<exists>c. fold_results collapse_op (collapser_new sample_layout) sample_window = Inr c
     \<and> apply_collapsed (l_key_idx sample_layout) (collapser_finish c) sample_table
       = fold (apply_event (l_key_idx sample_layout)) sample_window sample_table"
  by (rule collapse_replays) (simp_all add: sample_window_def sample_eval ascii_def)

section \<open>What the sealed lists hold\<close>

lemma c_events_fields [simp]:
  "c_events (set_slot k s c) = c_events c" "c_events (push_upsert k del row c) = c_events c"
  "c_events (push_residue op c) = c_events c" "c_events (count_event c) = c_events c + 1"
  by (simp_all add: set_slot_def push_upsert_def push_residue_def count_event_def)

lemma write_upsert_events: "write_upsert seq v c = Inr c' \<Longrightarrow> c_events c' = c_events c"
  by (auto simp: write_upsert_def result_simps)

lemma put_delete_events: "put_delete k c = Inr c' \<Longrightarrow> c_events c' = c_events c"
  by (auto simp: put_delete_def result_simps dest!: write_upsert_events split: option.split_asm slot.split_asm)

lemma land_image_events: "land_image k toast row c = Inr c' \<Longrightarrow> c_events c' = c_events c"
  by (auto simp: land_image_def result_simps dest!: write_upsert_events split: option.split_asm slot.split_asm if_split_asm)

lemma leave_old_key_events: "leave_old_key fl old k c = Inr c' \<Longrightarrow> c_events c' = c_events c"
  by (auto simp: leave_old_key_def result_simps dest!: put_delete_events split: option.split_asm slot.split_asm if_split_asm)

lemma move_row_events: "move_row a b row c = Inr c' \<Longrightarrow> c_events c' = c_events c"
  by (auto simp: move_row_def result_simps Let_def)

lemma insert_events: "collapser_insert row c = Inr c' \<Longrightarrow> c_events c' = c_events c + 1"
  unfolding collapser_insert_def Let_def and_then_eq_Inr
  by (elim exE conjE)
    (auto simp: result_simps dest!: write_upsert_events split: option.split_asm slot.split_asm)

lemma collapse_op_events: "collapse_op c op = Inr c' \<Longrightarrow> c_events c' = c_events c + 1"
  by (cases op)
    (auto simp: insert_events update_image_def collapser_delete_def collapser_truncate_def Let_def result_simps
      dest!: write_upsert_events put_delete_events land_image_events leave_old_key_events move_row_events
      split: option.split_asm slot.split_asm if_split_asm)

lemma collapse_events: "fold_results collapse_op c es = Inr c' \<Longrightarrow> c_events c' = c_events c + length es"
  by (induction es arbitrary: c) (auto simp: result_simps dest!: collapse_op_events)

lemma inj_materialize: "inj_on materialize (range to_ckey)"
  by (auto simp: inj_on_def)

text \<open>
  C24: in a collapsed window no key is deleted twice and none is upserted twice, every
  upsert carries its whole key, every residue op has the position it was recorded at, and
  the event count is the number of the window's row operations.
\<close>

theorem collapsed_lists:
  assumes "\<forall>op \<in> set es. op_ok (l_key_idx l) op" "fold_results collapse_op (collapser_new l) es = Inr c"
  shows "distinct (deletes (collapser_finish c))
       \<and> distinct (map (\<lambda>u. row_key (l_key_idx l) (cells_of u)) (upserts (collapser_finish c)))
       \<and> (\<forall>u \<in> set (upserts (collapser_finish c)). tuple_wf u \<and> keyed (l_key_idx l) (cells_of u))
       \<and> length (residue_at (collapser_finish c)) = length (residue (collapser_finish c))
       \<and> events (collapser_finish c) = length es"
proof -
  have inv: "collapser_inv (l_key_idx l) c"
    by (rule collapse_machine.run_inv [OF collapser_inv_new assms])
  note p = inv_parts [OF inv]
  have "deletes (collapser_finish c) = map materialize (map fst (filter (\<lambda>(_, s). slot_del s) (c_map c)))"
    by (simp add: collapser_finish_def split_def)
  moreover have "inj_on materialize (set (map fst (filter (\<lambda>(_, s). slot_del s) (c_map c))))"
    using p(3) by (intro inj_on_subset [OF inj_materialize]) auto
  ultimately have "distinct (deletes (collapser_finish c))"
    using distinct_map_filter [OF p(2)] by (simp only: distinct_map [of materialize])
  moreover have "events (collapser_finish c) = length es"
    using collapse_events [OF assms(2)] by (simp add: collapser_finish_def collapser_new_def)
  ultimately show ?thesis
    using upsert_keys_distinct [OF inv] p(4,5,10)
    by (auto simp: set_finish_upserts) (simp add: collapser_finish_def)
qed

theorem collapsed_lists_witness:
  "let c = (case fold_results collapse_op (collapser_new sample_layout) sample_window of Inr c \<Rightarrow> c) in
     distinct (deletes (collapser_finish c))
     \<and> distinct (map (\<lambda>u. row_key (l_key_idx sample_layout) (cells_of u)) (upserts (collapser_finish c)))
     \<and> (\<forall>u \<in> set (upserts (collapser_finish c)). tuple_wf u \<and> keyed (l_key_idx sample_layout) (cells_of u))
     \<and> length (residue_at (collapser_finish c)) = length (residue (collapser_finish c))
     \<and> events (collapser_finish c) = length sample_window"
proof -
  have ok: "\<forall>op \<in> set sample_window. op_ok (l_key_idx sample_layout) op"
    by (simp add: sample_window_def sample_eval ascii_def)
  obtain c where "fold_results collapse_op (collapser_new sample_layout) sample_window = Inr c"
    using collapse_machine.run_total [OF collapser_inv_new ok] by blast
  with collapsed_lists [OF ok this] show ?thesis by simp
qed

text \<open>Every queued image is whole: the set phase never writes a masked cell.\<close>

definition whole :: "collapser \<Rightarrow> bool" where
  "whole c \<longleftrightarrow> (\<forall>u. Some u \<in> set (c_upserts c) \<longrightarrow> \<not> has_toast u)"

lemma whole_fields [simp]:
  "whole (set_slot k s c) = whole c" "whole (push_residue op c) = whole c" "whole (count_event c) = whole c"
  "whole (push_upsert k del row c) \<longleftrightarrow> whole c \<and> \<not> has_toast row"
  by (auto simp: whole_def)

lemma write_upsert_whole:
  "write_upsert seq v c = Inr c' \<Longrightarrow> whole c \<Longrightarrow> (\<And>u. v = Some u \<Longrightarrow> \<not> has_toast u) \<Longrightarrow> whole c'"
  using set_update_subset_insert [of "c_upserts c" seq v]
  by (auto simp: write_upsert_def write_list_def whole_def result_simps split: if_split_asm)

lemma put_delete_whole: "put_delete k c = Inr c' \<Longrightarrow> whole c \<Longrightarrow> whole c'"
  by (auto simp: put_delete_def result_simps dest!: write_upsert_whole split: option.split_asm slot.split_asm)

lemma land_image_whole: "land_image k t row c = Inr c' \<Longrightarrow> t = has_toast row \<Longrightarrow> whole c \<Longrightarrow> whole c'"
  by (auto simp: land_image_def result_simps elim!: write_upsert_whole
      split: option.split_asm slot.split_asm if_split_asm)

lemma leave_old_key_whole: "leave_old_key fl old k c = Inr c' \<Longrightarrow> whole c \<Longrightarrow> whole c'"
  by (auto simp: leave_old_key_def result_simps dest!: put_delete_whole
      split: option.split_asm slot.split_asm if_split_asm)

lemma move_row_whole: "move_row a b row c = Inr c' \<Longrightarrow> whole c \<Longrightarrow> whole c'"
  by (auto simp: move_row_def result_simps Let_def)

lemma insert_whole: "collapser_insert row c = Inr c' \<Longrightarrow> whole c \<Longrightarrow> \<not> has_toast row \<Longrightarrow> whole c'"
  unfolding collapser_insert_def Let_def and_then_eq_Inr
  by (elim exE conjE)
    (auto simp: result_simps elim!: write_upsert_whole split: option.split_asm slot.split_asm)

lemma update_whole: "update_image old fl row c = Inr c' \<Longrightarrow> whole c \<Longrightarrow> whole c'"
  unfolding update_image_def Let_def and_then_eq_Inr
  by (elim exE conjE)
    (auto simp: result_simps dest!: leave_old_key_whole move_row_whole elim!: land_image_whole
      split: option.split_asm if_split_asm)

lemma truncate_whole: "whole (collapser_truncate c)"
  by (simp add: whole_def collapser_truncate_def)

fun whole_insert :: "stream_op \<Rightarrow> bool" where
  "whole_insert (Op_Insert row) = (\<not> has_toast row)"
| "whole_insert _ = True"

lemma collapse_whole:
  "fold_results collapse_op c es = Inr c' \<Longrightarrow> whole c \<Longrightarrow> \<forall>op \<in> set es. whole_insert op \<Longrightarrow> whole c'"
proof (induction es arbitrary: c)
  case (Cons op es)
  then obtain c1 where c1: "collapse_op c op = Inr c1" "fold_results collapse_op c1 es = Inr c'"
    by (auto simp: result_simps)
  have "whole c1"
    using c1(1) Cons.prems
    by (cases op) (auto simp: collapser_delete_def truncate_whole Let_def result_simps
        dest: insert_whole update_whole put_delete_whole)
  with Cons c1(2) show ?case by simp
qed simp

text \<open>
  C25: the source sends whole rows on insert; then no upsert of a collapsed window contains
  an unsent value, on any sequence of updates: a masked image only ever reaches the
  ordered residue, where it is applied over the row it updates.
\<close>

theorem upserts_whole:
  assumes "fold_results collapse_op (collapser_new l) es = Inr c" "\<forall>op \<in> set es. whole_insert op"
    and "u \<in> set (upserts (collapser_finish c))"
  shows "\<not> has_toast u"
  using collapse_whole [OF assms(1) _ assms(2)] assms(3)
  by (auto simp: whole_def set_finish_upserts collapser_new_def)

theorem upserts_whole_witness:
  "sample_row ''2'' ''b'' \<in> set (upserts (collapser_finish
       (push_upsert (to_ckey [ascii ''2'']) False (sample_row ''2'' ''b'') (count_event (collapser_new sample_layout)))))
   \<and> \<not> has_toast (sample_row ''2'' ''b'')"
proof -
  let ?r = "sample_row ''2'' ''b''"
  have run: "fold_results collapse_op (collapser_new sample_layout) [Op_Insert ?r] =
      Inr (push_upsert (to_ckey [ascii ''2'']) False ?r (count_event (collapser_new sample_layout)))"
    by (simp add: collapser_insert_def key_of_row_wf sample_eval collapser_new_def count_event_def ascii_def Let_def)
  have "?r \<in> set (upserts (collapser_finish
      (push_upsert (to_ckey [ascii ''2'']) False ?r (count_event (collapser_new sample_layout)))))"
    by (simp add: set_finish_upserts)
  with upserts_whole [OF run _ this] show ?thesis
    by (simp add: tuple_simps sample_eval ascii_def)
qed

section \<open>Deferrable keys\<close>

lemma no_toast_key_from_old: "tuple_wf row \<Longrightarrow> \<not> has_toast row \<Longrightarrow> key_from_old idx old row = Inr row"
  by (auto simp: key_from_old_def any_toast_at_wf has_toast_iff in_set_conv_nth)

lemmas collapse_eval = update_image_def no_toast_key_from_old key_of_row_wf leave_old_key_def other_row_def
  put_delete_def land_image_def collapser_new_def count_event_def set_slot_def push_upsert_def tuple_simps
  apply_collapsed_def collapser_finish_def delete_keys_def upsert_rows_def

text \<open>
  A statement that swaps the keys of two rows under a deferrable key, logged with FULL
  old images, collapses to a window that lands both rows: the second old image names the
  pre-window row, so the image the first change queued at that key stays.
\<close>

lemma swap_lands:
  assumes "\<forall>r \<in> {o1, n1, o2, n2}. tuple_wf r \<and> keyed (l_key_idx l) (cells_of r) \<and> \<not> has_toast r"
    and "row_key (l_key_idx l) (cells_of o1) = a" "row_key (l_key_idx l) (cells_of n1) = b"
    and "row_key (l_key_idx l) (cells_of o2) = b" "row_key (l_key_idx l) (cells_of n2) = a"
    and "a \<noteq> b" "cells_of o2 \<noteq> cells_of n1"
  shows "\<exists>c. fold_results collapse_op (collapser_new l)
               [Op_Update (Some o1) n1 True, Op_Update (Some o2) n2 True] = Inr c
           \<and> apply_collapsed (l_key_idx l) (collapser_finish c) d = d(a \<mapsto> cells_of n2, b \<mapsto> cells_of n1)"
  using assms by (simp add: collapse_eval) (auto simp: fun_eq_iff)

text \<open>
  C33: the same protection does not reach a row the window never wrote: with row \<open>v\<close> at
  key \<open>b\<close> before the window, a deferrable-key statement that moves \<open>u\<close> from \<open>a\<close> over \<open>b\<close>
  and on to \<open>e\<close> leaves \<open>v\<close> at \<open>b\<close> in the source, and the collapsed window deletes it.
\<close>

theorem passing_row_deletes_resident:
  assumes "\<forall>r \<in> {ua, ub, ue}. tuple_wf r \<and> keyed (l_key_idx l) (cells_of r) \<and> \<not> has_toast r"
    and "row_key (l_key_idx l) (cells_of ua) = a" "row_key (l_key_idx l) (cells_of ub) = b"
    and "row_key (l_key_idx l) (cells_of ue) = e"
    and "distinct [a, b, e]" "d b = Some v" "v \<noteq> cells_of ub"
  shows "\<exists>c. fold_results collapse_op (collapser_new l)
               [Op_Update (Some ua) ub True, Op_Update (Some ub) ue True] = Inr c
           \<and> apply_collapsed (l_key_idx l) (collapser_finish c) d b = None"
  using assms by (simp add: collapse_eval write_upsert_def) force

theorem passing_row_deletes_resident_witness:
  "\<exists>c. fold_results collapse_op (collapser_new sample_layout)
         [Op_Update (Some (sample_row ''1'' ''a'')) (sample_row ''5'' ''a'') True,
          Op_Update (Some (sample_row ''5'' ''a'')) (sample_row ''7'' ''a'') True] = Inr c
     \<and> apply_collapsed (l_key_idx sample_layout) (collapser_finish c)
         [[ascii ''5''] \<mapsto> sample_cells ''5'' ''b''] [ascii ''5''] = None"
  by (rule passing_row_deletes_resident [where a = "[ascii ''1'']" and e = "[ascii ''7'']"
        and v = "sample_cells ''5'' ''b''"])
    (simp_all add: sample_eval tuple_simps ascii_def)

section \<open>Ops that may find no row\<close>

definition takes_away :: "key \<Rightarrow> residue_op \<Rightarrow> bool" where
  "takes_away k op = (case op of RDelete k' \<Rightarrow> k' = k | Rekey k' _ _ \<Rightarrow> k' = k | _ \<Rightarrow> False)"

lemma gone_iff: "k \<in> snd (deleted_later_from rs) \<longleftrightarrow> (\<exists>op \<in> set rs. takes_away k op)"
proof (induction rs)
  case (Cons op rs)
  then show ?case
    by (cases op; cases "deleted_later_from rs") (auto simp: takes_away_def)
qed simp

lemma deleted_later_Cons:
  "deleted_later (op # rs) =
     (case op of MaskedUpdate k _ \<Rightarrow> \<exists>op' \<in> set rs. takes_away k op'
      | Rekey _ k _ \<Rightarrow> \<exists>op' \<in> set rs. takes_away k op' | _ \<Rightarrow> False) # deleted_later rs"
  using gone_iff [of _ rs]
  by (cases op; cases "deleted_later_from rs") (simp_all add: deleted_later_def)

lemma length_deleted_later [simp]: "length (deleted_later rs) = length rs"
  by (induction rs) (simp_all add: deleted_later_Cons, simp add: deleted_later_def)

text \<open>
  A residue op is allowed to find no row exactly when it is a masked update or a move
  and a later op of the window deletes, or moves on, the row at the key it has to find.
\<close>

lemma deleted_later_iff:
  assumes "i < length rs"
  shows "deleted_later rs ! i \<longleftrightarrow>
    (\<exists>k. ((\<exists>row. rs ! i = MaskedUpdate k row) \<or> (\<exists>k' row. rs ! i = Rekey k' k row))
         \<and> (\<exists>j > i. j < length rs \<and> takes_away k (rs ! j)))"
  using assms
proof (induction rs arbitrary: i)
  case (Cons op rs)
  have ex: "(\<exists>op' \<in> set rs. takes_away k op') \<longleftrightarrow> (\<exists>j > 0. j < length (op # rs) \<and> takes_away k ((op # rs) ! j))" for k
    by (force simp: in_set_conv_nth gr0_conv_Suc)
  show ?case
  proof (cases i)
    case 0
    then show ?thesis unfolding 0 by (cases op) (simp_all add: deleted_later_Cons ex del: nth_Cons_Suc)
  next
    case (Suc i')
    have sh: "(\<exists>j > Suc i'. j < Suc (length rs) \<and> takes_away k ((op # rs) ! j)) \<longleftrightarrow>
        (\<exists>j > i'. j < length rs \<and> takes_away k (rs ! j))" for k
      by (force simp: Suc_less_eq2)
    from Cons Suc show ?thesis by (simp add: deleted_later_Cons sh)
  qed
qed simp

section \<open>Applying a window twice\<close>

lemma fill_fill: "length cs = length ds \<Longrightarrow> fill cs (fill ds bs) = fill (fill cs ds) bs"
proof (induction cs ds arbitrary: bs rule: list_induct2)
  case (Cons c cs d ds)
  then show ?case by (cases bs) simp_all
qed simp

lemma fill_self [simp]: "fill cs cs = cs"
  by (induction cs) simp_all

lemma fill_idem [simp]: "fill cs (fill cs bs) = fill cs bs"
  by (induction cs bs rule: fill.induct) simp_all

text \<open>What an op that is not a move does at one key, and the shape of a run of such ops.\<close>

fun at_key :: "nat list \<Rightarrow> key \<Rightarrow> residue_op \<Rightarrow> row option \<Rightarrow> row option" where
  "at_key idx b (MaskedUpdate k row) v = (if k = b then map_option (fill row) v else v)"
| "at_key idx b (RUpsert row) v = (if row_key idx row = b then Some row else v)"
| "at_key idx b (RDelete k) v = (if k = b then None else v)"
| "at_key idx b (Rekey _ _ _) v = v"

fun in_place :: "nat \<Rightarrow> residue_op \<Rightarrow> bool" where
  "in_place n (Rekey _ _ _) = False"
| "in_place n (MaskedUpdate _ row) = (length row = n)"
| "in_place n _ = True"

lemma apply_residue_at_key: "in_place n op \<Longrightarrow> apply_residue idx op d b = at_key idx b op (d b)"
  by (cases op) (auto simp: masked_at_def split: option.splits)

lemma fold_residue_at_key:
  "\<forall>op \<in> set rs. in_place n op \<Longrightarrow> fold (apply_residue idx) rs d b = fold (at_key idx b) rs (d b)"
proof (induction rs arbitrary: d)
  case (Cons op rs)
  then show ?case by (simp add: apply_residue_at_key [of n])
qed simp

definition absorbing :: "nat \<Rightarrow> (row option \<Rightarrow> row option) \<Rightarrow> bool" where
  "absorbing n f \<longleftrightarrow> f = id \<or> (\<exists>w. f = (\<lambda>_. w)) \<or> (\<exists>r. length r = n \<and> f = map_option (fill r))"

lemma absorbing_idem: "absorbing n f \<Longrightarrow> f (f v) = f v"
  by (auto simp: absorbing_def option.map_comp comp_def)

lemma absorbing_comp:
  assumes "absorbing n f" "absorbing n g"
  shows "absorbing n (\<lambda>v. g (f v))"
proof -
  consider "f = id" | w where "f = (\<lambda>_. w)" | r where "length r = n" "f = map_option (fill r)"
    using assms(1) unfolding absorbing_def by blast
  then show ?thesis
  proof cases
    case 3
    consider "g = id" | w where "g = (\<lambda>_. w)" | s where "length s = n" "g = map_option (fill s)"
      using assms(2) unfolding absorbing_def by blast
    then show ?thesis
    proof cases
      case s: 3
      have "(\<lambda>v. g (f v)) = map_option (fill (fill s r))"
        using 3 s by (auto simp: fun_eq_iff option.map_comp comp_def fill_fill)
      with s(1) show ?thesis unfolding absorbing_def by (metis length_fill)
    qed (use 3 in \<open>auto simp: absorbing_def id_def\<close>)
  qed (use assms(2) in \<open>auto simp: absorbing_def\<close>)
qed

lemma absorbing_at_key: "in_place n op \<Longrightarrow> absorbing n (at_key idx b op)"
  by (cases op) (auto simp: absorbing_def fun_eq_iff id_def)

lemma absorbing_fold: "\<forall>op \<in> set rs. in_place n op \<Longrightarrow> absorbing n (fold (at_key idx b) rs)"
proof (induction rs)
  case (Cons op rs)
  then show ?case
    using absorbing_comp [OF absorbing_at_key [of n op idx b]] by (simp add: comp_def)
qed (simp add: absorbing_def)

lemma upsert_rows_at:
  "(\<exists>w. \<forall>d. upsert_rows idx rs d b = w) \<or> (\<forall>d. upsert_rows idx rs d b = d b)"
proof (induction rs)
  case (Cons r rs)
  then show ?case by (auto simp: upsert_rows_def)
qed (simp add: upsert_rows_def)

text \<open>
  A window whose residue moves no row may be applied again: the second application
  changes nothing. This is what lets a window whose commit was not recorded be replayed.
\<close>

lemma reapply_in_place:
  assumes "\<forall>op \<in> set (residue c). in_place n op"
  shows "apply_collapsed idx c (apply_collapsed idx c d) = apply_collapsed idx c d"
proof
  fix b
  let ?f = "fold (at_key idx b) (residue c)"
  let ?set = "\<lambda>d. upsert_rows idx (map cells_of (upserts c)) (delete_keys (deletes c) (if truncated c then Map.empty else d)) b"
  have eq: "apply_collapsed idx c d b = ?f (?set d)" for d
    unfolding apply_collapsed_def by (rule fold_residue_at_key [OF assms])
  have "(\<exists>w. \<forall>d. ?set d = w) \<or> (\<forall>d. ?set d = d b)"
    using upsert_rows_at [of idx "map cells_of (upserts c)" b] by (auto simp: delete_keys_def)
  then show "apply_collapsed idx c (apply_collapsed idx c d) b = apply_collapsed idx c d b"
    using absorbing_idem [OF absorbing_fold [OF assms]] by (auto simp: eq)
qed



end
