(* ===== verification/Window.thy ===== *)
theory Window
  imports Changelog Collapse_Correct
begin

text \<open>
  Sealed windows (\<^verbatim>\<open>logbased/window.rs\<close>): what a body has to promise to be carried by a
  window (the trait \<^verbatim>\<open>WindowBody\<close>, as a locale), sealing a table's body with its layout,
  and the outcome of a drain.
\<close>

section \<open>Bodies\<close>

text \<open>\<open>Inl n\<close> names the width of the first row that does not fit.\<close>

fun misfit :: "('r \<Rightarrow> nat) \<Rightarrow> ('r \<Rightarrow> bool) \<Rightarrow> 'r list \<Rightarrow> nat + unit" where
  "misfit width fits [] = Inr ()"
| "misfit width fits (r # rs) = (if fits r then misfit width fits rs else Inl (width r))"

fun residue_row :: "residue_op \<Rightarrow> cell list option" where
  "residue_row (MaskedUpdate _ row) = Some row"
| "residue_row (RUpsert row) = Some row"
| "residue_row (Rekey _ _ row) = Some row"
| "residue_row (RDelete _) = None"

definition collapsed_rows_fit :: "collapsed \<Rightarrow> nat \<Rightarrow> nat + unit" where
  "collapsed_rows_fit c ncols =
     (case misfit tuple_len (\<lambda>row. tuple_len row = ncols) (upserts c) of
        Inl n \<Rightarrow> Inl n
      | Inr _ \<Rightarrow> misfit length (\<lambda>row. length row = ncols) (List.map_filter residue_row (residue c)))"

definition collapsed_event_count :: "collapsed \<Rightarrow> nat" where
  "collapsed_event_count c = events c"

definition change_fits :: "nat \<Rightarrow> change \<Rightarrow> bool" where
  "change_fits ncols ev =
     (case ch_row ev of
        None \<Rightarrow> True
      | Some row \<Rightarrow> (case ch_op ev of CDelete \<Rightarrow> tuple_len row \<le> ncols | _ \<Rightarrow> tuple_len row = ncols))"

definition change_width :: "change \<Rightarrow> nat" where
  "change_width ev = (case ch_row ev of None \<Rightarrow> 0 | Some row \<Rightarrow> tuple_len row)"

definition changes_rows_fit :: "changes \<Rightarrow> nat \<Rightarrow> nat + unit" where
  "changes_rows_fit c ncols = misfit change_width (change_fits ncols) (ch_events c)"

definition changes_event_count :: "changes \<Rightarrow> nat" where
  "changes_event_count c = ch_count c"

section \<open>Sealing\<close>

record 'b table_window =
  w_layout :: layout
  w_body :: 'b

definition table_seal ::
  "('b \<Rightarrow> nat \<Rightarrow> nat + unit) \<Rightarrow> bytes \<Rightarrow> layout \<Rightarrow> 'b \<Rightarrow> 'b table_window result" where
  "table_seal rows_fit table layout body =
     (let n = length (l_cols layout) in
      case rows_fit body n of
        Inl got \<Rightarrow> Inl (Transfer (Row_width table got n))
      | Inr _ \<Rightarrow> Inr \<lparr>w_layout = layout, w_body = body\<rparr>)"

definition collapser_seal :: "bytes \<Rightarrow> collapser \<Rightarrow> collapsed table_window result" where
  "collapser_seal table c = table_seal collapsed_rows_fit table (c_layout c) (collapser_finish c)"

definition changes_seal :: "bytes \<Rightarrow> changes \<Rightarrow> changes table_window result" where
  "changes_seal table c = table_seal changes_rows_fit table (ch_layout c) c"

datatype bodies =
    Replica_Bodies "(bytes \<times> collapsed table_window) list"
  | Changelog_Bodies "(bytes \<times> changes table_window) list"

text \<open>The hash maps by table name, in whatever order they iterate.\<close>

definition bodies_seal :: "bool \<Rightarrow> (bytes \<times> collapser) list \<Rightarrow> (bytes \<times> changes) list \<Rightarrow> bodies result" where
  "bodies_seal changelog collapsers changelogs =
     (if changelog
      then and_then (collect_results (\<lambda>(t, c). and_then (changes_seal t c) (\<lambda>w. Inr (t, w))) changelogs)
             (\<lambda>m. Inr (Changelog_Bodies m))
      else and_then (collect_results (\<lambda>(t, c). and_then (collapser_seal t c) (\<lambda>w. Inr (t, w))) collapsers)
             (\<lambda>m. Inr (Replica_Bodies m)))"

fun parallel_safe :: "bodies \<Rightarrow> bool" where
  "parallel_safe (Replica_Bodies m) = list_all (\<lambda>(_, w). residue (w_body w) = [] \<and> \<not> truncated (w_body w)) m"
| "parallel_safe (Changelog_Bodies _) = False"

datatype slice =
    Replica_Slice "collapsed table_window option"
  | Changelog_Slice "changes table_window option"

record window_id =
  wi_start :: u64
  wi_end :: u64

definition window_id_new :: "u64 \<Rightarrow> u64 \<Rightarrow> window_id" where
  "window_id_new s e = \<lparr>wi_start = s, wi_end = e\<rparr>"

record drain_outcome =
  o_bodies :: bodies
  o_id :: window_id
  o_hit_budget :: bool
  o_binary :: bool

fun slice_of :: "bodies \<Rightarrow> bytes \<Rightarrow> slice" where
  "slice_of (Replica_Bodies m) t = Replica_Slice (map_of m t)"
| "slice_of (Changelog_Bodies m) t = Changelog_Slice (map_of m t)"

definition outcome_slice :: "drain_outcome \<Rightarrow> bytes \<Rightarrow> slice" where
  "outcome_slice o' t = slice_of (o_bodies o') t"

definition outcome_events :: "drain_outcome \<Rightarrow> nat" where
  "outcome_events o' =
     (case o_bodies o' of
        Replica_Bodies m \<Rightarrow> sum_list (map (\<lambda>(_, w). collapsed_event_count (w_body w)) m)
      | Changelog_Bodies m \<Rightarrow> sum_list (map (\<lambda>(_, w). changes_event_count (w_body w)) m))"

definition outcome_tables :: "drain_outcome \<Rightarrow> nat" where
  "outcome_tables o' = (case o_bodies o' of Replica_Bodies m \<Rightarrow> length m | Changelog_Bodies m \<Rightarrow> length m)"

definition outcome_is_empty :: "drain_outcome \<Rightarrow> bool" where
  "outcome_is_empty o' \<longleftrightarrow> outcome_tables o' = 0"

section \<open>What a body promises\<close>

lemma misfit_Inr: "misfit width fits rs = Inr u \<longleftrightarrow> (\<forall>r \<in> set rs. fits r)"
  by (induction rs) auto

lemma misfit_Inl: "misfit width fits rs = Inl n \<Longrightarrow> \<exists>r \<in> set rs. \<not> fits r \<and> width r = n"
  by (induction rs) (auto split: if_splits)

text \<open>
  The contract of \<^verbatim>\<open>WindowBody\<close>: the check accepts exactly the bodies whose rows have the
  layout's shape, and a refusal names a width the layout does not have.
\<close>

locale window_body =
  fixes rows_fit :: "'b \<Rightarrow> nat \<Rightarrow> nat + unit"
    and shaped :: "'b \<Rightarrow> nat \<Rightarrow> bool"
  assumes fit_iff: "rows_fit b n = Inr u \<longleftrightarrow> shaped b n"
    and misfit_width: "rows_fit b n = Inl w \<Longrightarrow> w \<noteq> n"
begin

lemma seal_Inr:
  "table_seal rows_fit t l b = Inr w \<longleftrightarrow> shaped b (length (l_cols l)) \<and> w = \<lparr>w_layout = l, w_body = b\<rparr>"
  using fit_iff [of b "length (l_cols l)"] by (auto simp: table_seal_def Let_def split: sum.splits)

lemma seal_Inl:
  assumes "\<not> shaped b (length (l_cols l))"
  shows "\<exists>w. w \<noteq> length (l_cols l) \<and>
           table_seal rows_fit t l b = Inl (Transfer (Row_width t w (length (l_cols l))))"
proof (cases "rows_fit b (length (l_cols l))")
  case (Inl w)
  with misfit_width [OF this] show ?thesis by (auto simp: table_seal_def)
next
  case (Inr u)
  with fit_iff [of b "length (l_cols l)"] assms show ?thesis by simp
qed

end

definition collapsed_shaped :: "collapsed \<Rightarrow> nat \<Rightarrow> bool" where
  "collapsed_shaped c n \<longleftrightarrow>
     (\<forall>u \<in> set (upserts c). length (cells_of u) = n) \<and>
     (\<forall>op \<in> set (residue c). \<forall>row. residue_row op = Some row \<longrightarrow> length row = n)"

definition changes_shaped :: "changes \<Rightarrow> nat \<Rightarrow> bool" where
  "changes_shaped c n \<longleftrightarrow> (\<forall>ev \<in> set (ch_events c). change_fits n ev)"

interpretation collapsed_body: window_body collapsed_rows_fit collapsed_shaped
proof
  fix b :: collapsed and n w and u :: unit
  have rows: "set (List.map_filter residue_row (residue b)) = {row. \<exists>op \<in> set (residue b). residue_row op = Some row}"
    by (auto simp: List.map_filter_def image_iff) force
  show "collapsed_rows_fit b n = Inr u \<longleftrightarrow> collapsed_shaped b n"
    by (auto simp: collapsed_rows_fit_def collapsed_shaped_def misfit_Inr rows tuple_len_def
        split: sum.splits dest!: misfit_Inl)
  show "collapsed_rows_fit b n = Inl w \<Longrightarrow> w \<noteq> n"
    by (auto simp: collapsed_rows_fit_def split: sum.splits dest!: misfit_Inl)
qed

interpretation changes_body: window_body changes_rows_fit changes_shaped
proof
  fix b :: changes and n w and u :: unit
  show "changes_rows_fit b n = Inr u \<longleftrightarrow> changes_shaped b n"
    by (simp add: changes_rows_fit_def changes_shaped_def misfit_Inr)
  show "changes_rows_fit b n = Inl w \<Longrightarrow> w \<noteq> n"
    by (auto simp: changes_rows_fit_def change_fits_def change_width_def dest!: misfit_Inl
        split: option.splits change_op.splits)
qed

section \<open>A window of one layout seals\<close>

definition uniform :: "layout \<Rightarrow> collapser \<Rightarrow> bool" where
  "uniform l c \<longleftrightarrow> c_layout c = l \<and>
     (\<forall>u. Some u \<in> set (c_upserts c) \<longrightarrow> length (cells u) = length (l_cols l)) \<and>
     (\<forall>op \<in> set (ops (c_residue c)). \<forall>row. residue_row op = Some row \<longrightarrow> length row = length (l_cols l))"

lemma uniform_fields [simp]:
  "uniform l (set_slot k s c) = uniform l c" "uniform l (count_event c) = uniform l c"
  "uniform l (push_upsert k del row c) \<longleftrightarrow> uniform l c \<and> length (cells row) = length (l_cols l)"
  "uniform l (push_residue op c) \<longleftrightarrow> uniform l c \<and> (\<forall>row. residue_row op = Some row \<longrightarrow> length row = length (l_cols l))"
  by (auto simp: uniform_def)

lemma write_upsert_uniform:
  "write_upsert seq v c = Inr c' \<Longrightarrow> uniform l c \<Longrightarrow> (\<And>u. v = Some u \<Longrightarrow> length (cells u) = length (l_cols l)) \<Longrightarrow> uniform l c'"
  using set_update_subset_insert [of "c_upserts c" seq v]
  by (auto simp: write_upsert_def write_list_def uniform_def result_simps split: if_split_asm)

lemma put_delete_uniform: "put_delete k c = Inr c' \<Longrightarrow> uniform l c \<Longrightarrow> uniform l c'"
  by (auto simp: put_delete_def result_simps dest!: write_upsert_uniform split: option.split_asm slot.split_asm)

lemma collect_results_length: "collect_results f xs = Inr ys \<Longrightarrow> length ys = length xs"
  by (induction xs arbitrary: ys) (auto simp: result_simps)

lemma length_to_cells: "to_cells row = Inr cs \<Longrightarrow> length cs = length (cells row)"
  by (auto simp: to_cells_def tuple_views_def dest!: collect_results_length)

lemma land_image_uniform:
  "land_image k t row c = Inr c' \<Longrightarrow> uniform l c \<Longrightarrow> length (cells row) = length (l_cols l) \<Longrightarrow> uniform l c'"
  by (auto simp: land_image_def result_simps dest!: length_to_cells elim!: write_upsert_uniform
      split: option.split_asm slot.split_asm if_split_asm)

lemma leave_old_key_uniform: "leave_old_key fl old k c = Inr c' \<Longrightarrow> uniform l c \<Longrightarrow> uniform l c'"
  by (auto simp: leave_old_key_def result_simps dest!: put_delete_uniform
      split: option.split_asm slot.split_asm if_split_asm)

lemma move_row_uniform:
  "move_row a b row c = Inr c' \<Longrightarrow> uniform l c \<Longrightarrow> length (cells row) = length (l_cols l) \<Longrightarrow> uniform l c'"
  by (auto simp: move_row_def result_simps Let_def dest!: length_to_cells)

lemma insert_uniform:
  "collapser_insert row c = Inr c' \<Longrightarrow> uniform l c \<Longrightarrow> length (cells row) = length (l_cols l) \<Longrightarrow> uniform l c'"
  unfolding collapser_insert_def Let_def and_then_eq_Inr
  by (elim exE conjE)
    (auto simp: result_simps dest!: length_to_cells elim!: write_upsert_uniform split: option.split_asm slot.split_asm)

lemma length_fill_key_cells: "fill_key_cells idx old cs = Inr cs' \<Longrightarrow> length cs' = length cs"
proof (induction idx arbitrary: cs)
  case (Cons i idx)
  then obtain oc where oc: "fill_key_cells idx old (if i < length cs \<and> cs ! i = UnchangedToast
      then (case oc of Some (Text t) \<Rightarrow> cs[i := Text t] | _ \<Rightarrow> cs) else cs) = Inr cs'" (is "fill_key_cells _ _ ?cs = _")
    by (auto simp: result_simps)
  have "length ?cs = length cs" by (simp split: option.splits cell.splits)
  with Cons.IH [OF oc] show ?case by simp
qed simp

lemma length_push_cells: "length (snd (push_cells cs f rs)) = length rs + length cs"
  by (induction cs f rs rule: push_cells.induct) simp_all

lemma length_from_cells [simp]: "length (cells (from_cells cs)) = length cs"
  using length_push_cells [of cs "[]" "[]"] by (auto simp: from_cells_def from_rendered_def split: prod.splits)

lemma length_key_from_old: "key_from_old idx old row = Inr row' \<Longrightarrow> length (cells row') = length (cells row)"
  by (auto simp: key_from_old_def result_simps dest!: length_fill_key_cells length_to_cells split: if_split_asm)

lemma update_uniform:
  "update_image old fl row c = Inr c' \<Longrightarrow> uniform l c \<Longrightarrow> length (cells row) = length (l_cols l) \<Longrightarrow> uniform l c'"
  unfolding update_image_def Let_def and_then_eq_Inr
  by (elim exE conjE)
    (auto simp: result_simps dest!: leave_old_key_uniform length_key_from_old elim!: move_row_uniform land_image_uniform
      split: option.split_asm if_split_asm)

fun op_width :: "nat \<Rightarrow> stream_op \<Rightarrow> bool" where
  "op_width n (Op_Insert row) = (length (cells row) = n)"
| "op_width n (Op_Update _ row _) = (length (cells row) = n)"
| "op_width n _ = True"

lemma truncate_uniform: "uniform l c \<Longrightarrow> uniform l (collapser_truncate c)"
  by (simp add: uniform_def collapser_truncate_def tail_clear_def)

lemma collapse_uniform:
  "fold_results collapse_op c es = Inr c' \<Longrightarrow> uniform l c \<Longrightarrow> \<forall>op \<in> set es. op_width (length (l_cols l)) op \<Longrightarrow> uniform l c'"
proof (induction es arbitrary: c)
  case (Cons op es)
  then obtain c1 where c1: "collapse_op c op = Inr c1" "fold_results collapse_op c1 es = Inr c'"
    by (auto simp: result_simps)
  have "uniform l c1"
    using c1(1) Cons.prems
    by (cases op) (auto simp: collapser_delete_def truncate_uniform Let_def result_simps
        dest: insert_uniform update_uniform put_delete_uniform)
  with Cons c1(2) show ?case by simp
qed simp

text \<open>
  A window whose row images all have the layout's width seals, whatever its updates
  move, mask and delete, and the sealed window carries the collapsed body with that layout.
\<close>

lemma uniform_window_seals:
  assumes "\<forall>op \<in> set es. op_ok (l_key_idx l) op \<and> op_width (length (l_cols l)) op"
  shows "\<exists>c. fold_results collapse_op (collapser_new l) es = Inr c
           \<and> collapser_seal t c = Inr \<lparr>w_layout = l, w_body = collapser_finish c\<rparr>"
proof -
  have ok: "\<forall>op \<in> set es. op_ok (l_key_idx l) op" using assms by blast
  obtain c where c: "fold_results collapse_op (collapser_new l) es = Inr c"
    using collapse_machine.run_total [OF collapser_inv_new ok] by blast
  have "uniform l c"
    using collapse_uniform [OF c] assms by (simp add: uniform_def collapser_new_def)
  then have "collapsed_shaped (collapser_finish c) (length (l_cols l))"
    by (auto simp: collapsed_shaped_def uniform_def set_finish_upserts) (simp add: collapser_finish_def)
  with c \<open>uniform l c\<close> show ?thesis
    by (auto simp: collapser_seal_def collapsed_body.seal_Inr uniform_def)
qed

end
