(* ===== verification/Replay.thy ===== *)
theory Replay
  imports Window "HOL-Library.Multiset" "HOL-Library.Sublist"
begin

text \<open>
  The replay rule of the append-only destinations (\<^verbatim>\<open>logbased/replay.rs\<close>): what a window
  appends at its stamp when an earlier attempt of it may have left rows there, the reading
  of the engines' answers, and the per-run memo. The destination's rows at one stamp are a
  list of numbered events; executing a plan and interrupting it anywhere are modelled, and
  the log ends with every event exactly once.
\<close>

section \<open>Markers, facts and plans\<close>

record pending =
  p_start :: u64
  p_seq_base :: "u32 option"

definition pending_recorded :: "u64 \<Rightarrow> u32 \<Rightarrow> pending" where
  "pending_recorded start seq_base = \<lparr>p_start = start, p_seq_base = Some seq_base\<rparr>"

definition pending_legacy :: "u64 \<Rightarrow> pending" where
  "pending_legacy start = \<lparr>p_start = start, p_seq_base = None\<rparr>"

definition query_base :: "pending \<Rightarrow> u32" where
  "query_base p = (case p_seq_base p of Some b \<Rightarrow> b | None \<Rightarrow> 0)"

record landed =
  l_count :: nat
  l_max_seq :: "u32 option"

record stamp_facts =
  f_all :: landed
  f_from_base :: landed
  f_distinct_seq :: nat

record marker_row =
  mk_start :: u64
  mk_seq_base :: u32
  mk_end :: u64
  mk_events :: nat

record rplan =
  r_stamp :: u64
  r_seq_base :: u32
  r_skip :: nat
  r_events :: nat
  r_trim_from :: "u32 option"
  r_mark :: bool
  r_watermark :: u64

definition to_append :: "rplan \<Rightarrow> nat list" where
  "to_append pl = [r_skip pl..<r_events pl]"

definition seq_of :: "rplan \<Rightarrow> nat \<Rightarrow> u32" where
  "seq_of pl ordinal = r_seq_base pl + of_nat ordinal"

definition marker :: "rplan \<Rightarrow> marker_row option" where
  "marker pl =
     (if r_mark pl then Some \<lparr>mk_start = r_stamp pl, mk_seq_base = r_seq_base pl,
        mk_end = r_watermark pl, mk_events = r_events pl\<rparr> else None)"

text \<open>A base plus a count, at 32 bits.\<close>

definition base_plus :: "u32 \<Rightarrow> nat \<Rightarrow> u32 option" where
  "base_plus base k = Option.bind (u32_try_from k) (checked_add_u32 base)"

definition replay_base :: "u64 \<Rightarrow> pending \<Rightarrow> stamp_facts \<Rightarrow> u32 result" where
  "replay_base start p f =
     (case p_seq_base p of
        Some b \<Rightarrow> Inr b
      | None \<Rightarrow> if l_count (f_all f) \<noteq> f_distinct_seq f then Inl (Transfer (Legacy_mixed start)) else Inr 0)"

definition intact_prefix :: "u32 \<Rightarrow> landed \<Rightarrow> bool" where
  "intact_prefix base l =
     (l_count l = 0 \<or>
      (case base_plus base (l_count l - 1) of Some last' \<Rightarrow> l_max_seq l = Some last' | None \<Rightarrow> False))"

text \<open>R2: a previous attempt of this window; base, skip, trim and whether to mark.\<close>

definition resume_rule :: "u32 \<Rightarrow> landed \<Rightarrow> nat \<Rightarrow> (u32 \<times> nat \<times> u32 option \<times> bool) result" where
  "resume_rule base l n_ev =
     (let n = l_count l in
      if \<not> intact_prefix base l then Inr (base, 0, Some base, n_ev > 0)
      else if n \<le> n_ev then Inr (base, n, None, n < n_ev)
      else and_then (ok_or (Transfer (Seq_overflow base n_ev)) (base_plus base n_ev)) (\<lambda>t.
             Inr (base, n_ev, Some t, False)))"

text \<open>R1: nothing of this window is at the stamp; number above what is there.\<close>

definition fresh_rule :: "stamp_facts option \<Rightarrow> nat \<Rightarrow> (u32 \<times> nat \<times> u32 option \<times> bool) result" where
  "fresh_rule f n_ev =
     and_then (case Option.bind f (\<lambda>f. l_max_seq (f_all f)) of
                 None \<Rightarrow> Inr 0
               | Some m \<Rightarrow> ok_or (Transfer (Seq_overflow m n_ev)) (checked_add_u32 m 1)) (\<lambda>base.
       Inr (base, 0, None, n_ev > 0))"

definition replay_plan :: "pending option \<Rightarrow> stamp_facts option \<Rightarrow> window_id \<Rightarrow> nat \<Rightarrow> rplan result" where
  "replay_plan p f wid n_ev =
     and_then
       (case p of
          None \<Rightarrow> fresh_rule f n_ev
        | Some p \<Rightarrow>
            if p_start p > wi_start wid then Inl (Transfer (Watermark_moved_back (p_start p) (wi_start wid)))
            else if p_start p = wi_start wid then
              and_then (ok_or (Transfer (Facts_needed (wi_start wid))) f) (\<lambda>f.
              and_then (replay_base (wi_start wid) p f) (\<lambda>base. resume_rule base (f_from_base f) n_ev))
            else fresh_rule f n_ev)
       (\<lambda>(seq_base, skip, trim_from, mark).
          and_then (ok_or (Transfer (Seq_overflow seq_base n_ev)) (base_plus seq_base n_ev)) (\<lambda>_.
            Inr \<lparr>r_stamp = wi_start wid, r_seq_base = seq_base, r_skip = skip, r_events = n_ev,
                 r_trim_from = trim_from, r_mark = mark, r_watermark = wi_end wid\<rparr>))"

section \<open>Reading the engines' answers\<close>

definition count_of :: "bytes \<Rightarrow> u64 result" where
  "count_of v = ok_or (Transfer (Unreadable v)) (parse_u64_radix 10 (trim_str v))"

definition parse_u32 :: "bytes \<Rightarrow> u32 option" where
  "parse_u32 s = Option.bind (parse_u64_radix 10 s) (\<lambda>v. u32_try_from (unat v))"

definition max_of :: "bytes \<Rightarrow> u32 option result" where
  "max_of v =
     (if trim_str v = ascii ''-1'' then Inr None
      else and_then (ok_or (Transfer (Unreadable v)) (parse_u32 (trim_str v))) (\<lambda>m. Inr (Some m)))"

definition parse_pending :: "bytes \<Rightarrow> bytes \<Rightarrow> bytes \<Rightarrow> bytes \<Rightarrow> pending option result" where
  "parse_pending n lsn seq_base evs =
     and_then (count_of n) (\<lambda>c.
       if c = 0 then Inr None
       else and_then (count_of lsn) (\<lambda>start.
            and_then (count_of seq_base) (\<lambda>b.
            and_then (ok_or (Transfer (Unreadable seq_base)) (u32_try_from (unat b))) (\<lambda>base.
            and_then (count_of evs) (\<lambda>e.
              Inr (Some (if e = 0 then pending_legacy start else pending_recorded start base)))))))"

fun join_tab :: "bytes list \<Rightarrow> bytes" where
  "join_tab [] = []"
| "join_tab [c] = c"
| "join_tab (c # cs) = c @ 9 # join_tab cs"

definition read_landed :: "bytes list \<Rightarrow> bytes \<Rightarrow> bytes \<Rightarrow> landed result" where
  "read_landed cs n mx =
     and_then (count_of n) (\<lambda>c.
     and_then (max_of mx) (\<lambda>m.
       if (c = 0) \<noteq> (m = None) then Inl (Transfer (Unreadable (join_tab cs)))
       else Inr \<lparr>l_count = unat c, l_max_seq = m\<rparr>))"

definition parse_facts :: "bytes list \<Rightarrow> stamp_facts result" where
  "parse_facts cs =
     (case cs of
        [n_all, mx_all, n_b, mx_b, distinct'] \<Rightarrow>
          and_then (read_landed cs n_all mx_all) (\<lambda>a.
          and_then (read_landed cs n_b mx_b) (\<lambda>b.
          and_then (count_of distinct') (\<lambda>d.
            if l_count b > l_count a \<or> unat d > l_count a then Inl (Transfer (Unreadable (join_tab cs)))
            else Inr \<lparr>f_all = a, f_from_base = b, f_distinct_seq = unat d\<rparr>)))
      | _ \<Rightarrow> Inl (Transfer (Unreadable (join_tab cs))))"

definition parse_ceiling :: "bytes \<Rightarrow> bytes \<Rightarrow> u64 option result" where
  "parse_ceiling n max_lsn =
     and_then (count_of n) (\<lambda>c.
       if c = 0 then Inr None else and_then (count_of max_lsn) (\<lambda>m. Inr (Some m)))"

section \<open>The per-run memo\<close>

record seen =
  sn_pending :: "pending option"
  sn_ceiling :: "u64 option"

type_synonym memo = "bytes \<times> bytes \<rightharpoonup> seen"

datatype ask = Ask_Probe | Ask_Facts u32 | Ask_Nothing

definition memo_ask :: "memo \<Rightarrow> bytes \<Rightarrow> bytes \<Rightarrow> window_id \<Rightarrow> ask" where
  "memo_ask m t sid wid =
     (case m (t, sid) of
        None \<Rightarrow> Ask_Probe
      | Some s \<Rightarrow>
          (case sn_pending s of
             Some p \<Rightarrow> if p_start p = wi_start wid then Ask_Facts (query_base p)
                       else (case sn_ceiling s of
                               Some c \<Rightarrow> if c \<ge> wi_start wid then Ask_Facts 0 else Ask_Nothing
                             | None \<Rightarrow> Ask_Nothing)
           | None \<Rightarrow> (case sn_ceiling s of
                        Some c \<Rightarrow> if c \<ge> wi_start wid then Ask_Facts 0 else Ask_Nothing
                      | None \<Rightarrow> Ask_Nothing)))"

definition memo_probed :: "bytes \<Rightarrow> bytes \<Rightarrow> pending option \<Rightarrow> u64 option \<Rightarrow> memo \<Rightarrow> memo" where
  "memo_probed t sid p ceiling m = m((t, sid) \<mapsto> \<lparr>sn_pending = p, sn_ceiling = ceiling\<rparr>)"

definition memo_plan :: "memo \<Rightarrow> bytes \<Rightarrow> bytes \<Rightarrow> stamp_facts option \<Rightarrow> window_id \<Rightarrow> nat \<Rightarrow> rplan result" where
  "memo_plan m t sid f wid evs =
     (case m (t, sid) of
        None \<Rightarrow> Inl (Transfer Plan_before_probe)
      | Some s \<Rightarrow> replay_plan (sn_pending s) f wid evs)"

definition memo_committed :: "bytes \<Rightarrow> bytes \<Rightarrow> rplan \<Rightarrow> memo \<Rightarrow> memo" where
  "memo_committed t sid pl m =
     (if \<not> r_mark pl then m
      else case m (t, sid) of
        None \<Rightarrow> m
      | Some s \<Rightarrow> m((t, sid) \<mapsto> s\<lparr>sn_pending := Some (pending_recorded (r_stamp pl) (r_seq_base pl))\<rparr>))"

definition memo_forget :: "bytes \<Rightarrow> bytes \<Rightarrow> memo \<Rightarrow> memo" where
  "memo_forget t sid m = m((t, sid) := None)"

section \<open>The log at one stamp\<close>

type_synonym 'e stamp_rows = "(u32 \<times> 'e) list"

definition landed_of :: "u32 list \<Rightarrow> landed" where
  "landed_of xs = \<lparr>l_count = length xs, l_max_seq = (if xs = [] then None else Some (Max (set xs)))\<rparr>"

definition own :: "u32 \<Rightarrow> 'e stamp_rows \<Rightarrow> 'e stamp_rows" where
  "own b rows = filter (\<lambda>r. b \<le> fst r) rows"

text \<open>The facts the destination's query returns, counted from \<open>b\<close>.\<close>

definition facts_at :: "u32 \<Rightarrow> 'e stamp_rows \<Rightarrow> stamp_facts" where
  "facts_at b rows =
     \<lparr>f_all = landed_of (map fst rows), f_from_base = landed_of (map fst (own b rows)),
      f_distinct_seq = card (set (map fst rows))\<rparr>"

text \<open>Executing a plan: trim, then append the events it names under its numbers.\<close>

definition trimmed :: "rplan \<Rightarrow> 'e stamp_rows \<Rightarrow> 'e stamp_rows" where
  "trimmed pl rows = (case r_trim_from pl of None \<Rightarrow> rows | Some x \<Rightarrow> filter (\<lambda>r. fst r < x) rows)"

definition appended :: "rplan \<Rightarrow> (nat \<Rightarrow> 'e) \<Rightarrow> 'e stamp_rows" where
  "appended pl evs = map (\<lambda>i. (seq_of pl i, evs i)) (to_append pl)"

definition numbered :: "u32 \<Rightarrow> (nat \<Rightarrow> 'e) \<Rightarrow> nat \<Rightarrow> 'e stamp_rows" where
  "numbered b evs n = map (\<lambda>i. (b + of_nat i, evs i)) [0..<n]"

text \<open>Rows from \<open>b\<close> up are an attempt of this window: its events, each at most once.\<close>

definition attempt_rows :: "u32 \<Rightarrow> (nat \<Rightarrow> 'e) \<Rightarrow> 'e stamp_rows \<Rightarrow> bool" where
  "attempt_rows b evs rows \<longleftrightarrow>
     distinct (map fst (own b rows)) \<and> (\<forall>(s, e) \<in> set (own b rows). e = evs (unat s - unat b))"

section \<open>Numbering never wraps\<close>

lemma base_plus_Some: "base_plus b k = Some w \<longleftrightarrow> unat b + k < 2 ^ 32 \<and> w = b + of_nat k"
  by (auto simp: base_plus_def u32_try_from_Some bind_eq_Some_conv checked_add_u32_Some unat_of_nat_u32
      simp del: of_nat_numeral)

lemma unat_base_add: "unat b + k < 2 ^ 32 \<Longrightarrow> unat (b + of_nat k :: u32) = unat b + k"
  by (subst unat_add_u32) (simp_all add: unat_of_nat_u32)

lemma replay_plan_fits: "replay_plan p f wid n = Inr pl \<Longrightarrow> unat (r_seq_base pl) + n < 2 ^ 32"
  by (auto simp: replay_plan_def result_simps base_plus_Some split: prod.splits)

lemma own_append: "own b (xs @ ys) = own b xs @ own b ys"
  by (simp add: own_def)

lemma set_numbered: "set (numbered b evs n) = {(b + of_nat i, evs i) |i. i < n}"
  by (auto simp: numbered_def)

lemma own_numbered:
  assumes "unat b + n \<le> 2 ^ 32"
  shows "own b (numbered b evs n) = numbered b evs n"
proof -
  have "b \<le> b + of_nat i" if "i < n" for i
    using unat_base_add [of b i] assms that by (simp add: word_le_nat_alt)
  then show ?thesis by (auto simp: own_def numbered_def filter_id_conv)
qed

lemma distinct_numbered:
  assumes "unat b + n \<le> 2 ^ 32"
  shows "distinct (map fst (numbered b evs n))"
proof -
  have "inj_on (\<lambda>i. b + of_nat i :: u32) {0..<n}"
  proof (rule inj_onI)
    fix i j
    assume ij: "i \<in> {0..<n}" "j \<in> {0..<n}" and eq: "b + of_nat i = (b + of_nat j :: u32)"
    have "unat (b + of_nat i :: u32) = unat b + i" "unat (b + of_nat j :: u32) = unat b + j"
      using ij assms by (auto intro!: unat_base_add)
    then show "i = j" unfolding eq by linarith
  qed
  then show ?thesis by (simp add: numbered_def distinct_map comp_def)
qed

text \<open>An attempt's rows whose count is their span are exactly its first events.\<close>

lemma attempt_positions:
  assumes "attempt_rows b evs rows"
  shows "inj_on (\<lambda>r. unat (fst r) - unat b) (set (own b rows))"
proof (rule inj_onI)
  fix r r'
  assume *: "r \<in> set (own b rows)" "r' \<in> set (own b rows)" "unat (fst r) - unat b = unat (fst r') - unat b"
  then have "b \<le> fst r" "b \<le> fst r'" by (auto simp: own_def)
  with *(3) have "unat (fst r) = unat (fst r')" by (auto simp: word_le_nat_alt)
  then have "fst r = fst r'" by (rule word_unat_eq_iff [THEN iffD2])
  with assms *(1,2) show "r = r'" by (simp add: attempt_rows_def distinct_map inj_on_def)
qed

lemma attempt_row:
  assumes "attempt_rows b evs rows" "r \<in> set (own b rows)"
  shows "r = (b + of_nat (unat (fst r) - unat b), evs (unat (fst r) - unat b))"
proof -
  have "b \<le> fst r" using assms(2) by (simp add: own_def)
  then have "b + of_nat (unat (fst r) - unat b) = fst r"
    by (simp add: word_le_nat_alt of_nat_diff)
  moreover have "snd r = evs (unat (fst r) - unat b)"
    using assms by (auto simp: attempt_rows_def split: prod.splits)
  ultimately show ?thesis by (simp add: prod_eq_iff)
qed

lemma prefix_rows:
  assumes "attempt_rows b evs rows" "intact_prefix b (landed_of (map fst (own b rows)))"
  shows "set (own b rows) = set (numbered b evs (length (own b rows)))"
proof (cases "own b rows = []")
  case False
  let ?n = "length (own b rows)" and ?pos = "\<lambda>r. unat (fst r) - unat b"
  have top: "unat b + (?n - 1) < 2 ^ 32" "Max (fst ` set (own b rows)) = b + of_nat (?n - 1)"
    using assms(2) False by (auto simp: intact_prefix_def landed_of_def base_plus_Some split: option.splits)
  have "?pos ` set (own b rows) \<subseteq> {0..<?n}"
  proof
    fix i
    assume "i \<in> ?pos ` set (own b rows)"
    then obtain r where r: "r \<in> set (own b rows)" "i = ?pos r" by blast
    then have "fst r \<le> b + of_nat (?n - 1)" using top(2) Max_ge [of "fst ` set (own b rows)" "fst r"] by simp
    then have "unat (fst r) \<le> unat b + (?n - 1)" using unat_base_add [OF top(1)] by (simp add: word_le_nat_alt)
    with r False show "i \<in> {0..<?n}" by (cases ?n) auto
  qed
  moreover have "card (?pos ` set (own b rows)) = ?n"
    using card_image [OF attempt_positions [OF assms(1)]] distinct_card [of "own b rows"] assms(1)
    by (simp add: attempt_rows_def distinct_map)
  ultimately have pos: "?pos ` set (own b rows) = {0..<?n}"
    by (intro card_subset_eq) auto
  show ?thesis
  proof
    show "set (own b rows) \<subseteq> set (numbered b evs ?n)"
    proof
      fix x
      assume x: "x \<in> set (own b rows)"
      then have "?pos x \<in> {0..<?n}" using pos by blast
      then show "x \<in> set (numbered b evs ?n)"
        using attempt_row [OF assms(1) x] unfolding set_numbered by auto
    qed
    show "set (numbered b evs ?n) \<subseteq> set (own b rows)"
    proof
      fix x
      assume "x \<in> set (numbered b evs ?n)"
      then obtain i where i: "i < ?n" "x = (b + of_nat i, evs i)" by (auto simp: set_numbered)
      then have "i \<in> ?pos ` set (own b rows)" unfolding pos by simp
      then obtain r where "r \<in> set (own b rows)" "?pos r = i" by blast
      with attempt_row [OF assms(1) this(1)] i show "x \<in> set (own b rows)" by simp
    qed
  qed
qed (simp add: numbered_def)

section \<open>Resuming an attempt\<close>

definition below :: "u32 \<Rightarrow> 'e stamp_rows \<Rightarrow> 'e stamp_rows" where
  "below b rows = filter (\<lambda>r. fst r < b) rows"

lemma below_append: "below b (xs @ ys) = below b xs @ below b ys"
  by (simp add: below_def)

lemma mset_below_own: "mset (below b rows) + mset (own b rows) = mset rows"
  by (induction rows) (auto simp: below_def own_def)

lemma numbered_split:
  "k \<le> n \<Longrightarrow> numbered b evs n = numbered b evs k @ map (\<lambda>i. (b + of_nat i, evs i)) [k..<n]"
  using upt_add_eq_append [of 0 k "n - k"] by (simp add: numbered_def flip: map_append)

lemma numbered_below:
  assumes "unat b + k \<le> 2 ^ 32" "n \<le> k" "unat b + n < 2 ^ 32"
  shows "filter (\<lambda>r. fst r < b + of_nat n) (numbered b evs k) = numbered b evs n"
proof -
  have "b + of_nat i < b + (of_nat n :: u32) \<longleftrightarrow> i < n" if "i < k" for i
    using unat_base_add [of b i] unat_base_add [of b n] assms that by (simp add: word_less_nat_alt)
  then have "filter (\<lambda>i. b + of_nat i < b + (of_nat n :: u32)) [0..<k] = filter (\<lambda>i. i < n) [0..<k]"
    by (intro filter_cong) auto
  also have "\<dots> = [0..<n]"
    using assms(2) upt_add_eq_append [of 0 n "k - n"] by (simp add: filter_empty_conv filter_id_conv)
  finally show ?thesis by (simp add: numbered_def filter_map comp_def)
qed

lemma attempt_mset:
  assumes "attempt_rows b evs rows" "intact_prefix b (landed_of (map fst (own b rows)))"
  shows "mset (own b rows) = mset (numbered b evs (length (own b rows)))" "unat b + length (own b rows) \<le> 2 ^ 32"
proof -
  show fits: "unat b + length (own b rows) \<le> 2 ^ 32"
  proof (cases "own b rows = []")
    case False
    then have "unat b + (length (own b rows) - 1) < 2 ^ 32"
      using assms(2) by (auto simp: intact_prefix_def landed_of_def base_plus_Some split: option.splits)
    with False show ?thesis by (cases "length (own b rows)") auto
  qed (simp add: order_less_imp_le)
  have "distinct (own b rows)" using assms(1) by (simp add: attempt_rows_def distinct_map)
  moreover have "distinct (numbered b evs (length (own b rows)))"
    using distinct_numbered [OF fits, of evs] by (simp add: distinct_map)
  ultimately show "mset (own b rows) = mset (numbered b evs (length (own b rows)))"
    using prefix_rows [OF assms] set_eq_iff_mset_eq_distinct by blast
qed

text \<open>R2 leaves the window's events from its base up, each once, and no row below it changes.\<close>

lemma resume_exact:
  assumes "attempt_rows b evs rows" "unat b + n < 2 ^ 32"
    and "resume_rule b (landed_of (map fst (own b rows))) n = Inr (b', skip, trim, mk)"
    and "r_seq_base pl = b'" "r_skip pl = skip" "r_events pl = n" "r_trim_from pl = trim"
  shows "b' = b" "mset (own b (trimmed pl rows @ appended pl evs)) = mset (numbered b evs n)"
    "below b (trimmed pl rows @ appended pl evs) = below b rows"
proof -
  let ?k = "length (own b rows)"
  show b: "b' = b"
    using assms(3) by (auto simp: resume_rule_def Let_def result_simps split: if_split_asm)
  have app: "appended pl evs = map (\<lambda>i. (b + of_nat i, evs i)) [skip..<n]"
    using assms(4-6) b by (simp add: appended_def to_append_def seq_of_def)
  have ge: "b \<le> b + of_nat i" if "i < n" for i
    using unat_base_add [of b i] assms(2) that by (simp add: word_le_nat_alt)
  have own_app: "own b (appended pl evs) = appended pl evs" "below b (appended pl evs) = []"
    using ge by (auto simp: app own_def below_def filter_id_conv filter_empty_conv not_less)
  consider (torn) "skip = 0" "trim = Some b"
    | (resume) "intact_prefix b (landed_of (map fst (own b rows)))" "?k \<le> n" "skip = ?k" "trim = None"
    | (shrink) "intact_prefix b (landed_of (map fst (own b rows)))" "n < ?k" "skip = n" "trim = Some (b + of_nat n)"
    using assms(3) by (auto simp: resume_rule_def Let_def result_simps base_plus_Some landed_of_def split: if_split_asm)
  then have "mset (own b (trimmed pl rows)) + mset (appended pl evs) = mset (numbered b evs n)
      \<and> below b (trimmed pl rows) = below b rows"
  proof cases
    case torn
    then have "own b (trimmed pl rows) = []" "below b (trimmed pl rows) = below b rows"
      using assms(7) by (auto simp: trimmed_def own_def below_def filter_empty_conv)
    with torn(1) app show ?thesis by (simp add: numbered_def)
  next
    case resume
    with assms(7) attempt_mset(1) [OF assms(1) resume(1)] app show ?thesis
      by (simp add: trimmed_def numbered_split [OF resume(2)])
  next
    case shrink
    have "b \<le> b + of_nat n" using unat_base_add [OF assms(2)] by (simp add: word_le_nat_alt)
    then have "below b (trimmed pl rows) = below b rows"
      using shrink(4) assms(7) by (auto simp: trimmed_def below_def intro!: filter_cong)
    moreover have "own b (trimmed pl rows) = filter (\<lambda>r. fst r < b + of_nat n) (own b rows)"
      using shrink(4) assms(7) by (simp add: trimmed_def own_def conj_commute)
    moreover have "mset (filter (\<lambda>r. fst r < b + of_nat n) (own b rows)) = mset (numbered b evs n)"
      using attempt_mset [OF assms(1) shrink(1)] numbered_below [OF _ less_imp_le [OF shrink(2)] assms(2)]
      by (metis mset_filter)
    ultimately show ?thesis using shrink(3) app by simp
  qed
  then show "mset (own b (trimmed pl rows @ appended pl evs)) = mset (numbered b evs n)"
    "below b (trimmed pl rows @ appended pl evs) = below b rows"
    using own_app by (simp_all add: own_append below_append)
qed

section \<open>Interrupted attempts\<close>

lemma fresh_above:
  assumes "fresh_rule (Some (facts_at b0 rows)) n = Inr (b, skip, trim, mk)"
  shows "skip = 0" "trim = None" "mk = (n > 0)" "r \<in> set rows \<Longrightarrow> fst r < b"
proof -
  show "skip = 0" "trim = None" "mk = (n > 0)"
    using assms by (auto simp: fresh_rule_def result_simps)
  assume r: "r \<in> set rows"
  then have m: "l_max_seq (f_all (facts_at b0 rows)) = Some (Max (fst ` set rows))"
    by (auto simp: facts_at_def landed_of_def)
  let ?m = "Max (fst ` set rows)"
  have "unat ?m + 1 < 2 ^ 32" "b = ?m + 1"
    using assms m by (auto simp: fresh_rule_def result_simps checked_add_u32_Some)
  then have "unat b = unat ?m + 1" using unat_add_u32 [of ?m 1] by simp
  moreover have "fst r \<le> ?m" using r by simp
  ultimately show "fst r < b" by (simp add: word_le_nat_alt word_less_nat_alt)
qed

text \<open>The base the facts are asked from.\<close>

definition asked :: "pending option \<Rightarrow> u32" where
  "asked p = (case p of Some q \<Rightarrow> query_base q | None \<Rightarrow> 0)"

text \<open>
  What a destination may hold of one window: nothing of it yet, an attempt of 0.56.0, and
  whatever attempts of this rule left: each trims, writes its marker and appends, and may
  stop after the trim or with any part of its rows landed, in any later run, with any
  number of events drained.
\<close>

inductive attempted ::
  "u64 \<Rightarrow> (nat \<Rightarrow> 'e) \<Rightarrow> 'e stamp_rows \<Rightarrow> pending option \<Rightarrow> 'e stamp_rows \<Rightarrow> bool" for start evs others where
  before: "\<lbrakk>\<And>q. p = Some q \<Longrightarrow> p_start q < start\<rbrakk> \<Longrightarrow> attempted start evs others p others"
| legacy: "\<lbrakk>others = []; attempt_rows 0 evs rows\<rbrakk> \<Longrightarrow> attempted start evs others (Some (pending_legacy start)) rows"
| trim: "\<lbrakk>attempted start evs others p rows; wi_start wid = start;
          replay_plan p (Some (facts_at (asked p) rows)) wid n = Inr pl\<rbrakk> \<Longrightarrow>
   attempted start evs others p (trimmed pl rows)"
| torn: "\<lbrakk>attempted start evs others p rows; wi_start wid = start;
          replay_plan p (Some (facts_at (asked p) rows)) wid n = Inr pl; r_mark pl;
          subseq part (appended pl evs)\<rbrakk> \<Longrightarrow>
   attempted start evs others (Some (pending_recorded start (r_seq_base pl))) (trimmed pl rows @ part)"

definition stamp_inv ::
  "u64 \<Rightarrow> (nat \<Rightarrow> 'e) \<Rightarrow> 'e stamp_rows \<Rightarrow> pending option \<Rightarrow> 'e stamp_rows \<Rightarrow> bool" where
  "stamp_inv start evs others p rows \<longleftrightarrow>
     ((\<forall>q. p = Some q \<longrightarrow> p_start q < start) \<and> rows = others) \<or>
     (\<exists>q. p = Some q \<and> p_start q = start \<and> attempt_rows (query_base q) evs rows \<and> below (query_base q) rows = others)"

lemma attempt_distinct:
  assumes "attempt_rows 0 evs rows"
  shows "l_count (f_all (facts_at b rows)) = f_distinct_seq (facts_at b rows)"
proof -
  have "own 0 rows = rows" by (simp add: own_def)
  with assms have "distinct (map fst rows)" by (simp add: attempt_rows_def)
  then show ?thesis using distinct_card [of "map fst rows"] by (simp add: facts_at_def landed_of_def)
qed

lemma subseq_subset: "subseq xs ys \<Longrightarrow> set xs \<subseteq> set ys"
  by (induction rule: list_emb.induct) auto

lemma subseq_keeps_distinct: "subseq xs ys \<Longrightarrow> distinct ys \<Longrightarrow> distinct xs"
  by (induction rule: list_emb.induct) (auto dest: subseq_subset)

lemma attempt_rows_subseq:
  assumes "attempt_rows b evs rows" "subseq rows' rows"
  shows "attempt_rows b evs rows'"
proof -
  have sub: "subseq (own b rows') (own b rows)" using assms(2) by (simp add: own_def)
  have "distinct (map fst (own b rows'))"
    using assms(1) by (intro subseq_keeps_distinct [OF subseq_map [OF sub]]) (simp add: attempt_rows_def)
  with assms(1) subseq_subset [OF sub] show ?thesis by (auto simp: attempt_rows_def)
qed

lemma attempt_rows_numbered:
  assumes "mset (own b rows) = mset (numbered b evs n)" "unat b + n < 2 ^ 32"
  shows "attempt_rows b evs rows"
proof -
  have "mset (map fst (own b rows)) = mset (map fst (numbered b evs n))" using assms(1) by simp
  then have "distinct (map fst (own b rows))"
    using distinct_numbered [of b n evs] assms(2) mset_eq_imp_distinct_iff by (metis less_imp_le)
  moreover have "e = evs (unat s - unat b)" if "(s, e) \<in> set (own b rows)" for s e
  proof -
    have "(s, e) \<in> set (numbered b evs n)" using that mset_eq_setD [OF assms(1)] by simp
    then obtain i where "i < n" "s = b + of_nat i" "e = evs i" by (auto simp: set_numbered)
    with unat_base_add [of b i] assms(2) show ?thesis by simp
  qed
  ultimately show ?thesis by (auto simp: attempt_rows_def)
qed

lemma plan_exact:
  assumes "stamp_inv start evs others p rows" "wi_start wid = start"
    and "replay_plan p (Some (facts_at (asked p) rows)) wid n = Inr pl"
  shows "mset (own (r_seq_base pl) (trimmed pl rows @ appended pl evs)) = mset (numbered (r_seq_base pl) evs n)"
    and "below (r_seq_base pl) (trimmed pl rows @ appended pl evs) = others"
proof -
  note fits = replay_plan_fits [OF assms(3)]
  have "mset (own (r_seq_base pl) (trimmed pl rows @ appended pl evs)) = mset (numbered (r_seq_base pl) evs n)
      \<and> below (r_seq_base pl) (trimmed pl rows @ appended pl evs) = others"
    using assms(1) unfolding stamp_inv_def
  proof (elim disjE exE conjE)
    assume p: "\<forall>q. p = Some q \<longrightarrow> p_start q < start" and rows: "rows = others"
    obtain b skip trim mk where fr: "fresh_rule (Some (facts_at (asked p) rows)) n = Inr (b, skip, trim, mk)"
      and pl: "r_seq_base pl = b" "r_skip pl = skip" "r_events pl = n" "r_trim_from pl = trim"
      using assms(2,3) p by (auto simp: replay_plan_def result_simps split: option.splits if_split_asm)
    note fa = fresh_above [OF fr]
    have "own b rows = []" "below b rows = rows"
      using fa(4) by (auto simp: own_def below_def filter_empty_conv filter_id_conv not_le)
    moreover have "appended pl evs = numbered b evs n"
      using pl fa(1) by (simp add: appended_def numbered_def to_append_def seq_of_def)
    moreover have "below b (numbered b evs n) = []" "own b (numbered b evs n) = numbered b evs n"
    proof -
      show o: "own b (numbered b evs n) = numbered b evs n"
        using own_numbered [of b n evs] fits pl(1) by simp
      show "below b (numbered b evs n) = []"
        using o by (auto simp: own_def below_def filter_id_conv filter_empty_conv not_less)
    qed
    ultimately show ?thesis
      using pl fa(2) rows by (simp add: trimmed_def own_append below_append)
  next
    fix q
    assume q: "p = Some q" "p_start q = start" "attempt_rows (query_base q) evs rows" "below (query_base q) rows = others"
    obtain b skip trim mk where
      rb: "replay_base start q (facts_at (query_base q) rows) = Inr b"
      and rr: "resume_rule b (landed_of (map fst (own (query_base q) rows))) n = Inr (r_seq_base pl, skip, trim, mk)"
      and pl: "r_skip pl = skip" "r_events pl = n" "r_trim_from pl = trim"
      using assms(2,3) q(1,2)
      by (auto simp: replay_plan_def result_simps asked_def facts_at_def split: if_split_asm)
    have b: "b = query_base q"
      using rb by (auto simp: replay_base_def query_base_def split: option.splits if_split_asm)
    have "r_seq_base pl = b"
      using rr by (auto simp: resume_rule_def Let_def result_simps split: if_split_asm)
    with resume_exact [OF q(3) _ rr [unfolded b] refl pl] fits b q(4) show ?thesis by simp
  qed
  then show "mset (own (r_seq_base pl) (trimmed pl rows @ appended pl evs)) = mset (numbered (r_seq_base pl) evs n)"
    "below (r_seq_base pl) (trimmed pl rows @ appended pl evs) = others" by simp_all
qed

lemma plan_trim_fresh:
  "\<lbrakk>replay_plan p f wid n = Inr pl; \<forall>q. p = Some q \<longrightarrow> p_start q < wi_start wid\<rbrakk> \<Longrightarrow> trimmed pl rows = rows"
  by (auto simp: replay_plan_def fresh_rule_def result_simps trimmed_def split: option.splits if_split_asm)

lemma below_sandwich:
  "\<lbrakk>below b (xs @ ys) = others; below b xs = others; subseq zs ys\<rbrakk> \<Longrightarrow> below b (xs @ zs) = others"
  by (auto simp: below_append below_def filter_empty_conv dest: subseq_subset [THEN subsetD])

lemma plan_same_base:
  "\<lbrakk>replay_plan (Some q) (Some f) wid n = Inr pl; p_start q = wi_start wid\<rbrakk> \<Longrightarrow> r_seq_base pl = query_base q"
  by (auto simp: replay_plan_def replay_base_def resume_rule_def query_base_def Let_def result_simps
      split: option.splits if_split_asm)

lemma below_trimmed:
  assumes "stamp_inv start evs others p rows" "wi_start wid = start"
    and "replay_plan p (Some (facts_at (asked p) rows)) wid n = Inr pl"
  shows "below (r_seq_base pl) (trimmed pl rows) = others"
proof -
  have "i < n \<Longrightarrow> r_seq_base pl \<le> r_seq_base pl + of_nat i" for i
    using replay_plan_fits [OF assms(3)] unat_base_add [of "r_seq_base pl" i] by (simp add: word_le_nat_alt)
  moreover have "r_events pl = n" using assms(3) by (auto simp: replay_plan_def result_simps)
  ultimately have "below (r_seq_base pl) (appended pl evs) = []"
    by (auto simp: below_def appended_def to_append_def seq_of_def filter_empty_conv not_less)
  with plan_exact(2) [OF assms] show ?thesis by (simp add: below_append)
qed

lemma attempted_inv: "attempted start evs others p rows \<Longrightarrow> stamp_inv start evs others p rows"
proof (induction rule: attempted.induct)
  case (before p)
  then show ?case by (simp add: stamp_inv_def)
next
  case (legacy rows)
  then show ?case by (simp add: stamp_inv_def pending_legacy_def query_base_def below_def)
next
  case (trim p rows wid n pl)
  note inv = trim.IH and ex = plan_exact [OF trim.IH trim.hyps(2,3)]
  show ?case
  proof (cases "\<forall>q. p = Some q \<longrightarrow> p_start q < start")
    case True
    with inv plan_trim_fresh [OF trim.hyps(3)] trim.hyps(2) show ?thesis by (auto simp: stamp_inv_def)
  next
    case False
    then obtain q where q: "p = Some q" "p_start q = start" using inv by (auto simp: stamp_inv_def)
    have b: "r_seq_base pl = query_base q" using plan_same_base trim.hyps(2,3) q by metis
    have "attempt_rows (query_base q) evs (trimmed pl rows)"
      using attempt_rows_subseq [OF attempt_rows_numbered [OF ex(1) replay_plan_fits [OF trim.hyps(3)]]] b
      by (metis subseq_order.order_refl subseq_rev_drop_many)
    with q b below_trimmed [OF inv trim.hyps(2,3)] show ?thesis by (simp add: stamp_inv_def)
  qed
next
  case (torn p rows wid n pl part)
  note inv = torn.IH and ex = plan_exact [OF torn.IH torn.hyps(2,3)]
  have "attempt_rows (r_seq_base pl) evs (trimmed pl rows @ part)"
    using attempt_rows_subseq [OF attempt_rows_numbered [OF ex(1) replay_plan_fits [OF torn.hyps(3)]]]
    by (simp add: subseq_append' torn.hyps(5))
  moreover have "below (r_seq_base pl) (trimmed pl rows @ part) = others"
    by (rule below_sandwich [OF ex(2) below_trimmed [OF inv torn.hyps(2,3)] torn.hyps(5)])
  ultimately show ?case by (simp add: stamp_inv_def pending_recorded_def query_base_def)
qed

text \<open>
  C6: exactly once. However many attempts of a window were interrupted, after the trim,
  after the marker or with any part of their rows landed, and however many events each
  drained, the attempt that completes leaves at the stamp the other writers' rows,
  untouched, and every event of the window once, numbered in order above them.
\<close>

theorem replay_exactly_once:
  assumes "attempted start evs others p rows" "wi_start wid = start"
    and "replay_plan p (Some (facts_at (asked p) rows)) wid n = Inr pl"
  shows "mset (trimmed pl rows @ appended pl evs) = mset others + mset (numbered (r_seq_base pl) evs n)
       \<and> (\<forall>r \<in> set others. fst r < r_seq_base pl) \<and> unat (r_seq_base pl) + n < 2 ^ 32"
proof -
  note ex = plan_exact [OF attempted_inv [OF assms(1)] assms(2,3)]
  have "mset (trimmed pl rows @ appended pl evs) = mset others + mset (numbered (r_seq_base pl) evs n)"
    using mset_below_own [of "r_seq_base pl" "trimmed pl rows @ appended pl evs"] ex by simp
  moreover have "\<forall>r \<in> set others. fst r < r_seq_base pl"
    unfolding ex(2) [symmetric] below_def by auto
  ultimately show ?thesis using replay_plan_fits [OF assms(3)] by blast
qed

text \<open>A first attempt of three events stops after its second row; the re-drain carries two.\<close>

definition sample_wid :: window_id where
  "sample_wid = window_id_new 100 200"

definition first_plan :: rplan where
  "first_plan = \<lparr>r_stamp = 100, r_seq_base = 5, r_skip = 0, r_events = 3, r_trim_from = None,
     r_mark = True, r_watermark = 200\<rparr>"

definition second_plan :: rplan where
  "second_plan = \<lparr>r_stamp = 100, r_seq_base = 5, r_skip = 2, r_events = 2, r_trim_from = None,
     r_mark = False, r_watermark = 200\<rparr>"

lemmas plan_eval = replay_plan_def fresh_rule_def resume_rule_def replay_base_def intact_prefix_def base_plus_def
  checked_add_u32_def u32_try_from_def facts_at_def landed_of_def own_def asked_def sample_wid_def window_id_new_def

lemma first_plan_eval:
  "replay_plan None (Some (facts_at (asked None) [(4, CHR ''z'')])) sample_wid 3 = Inr first_plan"
  by (simp add: plan_eval first_plan_def)

lemma first_attempt:
  "attempted 100 (nth ''abcd'') [(4, CHR ''z'')] (Some (pending_recorded 100 5)) [(4, CHR ''z''), (5, CHR ''a''), (6, CHR ''b'')]"
proof -
  have app: "appended first_plan (nth ''abcd'') = [(5, CHR ''a''), (6, CHR ''b''), (7, CHR ''c'')]"
    by (simp add: appended_def to_append_def seq_of_def first_plan_def upt_rec)
  have "attempted 100 (nth ''abcd'') [(4, CHR ''z'')]
      (Some (pending_recorded 100 (r_seq_base first_plan)))
      (trimmed first_plan [(4, CHR ''z'')] @ [(5, CHR ''a''), (6, CHR ''b'')])"
    by (rule attempted.torn [OF attempted.before _ first_plan_eval])
      (simp_all add: sample_wid_def window_id_new_def app, simp add: first_plan_def)
  then show ?thesis by (simp add: first_plan_def trimmed_def)
qed

theorem replay_exactly_once_witness:
  "mset (trimmed second_plan [(4, CHR ''z''), (5, CHR ''a''), (6, CHR ''b'')] @ appended second_plan (nth ''abcd''))
     = mset [(4, CHR ''z'')] + mset (numbered (r_seq_base second_plan) (nth ''abcd'') 2)
   \<and> 4 < r_seq_base second_plan \<and> unat (r_seq_base second_plan) + 2 < 2 ^ 32"
proof -
  have "wi_start sample_wid = 100"
    "replay_plan (Some (pending_recorded 100 5))
       (Some (facts_at (asked (Some (pending_recorded 100 5))) [(4, CHR ''z''), (5, CHR ''a''), (6, CHR ''b'')]))
       sample_wid 2 = Inr second_plan"
    by (simp_all add: plan_eval second_plan_def pending_recorded_def query_base_def)
  from replay_exactly_once [OF first_attempt this] show ?thesis
    by (simp only: list.set ball_simps fst_conv simp_thms)
qed

text \<open>
  At a stamp only this rule's attempts reached, a plan is refused for one reason only,
  events that would be numbered past 32 bits.
\<close>

lemma replay_plan_total:
  assumes "attempted start evs others p rows" "wi_start wid = start"
  shows "(\<exists>pl. replay_plan p (Some (facts_at (asked p) rows)) wid n = Inr pl)
       \<or> (\<exists>b. replay_plan p (Some (facts_at (asked p) rows)) wid n = Inl (Transfer (Seq_overflow b n)))"
proof -
  have fresh: "(\<exists>x. fresh_rule f n = Inr x) \<or> (\<exists>b. fresh_rule f n = Inl (Transfer (Seq_overflow b n)))" for f
    by (auto simp: fresh_rule_def ok_or_def split: option.splits)
  have resume: "(\<exists>x. resume_rule b l n = Inr x) \<or> resume_rule b l n = Inl (Transfer (Seq_overflow b n))" for b l
    by (auto simp: resume_rule_def Let_def ok_or_def split: option.splits)
  have base: "\<exists>b. replay_base start q (facts_at (query_base q) rows) = Inr b"
    if "attempt_rows (query_base q) evs rows" for q
    using that attempt_distinct [of evs rows "query_base q"]
    by (cases "p_seq_base q") (auto simp: replay_base_def query_base_def)
  have "\<exists>r. replay_plan p (Some (facts_at (asked p) rows)) wid n =
      and_then r (\<lambda>(seq_base, skip, trim_from, mark).
        and_then (ok_or (Transfer (Seq_overflow seq_base n)) (base_plus seq_base n)) (\<lambda>_.
          Inr \<lparr>r_stamp = wi_start wid, r_seq_base = seq_base, r_skip = skip, r_events = n,
               r_trim_from = trim_from, r_mark = mark, r_watermark = wi_end wid\<rparr>))
      \<and> ((\<exists>x. r = Inr x) \<or> (\<exists>b. r = Inl (Transfer (Seq_overflow b n))))"
    using attempted_inv [OF assms(1)] unfolding stamp_inv_def
  proof (elim disjE exE conjE)
    assume "\<forall>q. p = Some q \<longrightarrow> p_start q < start"
    with assms(2) fresh show ?thesis
      by (intro exI [of _ "fresh_rule (Some (facts_at (asked p) rows)) n"])
        (auto simp: replay_plan_def split: option.splits)
  next
    fix q
    assume q: "p = Some q" "p_start q = start" "attempt_rows (query_base q) evs rows"
    from base [OF q(3)] obtain b where "replay_base start q (facts_at (query_base q) rows) = Inr b" ..
    with q assms(2) resume [of b "f_from_base (facts_at (query_base q) rows)"] show ?thesis
      by (intro exI [of _ "resume_rule b (f_from_base (facts_at (query_base q) rows)) n"])
        (auto simp: replay_plan_def asked_def)
  qed
  then show ?thesis
    by (auto simp: ok_or_def split: option.splits)
qed

text \<open>
  No event is appended at a stamp without the marker that names the attempt: a plan
  with something to append marks, and the events it appends are exactly the ones from its
  skip to the window's end.
\<close>

lemma append_marked:
  assumes "replay_plan p f wid n = Inr pl"
  shows "(to_append pl \<noteq> []) = r_mark pl \<and> r_events pl = n \<and> r_skip pl \<le> n
       \<and> r_stamp pl = wi_start wid \<and> r_watermark pl = wi_end wid"
  using assms
  by (auto simp: replay_plan_def fresh_rule_def resume_rule_def to_append_def Let_def result_simps
      split: option.splits if_split_asm)

section \<open>The memo\<close>

text \<open>
  C34: when the memo says nothing has to be read, planning without facts is planning with
  the true ones: the log holds no row at this stamp, as long as every row is below this
  window's start or within the ceiling the run's probe saw.
\<close>

theorem memo_nothing_sound:
  assumes "m (t, sid) = Some s" "memo_ask m t sid wid = Ask_Nothing"
    and "\<forall>x. log x \<noteq> [] \<longrightarrow> x < wi_start wid \<or> (\<exists>c. sn_ceiling s = Some c \<and> x \<le> c)"
  shows "log (wi_start wid) = [] \<and>
    memo_plan m t sid None wid n = memo_plan m t sid (Some (facts_at b (log (wi_start wid)))) wid n"
proof -
  have ask: "\<And>p. sn_pending s = Some p \<Longrightarrow> p_start p \<noteq> wi_start wid" "\<And>c. sn_ceiling s = Some c \<Longrightarrow> c < wi_start wid"
    using assms(1,2) by (auto simp: memo_ask_def split: option.splits if_split_asm)
  then have empty: "log (wi_start wid) = []"
    using assms(3) by fastforce
  then have "fresh_rule None n = fresh_rule (Some (facts_at b (log (wi_start wid)))) n"
    by (simp add: fresh_rule_def facts_at_def landed_of_def)
  with ask(1) assms(1) empty show ?thesis
    by (auto simp: memo_plan_def replay_plan_def split: option.splits)
qed

theorem memo_nothing_sound_witness:
  "(\<lambda>x :: u64. if x = 7 then [(0 :: u32, CHR ''a'')] else []) (wi_start sample_wid) = [] \<and>
    memo_plan (memo_probed [] [] None (Some 7) Map.empty) [] [] None sample_wid 3 =
    memo_plan (memo_probed [] [] None (Some 7) Map.empty) [] []
      (Some (facts_at 0 ((\<lambda>x :: u64. if x = 7 then [(0 :: u32, CHR ''a'')] else []) (wi_start sample_wid)))) sample_wid 3"
  by (rule memo_nothing_sound [where s = "\<lparr>sn_pending = None, sn_ceiling = Some 7\<rparr>"])
    (simp_all add: memo_ask_def memo_probed_def sample_wid_def window_id_new_def)

section \<open>Markers and facts as text\<close>

definition show_u64 :: "nat \<Rightarrow> bytes" where
  "show_u64 n = show_radix 10 n"

lemma plain_digit: "d < 10 \<Longrightarrow> plain (digit_char d)"
  by (simp add: plain_def unat_digit_char)

lemma plain_show: "b \<in> set (show_radix 10 n) \<Longrightarrow> plain b"
proof (induction n rule: less_induct)
  case (less n)
  from less.prems less.IH [of "n div 10"] show ?case
    by (cases "n < 10") (auto simp: show_radix.simps [of 10 n] plain_digit)
qed

lemma trim_show [simp]: "trim_str (show_u64 n) = show_u64 n"
  unfolding show_u64_def by (rule trim_plain) (simp_all add: plain_show [OF hd_in_set] plain_show [OF last_in_set])

lemma count_of_show: "n < 2 ^ 64 \<Longrightarrow> count_of (show_u64 n) = Inr (of_nat n)"
  using parse_show_u64 [of 10 "of_nat n"] trim_show [of n]
  by (simp add: count_of_def show_u64_def unat_of_nat take_bit_nat_eq_self)

lemma unat_of_nat_u64: "n < 2 ^ 64 \<Longrightarrow> unat (of_nat n :: u64) = n"
  by (simp add: unat_of_nat take_bit_nat_eq_self)

lemma of_nat_u64_0: "n < 2 ^ 64 \<Longrightarrow> (of_nat n :: u64) = 0 \<longleftrightarrow> n = 0"
  using unat_of_nat_u64 [of n] by (auto simp: word_unat_eq_iff [of "of_nat n :: u64" 0])

text \<open>
  C35: the marker a plan writes is read back, by the next attempt, as the record of this
  one: the same start and the same base, never as a marker of an older release.
\<close>

theorem marker_roundtrip:
  assumes "replay_plan p f wid n = Inr pl" "marker pl = Some row" "n < 2 ^ 64"
  shows "parse_pending (show_u64 1) (show_u64 (unat (mk_start row))) (show_u64 (unat (mk_seq_base row)))
           (show_u64 (mk_events row))
         = Inr (Some (pending_recorded (wi_start wid) (r_seq_base pl)))"
proof -
  have row: "mk_start row = wi_start wid" "mk_seq_base row = r_seq_base pl" "mk_events row = n" "n > 0"
    using assms(1,2)
    by (auto simp: marker_def replay_plan_def fresh_rule_def resume_rule_def Let_def result_simps
        split: option.splits if_split_asm)
  have b: "unat (r_seq_base pl) < 2 ^ 32" "unat (r_seq_base pl) < 2 ^ 64" "unat (wi_start wid) < 2 ^ 64"
    using unat_u32_less [of "r_seq_base pl"] unat_u64_less [of "wi_start wid"] by (simp_all, linarith)
  have "u32_try_from (unat (r_seq_base pl)) = Some (r_seq_base pl)"
    using b(1) by (simp add: u32_try_from_def)
  moreover have "unat (ucast (r_seq_base pl) :: u64) = unat (r_seq_base pl)"
    using unat_of_nat_u64 [OF b(2)] by simp
  ultimately show ?thesis
    using assms(3) b row by (simp add: parse_pending_def count_of_show unat_of_nat_u64 of_nat_u64_0)
qed

theorem marker_roundtrip_witness:
  "parse_pending (show_u64 1) (show_u64 (unat (100 :: u64))) (show_u64 (unat (5 :: u32))) (show_u64 3)
   = Inr (Some (pending_recorded (wi_start sample_wid) (r_seq_base first_plan)))"
  using marker_roundtrip [OF first_plan_eval, of "\<lparr>mk_start = 100, mk_seq_base = 5, mk_end = 200, mk_events = 3\<rparr>"]
  by (simp add: marker_def first_plan_def)

definition show_max :: "u32 option \<Rightarrow> bytes" where
  "show_max m = (case m of None \<Rightarrow> ascii ''-1'' | Some w \<Rightarrow> show_u64 (unat w))"

lemma max_of_show: "max_of (show_max m) = Inr m"
proof (cases m)
  case None
  have "trim_str (ascii ''-1'') = ascii ''-1''"
    by (rule trim_plain) (simp_all add: plain_def ascii_def)
  with None show ?thesis by (simp add: max_of_def show_max_def)
next
  case (Some w)
  have lt: "unat w < 2 ^ 64" using unat_u32_less [of w] by (simp, linarith)
  have "45 \<notin> set (show_u64 (unat w))"
    unfolding show_u64_def using show_radix_chars [of 10 45 "unat w"] by auto
  then have "show_u64 (unat w) \<noteq> ascii ''-1''"
    by (auto simp: ascii_def)
  moreover have "parse_u32 (show_u64 (unat w)) = Some w"
    using parse_show_u64 [of 10 "of_nat (unat w) :: u64"] unat_of_nat_u64 [OF lt]
    by (simp add: parse_u32_def show_u64_def u32_try_from_def del: of_nat_unat) simp
  ultimately show ?thesis
    using Some by (simp add: max_of_def show_max_def)
qed

lemma read_landed_show:
  assumes "length xs < 2 ^ 64"
  shows "read_landed cs (show_u64 (length xs)) (show_max (l_max_seq (landed_of xs))) = Inr (landed_of xs)"
  using assms by (cases xs) (simp_all add: read_landed_def landed_of_def count_of_show max_of_show of_nat_u64_0 unat_of_nat_u64
      del: of_nat_Suc)

text \<open>
  The facts row of the engines reads back as the facts of the log it was counted over,
  for every log a stamp can hold.
\<close>

lemma parse_facts_roundtrip:
  assumes "length rows < 2 ^ 64" "f = facts_at b rows"
  shows "parse_facts [show_u64 (l_count (f_all f)), show_max (l_max_seq (f_all f)),
            show_u64 (l_count (f_from_base f)), show_max (l_max_seq (f_from_base f)), show_u64 (f_distinct_seq f)]
         = Inr f"
proof -
  have own: "length (own b rows) \<le> length rows" by (simp add: own_def)
  have d: "card (fst ` set rows) \<le> length rows" using card_length [of "map fst rows"] by simp
  have "l_count (landed_of xs) = length xs" for xs by (simp add: landed_of_def)
  with own d assms read_landed_show [of "map fst rows"] read_landed_show [of "map fst (own b rows)"] show ?thesis
    by (simp add: parse_facts_def facts_at_def read_landed_show count_of_show unat_of_nat_u64)
qed

end
