(* ===== verification/Drain.thy ===== *)
theory Drain
  imports Window
begin

text \<open>
  The drain (\<^verbatim>\<open>logbased/drain.rs\<close>): one window of a replication stream. The session is
  what outlives a window (the relation registry, the layouts, the streamed transactions
  in flight, the transaction carried over a layout change); the drain state is one
  window's own. One definition per message of the stream, then the event, the loop and
  the window around it.

  The wire, the clocks and the environment are parameters: the events arrive as a list
  whose end is the end of the stream, and the answers of the clock, the shutdown flag,
  the status reply and the source's current WAL end are functions of the loop's turn.
\<close>

section \<open>Limits\<close>

definition saturating_mul_u64 :: "u64 \<Rightarrow> u64 \<Rightarrow> u64" where
  "saturating_mul_u64 a b = (if unat a * unat b < 2 ^ 64 then a * b else -1)"

text \<open>\<^verbatim>\<open>parse_size\<close>: bytes, with a binary suffix.\<close>

definition size_suffix :: "bytes \<Rightarrow> bytes \<times> u64" where
  "size_suffix v =
     (if v = [] then (v, 1)
      else if last v \<in> {byte_of CHR ''K'', byte_of CHR ''k''} then (butlast v, push_bit 10 1)
      else if last v \<in> {byte_of CHR ''M'', byte_of CHR ''m''} then (butlast v, push_bit 20 1)
      else if last v \<in> {byte_of CHR ''G'', byte_of CHR ''g''} then (butlast v, push_bit 30 1)
      else (v, 1))"

definition parse_size :: "bytes \<Rightarrow> u64 option" where
  "parse_size v0 =
     (case size_suffix (trim_str v0) of (num, mult) \<Rightarrow>
        map_option (\<lambda>n. saturating_mul_u64 n mult) (parse_u64_radix 10 (trim_str num)))"

text \<open>Both read an environment variable; zero or junk is the default.\<close>

definition silence_budget :: "bytes option \<Rightarrow> u64" where
  "silence_budget env =
     (case Option.bind env (parse_u64_radix 10) of
        Some d \<Rightarrow> if d \<noteq> 0 then d else 120
      | None \<Rightarrow> 120)"

definition tx_buf_limit :: "bytes option \<Rightarrow> nat" where
  "tx_buf_limit env =
     (case Option.bind env parse_size of
        Some n \<Rightarrow> if 0 < unat n then unat n else 256 * 2 ^ 20
      | None \<Rightarrow> 256 * 2 ^ 20)"

section \<open>The session\<close>

record rel_state =
  st_table :: bytes
  st_tracked :: bool

type_synonym tx_ops = "(u16 \<times> stream_op) list"

text \<open>The streams are an association list by xid: some iteration order, which nothing reads.\<close>

record session =
  s_rels :: "u32 \<rightharpoonup> u16"
  s_slot_by_name :: "bytes \<rightharpoonup> u16"
  s_slots :: "rel_state list"
  s_last_rel :: "(u32 \<times> u16) option"
  s_rel_oids :: rel_oids
  s_layouts :: "bytes \<rightharpoonup> layout"
  s_carry :: "(tx_ops \<times> u64) option"
  s_streams :: "(u32 \<times> (u16 \<times> stream_op \<times> u32) list) list"
  s_stream_bytes :: nat
  s_expected :: "bytes \<rightharpoonup> u32 \<times> bytes"

definition expecting :: "(bytes \<rightharpoonup> u32 \<times> bytes) \<Rightarrow> session" where
  "expecting expected =
     \<lparr>s_rels = Map.empty, s_slot_by_name = Map.empty, s_slots = [], s_last_rel = None,
      s_rel_oids = Map.empty, s_layouts = Map.empty, s_carry = None, s_streams = [],
      s_stream_bytes = 0, s_expected = expected\<rparr>"

text \<open>Mapping a relation's oid to its slot drops the oids a recreated table had before.\<close>

definition register_rel :: "u32 \<Rightarrow> u16 \<Rightarrow> session \<Rightarrow> session" where
  "register_rel rid slot sess =
     (let stale = (\<lambda>o'. s_rels sess o' = Some slot \<and> o' \<noteq> rid)
      in sess\<lparr>s_rels := (\<lambda>o'. if stale o' then None else s_rels sess o')(rid \<mapsto> slot),
              s_rel_oids := (\<lambda>o'. if stale o' then None else s_rel_oids sess o')\<rparr>)"

definition set_tracked :: "u16 \<Rightarrow> bool \<Rightarrow> session \<Rightarrow> (u16 \<times> session) result" where
  "set_tracked slot tracked sess =
     and_then (index_list (s_slots sess) (unat slot)) (\<lambda>st.
       Inr (slot, sess\<lparr>s_slots := (s_slots sess)[unat slot := st\<lparr>st_tracked := tracked\<rparr>]\<rparr>))"

definition rel_slot :: "bytes \<Rightarrow> bool \<Rightarrow> session \<Rightarrow> (u16 \<times> session) result" where
  "rel_slot table tracked sess =
     (case s_slot_by_name sess table of
        Some s \<Rightarrow> set_tracked s tracked sess
      | None \<Rightarrow>
          if length (s_slots sess) < 2 ^ 16 then
            let s = of_nat (length (s_slots sess)) in
            set_tracked s tracked
              (sess\<lparr>s_slot_by_name := (s_slot_by_name sess)(table \<mapsto> s),
                    s_slots := s_slots sess @ [\<lparr>st_table = table, st_tracked = tracked\<rparr>]\<rparr>)
          else Inl (Transfer Too_many_tables))"

definition cells_bytes :: "tuple \<Rightarrow> nat" where
  "cells_bytes row = length (frame row) + length (cells row) * 12 + 48"

fun op_bytes :: "stream_op \<Rightarrow> nat" where
  "op_bytes (Op_Insert t) = cells_bytes t"
| "op_bytes (Op_Delete t) = cells_bytes t"
| "op_bytes (Op_Update old new _) = cells_bytes new + (case old of None \<Rightarrow> 0 | Some t \<Rightarrow> cells_bytes t)"
| "op_bytes Op_Truncate = 0"

definition layout_of :: "(bytes \<rightharpoonup> layout) \<Rightarrow> bytes \<Rightarrow> layout result" where
  "layout_of layouts table = ok_or (Transfer (No_layout table)) (layouts table)"

text \<open>A row event's slot, through the cache of the last relation; nothing for an untracked table.\<close>

definition slot_if_tracked :: "u16 \<Rightarrow> session \<Rightarrow> (u16 option \<times> session) result" where
  "slot_if_tracked slot sess =
     and_then (index_list (s_slots sess) (unat slot)) (\<lambda>st.
       Inr (if st_tracked st then Some slot else None, sess))"

definition look_up_rel :: "u32 \<Rightarrow> session \<Rightarrow> (u16 option \<times> session) result" where
  "look_up_rel rid sess =
     and_then (ok_or (Transfer (Unknown_relation rid)) (s_rels sess rid)) (\<lambda>slot.
       slot_if_tracked slot (sess\<lparr>s_last_rel := Some (rid, slot)\<rparr>))"

definition tracked :: "u32 \<Rightarrow> session \<Rightarrow> (u16 option \<times> session) result" where
  "tracked rid sess =
     (case s_last_rel sess of
        Some (o', slot) \<Rightarrow> if o' = rid then slot_if_tracked slot sess else look_up_rel rid sess
      | None \<Rightarrow> look_up_rel rid sess)"

definition open_stream :: "session \<Rightarrow> u32 \<Rightarrow> (u16 \<times> stream_op \<times> u32) list result" where
  "open_stream sess x = ok_or (Transfer (Closed_stream x)) (map_of (s_streams sess) x)"

section \<open>Landing a committed transaction\<close>

definition grow :: "nat \<Rightarrow> 'b option list \<Rightarrow> 'b option list" where
  "grow i xs = (if length xs \<le> i then xs @ replicate (i + 1 - length xs) None else xs)"

text \<open>
  One op lands in its table's body, built from the table's current layout when this is
  the window's first op of the table.
\<close>

definition land_op ::
  "(layout \<Rightarrow> 'b) \<Rightarrow> ('b \<Rightarrow> stream_op \<Rightarrow> 'b result) \<Rightarrow> session \<Rightarrow> u16 \<times> stream_op \<Rightarrow>
   'b option list \<Rightarrow> 'b option list result" where
  "land_op new land sess so bodies0 =
     (case so of (slot, op) \<Rightarrow>
        let i = unat slot in
        and_then (index_list (s_slots sess) i) (\<lambda>st.
          let bodies = grow i bodies0 in
          and_then (case bodies ! i of
                      Some b \<Rightarrow> Inr b
                    | None \<Rightarrow> and_then (layout_of (s_layouts sess) (st_table st)) (\<lambda>l. Inr (new l)))
            (\<lambda>b. and_then (land b op) (\<lambda>b. Inr (bodies[i := Some b])))))"

definition collapse_at :: "u64 \<Rightarrow> collapser \<Rightarrow> stream_op \<Rightarrow> collapser result" where
  "collapse_at p c op = collapse_op (collapser_at p c) op"

definition flush_op ::
  "bool \<Rightarrow> u64 \<Rightarrow> session \<Rightarrow> collapser option list \<times> changes option list \<Rightarrow> u16 \<times> stream_op \<Rightarrow>
   (collapser option list \<times> changes option list) result" where
  "flush_op changelog p sess bs so =
     (case bs of (collapsers, changelogs) \<Rightarrow>
        if changelog
        then and_then (land_op changes_new changes_op sess so changelogs) (\<lambda>g. Inr (collapsers, g))
        else and_then (land_op collapser_new (collapse_at p) sess so collapsers) (\<lambda>c. Inr (c, changelogs)))"

definition flush_ops ::
  "tx_ops \<Rightarrow> session \<Rightarrow> collapser option list \<times> changes option list \<Rightarrow> bool \<Rightarrow> u64 \<Rightarrow>
   (collapser option list \<times> changes option list) result" where
  "flush_ops os sess bs changelog p = fold_results (flush_op changelog p sess) bs os"

section \<open>One message\<close>

text \<open>
  A window's configuration. \<open>k_stop_asked\<close>, \<open>k_reply\<close> and the follow mode's clock and WAL
  end are asked once per turn of the loop.
\<close>

record drain_cfg =
  k_cols :: "bytes \<rightharpoonup> bytes list"
  k_changelog :: bool
  k_max_buf :: nat
  k_tx_limit :: nat
  k_keep_binary :: bool
  k_render :: "u32 \<Rightarrow> bytes \<Rightarrow> bytes result"
  k_stop_asked :: "nat \<Rightarrow> bool"
  k_reply :: "nat \<Rightarrow> unit result"
  k_follow :: "(nat \<times> (nat \<Rightarrow> bool) \<times> (nat \<Rightarrow> bytes result)) option"

record drain_state =
  d_sess :: session
  d_collapsers :: "collapser option list"
  d_changelogs :: "changes option list"
  d_tx :: tx_ops
  d_tx_bytes :: nat
  d_end :: u64
  d_buf :: nat
  d_hit :: bool
  d_in :: "u32 option"
  d_relayout :: bool
  d_stop :: u64

text \<open>Whether the loop goes on.\<close>

datatype flow = Go drain_state | Break drain_state

definition buffered :: "drain_state \<Rightarrow> nat" where
  "buffered d = d_buf d + s_stream_bytes (d_sess d)"

definition land_tx :: "drain_cfg \<Rightarrow> tx_ops \<Rightarrow> u64 \<Rightarrow> drain_state \<Rightarrow> drain_state result" where
  "land_tx cfg os e d =
     and_then (flush_ops os (d_sess d) (d_collapsers d, d_changelogs d) (k_changelog cfg) e)
       (\<lambda>(cs, gs). Inr (d\<lparr>d_collapsers := cs, d_changelogs := gs, d_end := e\<rparr>))"

text \<open>After a landed commit: the stop line, then the budget.\<close>

definition after_commit :: "drain_cfg \<Rightarrow> u64 \<Rightarrow> drain_state \<Rightarrow> flow" where
  "after_commit cfg e d =
     (if d_stop d \<le> e then Break d
      else if k_max_buf cfg \<le> buffered d then Break (d\<lparr>d_hit := True\<rparr>)
      else Go d)"

definition carry_over :: "tx_ops \<Rightarrow> u64 \<Rightarrow> drain_state \<Rightarrow> flow" where
  "carry_over os e d =
     Break (d\<lparr>d_sess := (d_sess d)\<lparr>s_carry := Some (os, e)\<rparr>, d_tx := [], d_hit := True\<rparr>)"

definition on_begin :: "drain_state \<Rightarrow> drain_state" where
  "on_begin d = d\<lparr>d_tx := [], d_tx_bytes := 0\<rparr>"

definition on_commit :: "drain_cfg \<Rightarrow> u64 \<Rightarrow> drain_state \<Rightarrow> flow result" where
  "on_commit cfg e d =
     (if d_relayout d then Inr (carry_over (d_tx d) e d)
      else and_then (land_tx cfg (d_tx d) e d) (\<lambda>d.
             Inr (after_commit cfg e (d\<lparr>d_tx := [], d_tx_bytes := 0\<rparr>))))"

definition on_stream_start :: "u32 \<Rightarrow> drain_state \<Rightarrow> drain_state" where
  "on_stream_start xid d =
     (let sess = d_sess d in
      d\<lparr>d_in := Some xid,
        d_sess := sess\<lparr>s_streams :=
          (case map_of (s_streams sess) xid of
             None \<Rightarrow> AList.update xid [] (s_streams sess)
           | Some _ \<Rightarrow> s_streams sess)\<rparr>\<rparr>)"

definition stream_size :: "(u16 \<times> stream_op \<times> u32) list \<Rightarrow> nat" where
  "stream_size os = sum_list (map (\<lambda>(_, op, _). op_bytes op) os)"

text \<open>A committed stream leaves the session with its ops and their charge.\<close>

definition take_stream :: "u32 \<Rightarrow> session \<Rightarrow> (u16 \<times> stream_op \<times> u32) list \<times> session" where
  "take_stream xid sess =
     (let os = (case map_of (s_streams sess) xid of None \<Rightarrow> [] | Some os \<Rightarrow> os)
      in (os, sess\<lparr>s_streams := AList.delete xid (s_streams sess),
                    s_stream_bytes := s_stream_bytes sess - stream_size os\<rparr>))"

definition on_stream_commit :: "drain_cfg \<Rightarrow> u32 \<Rightarrow> u64 \<Rightarrow> drain_state \<Rightarrow> flow result" where
  "on_stream_commit cfg xid e d0 =
     (case take_stream xid (d_sess d0) of (os, sess) \<Rightarrow>
        let d = d0\<lparr>d_sess := sess\<rparr>;
            tx = map (\<lambda>(t, op, _). (t, op)) os
        in if d_relayout d
           then Inr (Break (d\<lparr>d_sess := sess\<lparr>s_carry := Some (tx, e)\<rparr>, d_hit := True\<rparr>))
           else and_then (land_tx cfg tx e (d\<lparr>d_buf := d_buf d + stream_size os\<rparr>)) (\<lambda>d.
                  Inr (after_commit cfg e d)))"

definition abort_stream :: "u32 \<Rightarrow> u32 \<Rightarrow> session \<Rightarrow> session" where
  "abort_stream xid sub_xid sess =
     (case map_of (s_streams sess) xid of
        None \<Rightarrow> sess
      | Some os \<Rightarrow>
          let freed = stream_size (filter (\<lambda>(_, _, sx). sx = sub_xid \<or> sub_xid = xid) os);
              kept = (if sub_xid = xid then [] else filter (\<lambda>(_, _, sx). sx \<noteq> sub_xid) os);
              streams = AList.update xid kept (s_streams sess)
          in sess\<lparr>s_streams := (if sub_xid = xid then AList.delete xid streams else streams),
                  s_stream_bytes := s_stream_bytes sess - freed\<rparr>)"

definition on_stream_abort :: "u32 \<Rightarrow> u32 \<Rightarrow> drain_state \<Rightarrow> drain_state" where
  "on_stream_abort xid sub_xid d = d\<lparr>d_sess := abort_stream xid sub_xid (d_sess d)\<rparr>"

text \<open>A table dropped and recreated under a tracked name is refused.\<close>

definition check_expected :: "session \<Rightarrow> bytes \<Rightarrow> bool \<Rightarrow> u32 \<Rightarrow> unit result" where
  "check_expected sess table is_tracked rid =
     (case s_expected sess table of
        Some (want, dest) \<Rightarrow>
          if is_tracked \<and> want \<noteq> rid then Inl (InvalidInput (Recreated_table table dest rid want)) else Inr ()
      | None \<Rightarrow> Inr ())"

text \<open>
  A Relation: the session learns its columns, slot and layout; the last component says
  that the layout of the slot's table changed.
\<close>

definition announce :: "drain_cfg \<Rightarrow> relation \<Rightarrow> session \<Rightarrow> (session \<times> u16 \<times> bool) result" where
  "announce cfg r sess0 =
     (let sess = sess0\<lparr>s_rel_oids := (s_rel_oids sess0)(rel_id r \<mapsto> map rc_type_oid (rel_cols r))\<rparr>;
          table = qualified_name (namespace r) (rel_name r) in
      and_then (from_relation r (k_cols cfg)) (\<lambda>lay.
      and_then (check_expected sess table (lay \<noteq> None) (rel_id r)) (\<lambda>_.
      and_then (rel_slot table (lay \<noteq> None) sess) (\<lambda>(slot, sess).
        let changed = (case lay of None \<Rightarrow> False | Some new \<Rightarrow> s_layouts sess table \<noteq> Some new);
            sess = (case lay of
                      Some new \<Rightarrow> if changed then sess\<lparr>s_layouts := (s_layouts sess)(table \<mapsto> new)\<rparr> else sess
                    | None \<Rightarrow> sess);
            sess = register_rel (rel_id r) slot sess
        in Inr (sess\<lparr>s_last_rel := Some (rel_id r, slot)\<rparr>, slot, changed)))))"

definition has_body :: "'b option list \<Rightarrow> nat \<Rightarrow> bool" where
  "has_body bodies i = (i < length bodies \<and> bodies ! i \<noteq> None)"

definition on_relation :: "drain_cfg \<Rightarrow> relation \<Rightarrow> drain_state \<Rightarrow> drain_state result" where
  "on_relation cfg r d =
     and_then (announce cfg r (d_sess d)) (\<lambda>(sess, slot, changed).
       Inr (d\<lparr>d_sess := sess,
              d_relayout := d_relayout d \<or>
                changed \<and> (has_body (d_collapsers d) (unat slot) \<or> has_body (d_changelogs d) (unat slot))\<rparr>))"

text \<open>A row op goes to the open stream block or to the transaction, within the cap.\<close>

definition buffer_op :: "drain_cfg \<Rightarrow> u16 \<Rightarrow> stream_op \<Rightarrow> nat \<Rightarrow> u32 option \<Rightarrow> drain_state \<Rightarrow> drain_state result" where
  "buffer_op cfg t op n change_xid d =
     (let sess = d_sess d in
      case d_in d of
        Some x \<Rightarrow>
          let held = s_stream_bytes sess + n in
          if k_tx_limit cfg < held
          then Inl (Transfer (Streams_too_big (length (s_streams sess)) held (k_tx_limit cfg)))
          else and_then (open_stream sess x) (\<lambda>os.
                 Inr (d\<lparr>d_sess := sess\<lparr>s_stream_bytes := held,
                        s_streams := AList.update x
                          (os @ [(t, op, case change_xid of Some y \<Rightarrow> y | None \<Rightarrow> x)]) (s_streams sess)\<rparr>\<rparr>))
      | None \<Rightarrow>
          let held = d_tx_bytes d + n in
          if k_tx_limit cfg < held
          then and_then (index_list (s_slots sess) (unat t)) (\<lambda>st.
                 Inl (Transfer (Tx_too_big (st_table st) held (k_tx_limit cfg))))
          else Inr (d\<lparr>d_buf := d_buf d + n, d_tx_bytes := held, d_tx := d_tx d @ [(t, op)]\<rparr>))"

definition on_row ::
  "drain_cfg \<Rightarrow> u32 \<Rightarrow> stream_op \<Rightarrow> nat \<Rightarrow> u32 option \<Rightarrow> drain_state \<Rightarrow> drain_state result" where
  "on_row cfg rid op n change_xid d =
     and_then (tracked rid (d_sess d)) (\<lambda>(t, sess).
       let d = d\<lparr>d_sess := sess\<rparr> in
       case t of None \<Rightarrow> Inr d | Some t \<Rightarrow> buffer_op cfg t op n change_xid d)"

definition on_insert :: "drain_cfg \<Rightarrow> u32 \<Rightarrow> tuple \<Rightarrow> u32 option \<Rightarrow> drain_state \<Rightarrow> drain_state result" where
  "on_insert cfg rid new change_xid = on_row cfg rid (Op_Insert new) (cells_bytes new) change_xid"

definition on_update ::
  "drain_cfg \<Rightarrow> u32 \<Rightarrow> old_image option \<Rightarrow> tuple \<Rightarrow> u32 option \<Rightarrow> drain_state \<Rightarrow> drain_state result" where
  "on_update cfg rid old new change_xid =
     (let old_full = (case old of None \<Rightarrow> False | Some o' \<Rightarrow> full o');
          old = map_option old_tuple old
      in on_row cfg rid (Op_Update old new old_full)
           (cells_bytes new + (case old of None \<Rightarrow> 0 | Some t \<Rightarrow> cells_bytes t)) change_xid)"

definition on_delete :: "drain_cfg \<Rightarrow> u32 \<Rightarrow> old_image \<Rightarrow> u32 option \<Rightarrow> drain_state \<Rightarrow> drain_state result" where
  "on_delete cfg rid old change_xid =
     on_row cfg rid (Op_Delete (old_tuple old)) (cells_bytes (old_tuple old)) change_xid"

text \<open>A truncate buffers nothing but itself, so no cap is asked.\<close>

definition buffer_truncate :: "u32 option \<Rightarrow> drain_state \<Rightarrow> u32 \<Rightarrow> drain_state result" where
  "buffer_truncate change_xid d0 rid =
     and_then (tracked rid (d_sess d0)) (\<lambda>(t, sess).
       let d = d0\<lparr>d_sess := sess\<rparr> in
       case t of
         None \<Rightarrow> Inr d
       | Some t \<Rightarrow>
           (case d_in d of
              Some x \<Rightarrow> and_then (open_stream sess x) (\<lambda>os.
                Inr (d\<lparr>d_sess := sess\<lparr>s_streams := AList.update x
                   (os @ [(t, Op_Truncate, case change_xid of Some y \<Rightarrow> y | None \<Rightarrow> x)]) (s_streams sess)\<rparr>\<rparr>))
            | None \<Rightarrow> Inr (d\<lparr>d_tx := d_tx d @ [(t, Op_Truncate)]\<rparr>)))"

definition on_truncate :: "u32 list \<Rightarrow> u32 option \<Rightarrow> drain_state \<Rightarrow> drain_state result" where
  "on_truncate rel_ids change_xid d = fold_results (buffer_truncate change_xid) d rel_ids"

definition go :: "drain_state result \<Rightarrow> flow result" where
  "go m = and_then m (\<lambda>d. Inr (Go d))"

fun on_message :: "drain_cfg \<Rightarrow> pgo_message \<Rightarrow> u32 option \<Rightarrow> drain_state \<Rightarrow> flow result" where
  "on_message cfg (Pgo_Begin _ _ _) x d = Inr (Go (on_begin d))"
| "on_message cfg (Pgo_Commit _ e _) x d = on_commit cfg e d"
| "on_message cfg (Pgo_StreamStart xid) x d = Inr (Go (on_stream_start xid d))"
| "on_message cfg Pgo_StreamStop x d = Inr (Go (d\<lparr>d_in := None\<rparr>))"
| "on_message cfg (Pgo_StreamCommit xid e) x d = on_stream_commit cfg xid e d"
| "on_message cfg (Pgo_StreamAbort xid sub_xid) x d = Inr (Go (on_stream_abort xid sub_xid d))"
| "on_message cfg (Pgo_Relation r) x d = go (on_relation cfg r d)"
| "on_message cfg (Pgo_Insert rid new) x d = go (on_insert cfg rid new x d)"
| "on_message cfg (Pgo_Update rid old new) x d = go (on_update cfg rid old new x d)"
| "on_message cfg (Pgo_Delete rid old) x d = go (on_delete cfg rid old x d)"
| "on_message cfg (Pgo_Truncate rel_ids _ _) x d = go (on_truncate rel_ids x d)"
| "on_message cfg Pgo_Origin x d = Inr (Go d)"
| "on_message cfg Pgo_Type x d = Inr (Go d)"

section \<open>Events and the loop\<close>

datatype wal_event = XLogData u64 bytes | Keepalive u64 bool

text \<open>
  Caught up: the window ends at the server's WAL end, not past the stop line. In follow
  mode a window below its floor rolls the stop line instead and stays open.
\<close>

definition caught_up :: "u64 \<Rightarrow> drain_state \<Rightarrow> flow" where
  "caught_up wal_end d =
     (let e = min wal_end (d_stop d) in Break (if d_end d < e then d\<lparr>d_end := e\<rparr> else d))"

definition on_keepalive :: "drain_cfg \<Rightarrow> nat \<Rightarrow> u64 \<Rightarrow> bool \<Rightarrow> drain_state \<Rightarrow> flow result" where
  "on_keepalive cfg turn wal_end reply_requested d =
     and_then (if reply_requested then k_reply cfg turn else Inr ()) (\<lambda>_.
       if d_stop d \<le> wal_end \<and> d_tx d = [] \<and> d_in d = None then
         (case k_follow cfg of
            Some (least, in_time, wal_now) \<Rightarrow>
              if buffered d < least \<and> in_time turn
              then and_then (wal_now turn) (\<lambda>t. and_then (lsn_from_string t) (\<lambda>now.
                     Inr (Go (if d_stop d < now then d\<lparr>d_stop := now\<rparr> else d))))
              else Inr (caught_up wal_end d)
          | None \<Rightarrow> Inr (caught_up wal_end d))
       else Inr (Go d))"

fun on_event :: "drain_cfg \<Rightarrow> nat \<Rightarrow> wal_event \<Rightarrow> drain_state \<Rightarrow> flow result" where
  "on_event cfg turn (Keepalive wal_end reply_requested) d = on_keepalive cfg turn wal_end reply_requested d"
| "on_event cfg turn (XLogData _ payload) d =
     and_then (decode (k_render cfg) payload (d_in d \<noteq> None) (s_rel_oids (d_sess d)) (k_keep_binary cfg))
       (\<lambda>(msg, change_xid). on_message cfg msg change_xid d)"

text \<open>The loop gives back the events it did not read: the next window's.\<close>

fun drain_loop ::
  "drain_cfg \<Rightarrow> nat \<Rightarrow> wal_event result list \<Rightarrow> drain_state \<Rightarrow> (drain_state \<times> wal_event result list) result" where
  "drain_loop cfg turn [] d = Inr (d, [])"
| "drain_loop cfg turn (ev # evs) d =
     (if k_stop_asked cfg turn \<and> d_tx d = [] \<and> d_in d = None then Inr (d, ev # evs)
      else and_then ev (\<lambda>ev. and_then (on_event cfg turn ev d) (\<lambda>f.
             case f of
               Break d \<Rightarrow> Inr (d, evs)
             | Go d \<Rightarrow> drain_loop cfg (turn + 1) evs d)))"

section \<open>The window\<close>

definition drain_new :: "session \<Rightarrow> u64 \<Rightarrow> u64 \<Rightarrow> drain_state" where
  "drain_new sess start stop =
     \<lparr>d_sess = sess, d_collapsers = [], d_changelogs = [], d_tx = [], d_tx_bytes = 0, d_end = start,
      d_buf = 0, d_hit = False, d_in = None, d_relayout = False, d_stop = stop\<rparr>"

text \<open>The transaction the previous window stopped short of opens this one.\<close>

definition open_carry :: "drain_cfg \<Rightarrow> drain_state \<Rightarrow> flow result" where
  "open_carry cfg d0 =
     (case s_carry (d_sess d0) of
        None \<Rightarrow> Inr (Go d0)
      | Some (os, e) \<Rightarrow>
          let d = d0\<lparr>d_sess := (d_sess d0)\<lparr>s_carry := None\<rparr>,
                     d_buf := d_buf d0 + sum_list (map (\<lambda>(_, op). op_bytes op) os)\<rparr>
          in and_then (land_tx cfg os e d) (\<lambda>d. Inr (if d_stop d \<le> e then Break d else Go d)))"

definition named_bodies :: "rel_state list \<Rightarrow> 'b option list \<Rightarrow> (bytes \<times> 'b) list" where
  "named_bodies slots bodies =
     List.map_filter (\<lambda>(st, b). map_option (\<lambda>b. (st_table st, b)) b) (zip slots bodies)"

definition seal_window :: "drain_cfg \<Rightarrow> u64 \<Rightarrow> drain_state \<Rightarrow> drain_outcome result" where
  "seal_window cfg start d =
     and_then (bodies_seal (k_changelog cfg) (named_bodies (s_slots (d_sess d)) (d_collapsers d))
                 (named_bodies (s_slots (d_sess d)) (d_changelogs d)))
       (\<lambda>b. Inr \<lparr>o_bodies = b, o_id = window_id_new start (d_end d), o_hit_budget = d_hit d,
                 o_binary = k_keep_binary cfg\<rparr>)"

definition drain_run ::
  "drain_cfg \<Rightarrow> session \<Rightarrow> u64 \<Rightarrow> u64 \<Rightarrow> wal_event result list \<Rightarrow> (drain_state \<times> wal_event result list) result" where
  "drain_run cfg sess start stop evs =
     and_then (open_carry cfg (drain_new sess start stop)) (\<lambda>f.
       case f of Break d \<Rightarrow> Inr (d, evs) | Go d \<Rightarrow> drain_loop cfg 0 evs d)"

definition drain ::
  "drain_cfg \<Rightarrow> session \<Rightarrow> u64 \<Rightarrow> u64 \<Rightarrow> wal_event result list \<Rightarrow>
   (drain_outcome \<times> session \<times> wal_event result list) result" where
  "drain cfg sess start stop evs =
     and_then (drain_run cfg sess start stop evs) (\<lambda>(d, rest).
     and_then (seal_window cfg start d) (\<lambda>o'. Inr (o', d_sess d, rest)))"

end
