(* ===== verification/Drain_Session.thy ===== *)
theory Drain_Session
  imports Drain
begin

text \<open>
  What a session keeps while it is drained: the bytes charged for the streamed
  transactions are exactly the bytes they hold and never pass the cap, and the registry
  of relations stays coherent, so that no buffered op is without its table and layout.
\<close>

section \<open>A small stream\<close>

text \<open>
  A relation with one key column, a transaction that inserts one row, and a keepalive: the
  bytes of a stream two windows drain, for the concrete cases below.
\<close>

definition sample_relation :: bytes where
  "sample_relation = [82, 0, 0, 0, 7, 115, 0, 116, 0, 100, 0, 1, 1, 107, 0, 0, 0, 0, 20, 255, 255, 255, 255]"

definition sample_begin :: bytes where
  "sample_begin = [66, 0, 0, 0, 0, 0, 0, 0, 0, 0, 0, 0, 0, 0, 0, 0, 0, 0, 0, 0, 9]"

definition sample_change :: bytes where
  "sample_change = [73, 0, 0, 0, 7, 78, 0, 1, 116, 0, 0, 0, 2, 52, 50]"

definition null_change :: bytes where
  "null_change = [73, 0, 0, 0, 7, 78, 0, 1, 110]"

definition sample_commit :: bytes where
  "sample_commit = [67, 0, 0, 0, 0, 0, 0, 0, 0, 50, 0, 0, 0, 0, 0, 0, 0, 60, 0, 0, 0, 0, 0, 0, 0, 0]"

definition sample_rel :: relation where
  "sample_rel = \<lparr>rel_id = 7, namespace = ascii ''s'', rel_name = ascii ''t'', replica_identity = byte_of CHR ''d'',
     rel_cols = [\<lparr>rc_key = True, rc_name = ascii ''k'', rc_type_oid = 20, rc_type_mod = -1\<rparr>]\<rparr>"

definition sample_new :: tuple where
  "sample_new = \<lparr>frame = sample_change, cells = [RText 13 2]\<rparr>"

definition null_new :: tuple where
  "null_new = \<lparr>frame = null_change, cells = [RNull]\<rparr>"

lemma sample_decodes:
  "decode hex_render sample_relation False oids False = Inr (Pgo_Relation sample_rel, None)"
  "decode hex_render sample_begin False oids False = Inr (Pgo_Begin 0 0 9, None)"
  "decode hex_render sample_change False oids False = Inr (Pgo_Insert 7 sample_new, None)"
  "decode hex_render null_change False oids False = Inr (Pgo_Insert 7 null_new, None)"
  "decode hex_render sample_commit False oids False = Inr (Pgo_Commit 50 60 0, None)"
  by (simp_all add: decode_eval decode_relation_def read_cstr_def read_i32_def read_u64_def read_i64_def decode_begin_def
      decode_commit_def sample_relation_def sample_rel_def sample_begin_def sample_change_def sample_new_def
      null_change_def null_new_def sample_commit_def)

definition sample_cfg :: drain_cfg where
  "sample_cfg = \<lparr>k_cols = [ascii ''s.t'' \<mapsto> [ascii ''k'']], k_changelog = False, k_max_buf = 1, k_tx_limit = 1000,
     k_keep_binary = False, k_render = hex_render, k_stop_asked = (\<lambda>_. False), k_reply = (\<lambda>_. Inr ()), k_follow = None\<rparr>"

definition key_layout :: layout where
  "key_layout = \<lparr>l_cols = [ascii ''k''], l_oids = [20], l_key_cols = [ascii ''k''], l_key_idx = [0]\<rparr>"

definition sample_session :: session where
  "sample_session = \<lparr>s_rels = [7 \<mapsto> 0], s_slot_by_name = [ascii ''s.t'' \<mapsto> 0],
     s_slots = [\<lparr>st_table = ascii ''s.t'', st_tracked = True\<rparr>], s_last_rel = Some (7, 0), s_rel_oids = [7 \<mapsto> [20]],
     s_layouts = [ascii ''s.t'' \<mapsto> key_layout], s_carry = None, s_streams = [], s_stream_bytes = 0,
     s_expected = Map.empty\<rparr>"

lemma sample_announce: "announce sample_cfg sample_rel (expecting Map.empty) = Inr (sample_session, 0, True)"
  by (simp add: announce_def from_relation_def qualified_name_def sample_rel_def sample_cfg_def byte_of_def ascii_def
      key_positions_def check_expected_def expecting_def rel_slot_def set_tracked_def register_rel_def index_list_def
      sample_session_def key_layout_def Let_def) (simp add: fun_eq_iff)

lemma sample_fields [simp]:
  "s_carry (expecting ex) = None" "s_streams (expecting ex) = []" "s_stream_bytes (expecting ex) = 0"
  "s_rel_oids (expecting ex) = Map.empty" "s_carry sample_session = None" "s_streams sample_session = []"
  "s_stream_bytes sample_session = 0" "s_last_rel sample_session = Some (7, 0)"
  "s_slots sample_session = [\<lparr>st_table = ascii ''s.t'', st_tracked = True\<rparr>]"
  "s_layouts sample_session = [ascii ''s.t'' \<mapsto> key_layout]"
  "k_changelog sample_cfg = False" "k_max_buf sample_cfg = 1" "k_tx_limit sample_cfg = 1000"
  "k_keep_binary sample_cfg = False" "k_render sample_cfg = hex_render" "k_stop_asked sample_cfg n = False"
  "k_reply sample_cfg n = Inr ()" "k_follow sample_cfg = None"
  "cells_bytes sample_new = 75" "cells_bytes null_new = 69"
  by (simp_all add: expecting_def sample_session_def sample_cfg_def cells_bytes_def sample_new_def sample_change_def
      null_new_def null_change_def)

lemmas drain_eval = drain_def drain_run_def open_carry_def drain_new_def on_relation_def sample_announce has_body_def
  go_def on_begin_def on_insert_def on_row_def tracked_def slot_if_tracked_def buffer_op_def on_commit_def land_tx_def
  flush_ops_def flush_op_def land_op_def grow_def layout_of_def after_commit_def buffered_def seal_window_def
  bodies_seal_def on_keepalive_def caught_up_def sample_decodes Let_def

section \<open>Association lists with distinct keys\<close>

lemma alist_sum_delete:
  assumes "distinct (map fst xs)" "map_of xs k = Some v"
  shows "sum_list (map (f \<circ> snd) (AList.delete k xs)) + f v = (sum_list (map (f \<circ> snd) xs) :: nat)"
  using assms
proof (induction xs)
  case (Cons x xs)
  show ?case
  proof (cases "fst x = k")
    case True
    with Cons.prems have "k \<notin> fst ` set xs" "snd x = v" by auto
    then show ?thesis
      using True by (cases x) (simp add: delete_id)
  next
    case False
    with Cons show ?thesis by (cases x) (auto simp: AList.delete_eq)
  qed
qed simp

lemma alist_delete_None: "map_of xs k = None \<Longrightarrow> AList.delete k xs = xs"
  by (simp add: delete_id map_of_eq_None_iff)

lemma alist_sum_update:
  assumes "distinct (map fst xs)"
  shows "sum_list (map (f \<circ> snd) (AList.update k v xs)) + (case map_of xs k of Some u \<Rightarrow> f u | None \<Rightarrow> 0)
           = sum_list (map (f \<circ> snd) xs) + (f v :: nat)"
  using assms
proof (induction xs)
  case (Cons x xs)
  then show ?case by (cases x) auto
qed simp

section \<open>What the streams hold\<close>

definition tx_size :: "tx_ops \<Rightarrow> nat" where
  "tx_size xs = sum_list (map (\<lambda>(_, op). op_bytes op) xs)"

definition streams_size :: "session \<Rightarrow> nat" where
  "streams_size sess = sum_list (map (stream_size \<circ> snd) (s_streams sess))"

text \<open>The charge is exact: it is what the open streams hold, each under one entry.\<close>

definition accounted :: "session \<Rightarrow> bool" where
  "accounted sess \<longleftrightarrow> distinct (map fst (s_streams sess)) \<and> s_stream_bytes sess = streams_size sess"

lemma stream_size_append [simp]: "stream_size (xs @ ys) = stream_size xs + stream_size ys"
  by (simp add: stream_size_def)

lemma stream_size_simps [simp]: "stream_size [] = 0" "stream_size ((t, op, x) # xs) = op_bytes op + stream_size xs"
  by (simp_all add: stream_size_def)

lemma stream_size_filter: "stream_size (filter p xs) + stream_size (filter (\<lambda>x. \<not> p x) xs) = stream_size xs"
  by (induction xs) (auto simp: stream_size_def)

lemma take_stream_accounted:
  assumes "accounted sess" "take_stream xid sess = (xs, sess')"
  shows "accounted sess' \<and> s_stream_bytes sess' + stream_size xs = s_stream_bytes sess"
proof (cases "map_of (s_streams sess) xid")
  case None
  with assms show ?thesis
    by (auto simp: take_stream_def accounted_def streams_size_def alist_delete_None)
next
  case (Some ys)
  with alist_sum_delete [of "s_streams sess" xid ys stream_size] assms show ?thesis
    by (auto simp: take_stream_def accounted_def streams_size_def distinct_delete)
qed

lemma abort_stream_accounted:
  assumes "accounted sess"
  shows "accounted (abort_stream xid sub sess)"
proof (cases "map_of (s_streams sess) xid")
  case None
  then show ?thesis using assms by (simp add: abort_stream_def)
next
  case (Some xs)
  let ?kept = "if sub = xid then [] else filter (\<lambda>(_, _, sx). sx \<noteq> sub) xs"
  have d: "distinct (map fst (s_streams sess))" "s_stream_bytes sess = streams_size sess"
    using assms by (auto simp: accounted_def)
  note upd = alist_sum_update [OF d(1), of stream_size xid ?kept]
  have size: "stream_size (filter (\<lambda>(_, _, sx). sx = sub \<or> sub = xid) xs) + stream_size ?kept = stream_size xs"
    using stream_size_filter [of "\<lambda>(_, _, sx). sx = sub" xs] by (simp add: case_prod_unfold)
  have del: "sum_list (map (stream_size \<circ> snd) (AList.delete xid (AList.update xid ?kept (s_streams sess)))) + stream_size ?kept
      = sum_list (map (stream_size \<circ> snd) (AList.update xid ?kept (s_streams sess)))"
    by (rule alist_sum_delete) (simp_all add: d distinct_update update_conv')
  show ?thesis
    using Some d upd size del
    by (auto simp: abort_stream_def accounted_def streams_size_def distinct_update distinct_delete Let_def)
qed

section \<open>Frames: what the registry's operations leave alone\<close>

lemma slot_if_tracked_frame: "slot_if_tracked s sess = Inr (t, sess') \<Longrightarrow> sess' = sess"
  by (auto simp: slot_if_tracked_def result_simps)

lemma tracked_frame:
  assumes "tracked rid sess = Inr (t, sess')"
  obtains l where "sess' = sess\<lparr>s_last_rel := l\<rparr>"
proof -
  have "sess' = sess\<lparr>s_last_rel := s_last_rel sess'\<rparr>"
    using assms by (auto simp: tracked_def look_up_rel_def result_simps dest!: slot_if_tracked_frame
        split: option.split_asm if_split_asm)
  then show ?thesis by (rule that)
qed

lemma set_tracked_frame:
  "set_tracked s b sess = Inr (s', sess') \<Longrightarrow>
   s_streams sess' = s_streams sess \<and> s_stream_bytes sess' = s_stream_bytes sess \<and> s_carry sess' = s_carry sess"
  by (auto simp: set_tracked_def result_simps)

lemma rel_slot_frame:
  "rel_slot t b sess = Inr (s, sess') \<Longrightarrow>
   s_streams sess' = s_streams sess \<and> s_stream_bytes sess' = s_stream_bytes sess \<and> s_carry sess' = s_carry sess"
  by (auto simp: rel_slot_def Let_def dest!: set_tracked_frame split: option.split_asm if_split_asm)

lemma announce_frame:
  assumes "announce cfg r sess = Inr (sess', slot, changed)"
  shows "s_streams sess' = s_streams sess \<and> s_stream_bytes sess' = s_stream_bytes sess \<and> s_carry sess' = s_carry sess"
  using assms
  by (auto simp: announce_def register_rel_def Let_def result_simps dest!: rel_slot_frame
      split: option.split_asm if_split_asm)

lemma land_tx_frame:
  "land_tx cfg xs e d = Inr d' \<Longrightarrow> \<exists>cs gs. d' = d\<lparr>d_collapsers := cs, d_changelogs := gs, d_end := e\<rparr>"
  by (auto simp: land_tx_def result_simps)

section \<open>The caps hold\<close>

definition within_caps :: "drain_cfg \<Rightarrow> session \<Rightarrow> bool" where
  "within_caps cfg sess \<longleftrightarrow> accounted sess \<and> s_stream_bytes sess \<le> k_tx_limit cfg"

definition held :: "drain_cfg \<Rightarrow> drain_state \<Rightarrow> bool" where
  "held cfg d \<longleftrightarrow> within_caps cfg (d_sess d) \<and> d_tx_bytes d = tx_size (d_tx d) \<and> d_tx_bytes d \<le> k_tx_limit cfg"

fun flow_state :: "flow \<Rightarrow> drain_state" where
  "flow_state (Go d) = d"
| "flow_state (Break d) = d"

text \<open>Going on keeps the whole invariant; a window that ends keeps the session's part of it.\<close>

definition held_flow :: "drain_cfg \<Rightarrow> flow \<Rightarrow> bool" where
  "held_flow cfg f \<longleftrightarrow> within_caps cfg (d_sess (flow_state f)) \<and> (\<forall>d. f = Go d \<longrightarrow> held cfg d)"

lemma tx_size_simps [simp]: "tx_size [] = 0" "tx_size (xs @ [(t, op)]) = tx_size xs + op_bytes op"
  by (simp_all add: tx_size_def)

lemma held_go: "held cfg d \<Longrightarrow> held_flow cfg (Go d)"
  by (simp add: held_flow_def held_def)

lemma after_commit_held:
  "held cfg d \<Longrightarrow> held_flow cfg (after_commit cfg e d)"
  by (simp add: after_commit_def held_flow_def held_def)

lemma stream_update_caps:
  assumes "within_caps cfg sess" "map_of (s_streams sess) x = Some xs"
    and "s_stream_bytes sess + op_bytes op \<le> k_tx_limit cfg"
  shows "within_caps cfg (sess\<lparr>s_stream_bytes := s_stream_bytes sess + op_bytes op,
           s_streams := AList.update x (xs @ [(t, op, y)]) (s_streams sess)\<rparr>)"
  using assms alist_sum_update [of "s_streams sess" stream_size x "xs @ [(t, op, y)]"]
  by (simp add: within_caps_def accounted_def streams_size_def distinct_update)

lemma buffer_op_held:
  assumes "buffer_op cfg t op (op_bytes op) x d = Inr d'" "held cfg d"
  shows "held cfg d'"
proof (cases "d_in d")
  case None
  with assms show ?thesis
    by (auto simp: buffer_op_def held_def Let_def result_simps split: if_split_asm)
next
  case (Some y)
  with assms(1) obtain xs z where b: "\<not> k_tx_limit cfg < s_stream_bytes (d_sess d) + op_bytes op"
    "map_of (s_streams (d_sess d)) y = Some xs"
    "d' = d\<lparr>d_sess := (d_sess d)\<lparr>s_stream_bytes := s_stream_bytes (d_sess d) + op_bytes op,
        s_streams := AList.update y (xs @ [(t, op, z)]) (s_streams (d_sess d))\<rparr>\<rparr>"
    by (auto simp: buffer_op_def open_stream_def Let_def result_simps split: if_split_asm)
  with stream_update_caps [OF _ b(2), of cfg op t z] assms(2) show ?thesis
    by (simp add: held_def)
qed

lemma on_row_held:
  assumes "on_row cfg rid op (op_bytes op) x d = Inr d'" "held cfg d"
  shows "held cfg d'"
proof -
  from assms(1) obtain t sess where t: "tracked rid (d_sess d) = Inr (t, sess)"
    "(case t of None \<Rightarrow> Inr (d\<lparr>d_sess := sess\<rparr>) | Some t \<Rightarrow> buffer_op cfg t op (op_bytes op) x (d\<lparr>d_sess := sess\<rparr>)) = Inr d'"
    by (auto simp: on_row_def Let_def result_simps)
  from tracked_frame [OF t(1)] obtain l where "sess = (d_sess d)\<lparr>s_last_rel := l\<rparr>" .
  with assms(2) have "held cfg (d\<lparr>d_sess := sess\<rparr>)"
    by (simp add: held_def within_caps_def accounted_def streams_size_def)
  with t(2) show ?thesis by (auto dest: buffer_op_held split: option.split_asm)
qed

lemma truncate_held:
  assumes "buffer_truncate x d rid = Inr d'" "held cfg d"
  shows "held cfg d'"
proof -
  from assms(1) obtain t sess where t: "tracked rid (d_sess d) = Inr (t, sess)"
    by (auto simp: buffer_truncate_def result_simps)
  from tracked_frame [OF t] obtain l where l: "sess = (d_sess d)\<lparr>s_last_rel := l\<rparr>" .
  have h: "held cfg (d\<lparr>d_sess := sess\<rparr>)"
    using assms(2) l by (simp add: held_def within_caps_def accounted_def streams_size_def)
  show ?thesis
  proof (cases "t = None \<or> d_in d = None")
    case True
    with assms(1) t h show ?thesis
      by (auto simp: buffer_truncate_def Let_def held_def split: option.split_asm)
  next
    case False
    then obtain s y where sy: "t = Some s" "d_in d = Some y" by auto
    with assms(1) t obtain xs z where b: "map_of (s_streams sess) y = Some xs"
      "d' = d\<lparr>d_sess := sess\<lparr>s_streams := AList.update y (xs @ [(s, Op_Truncate, z)]) (s_streams sess)\<rparr>\<rparr>"
      by (auto simp: buffer_truncate_def open_stream_def Let_def result_simps)
    have "within_caps cfg sess" "s_stream_bytes sess + op_bytes Op_Truncate \<le> k_tx_limit cfg"
      using h by (auto simp: held_def within_caps_def)
    from stream_update_caps [OF this(1) b(1) this(2), of s z] h b(2) show ?thesis
      by (simp add: held_def)
  qed
qed

lemma on_truncate_held: "on_truncate rs x d = Inr d' \<Longrightarrow> held cfg d \<Longrightarrow> held cfg d'"
  unfolding on_truncate_def by (induction rs arbitrary: d) (auto simp: result_simps dest: truncate_held)

lemma on_relation_held: "on_relation cfg r d = Inr d' \<Longrightarrow> held cfg d \<Longrightarrow> held cfg d'"
  by (auto simp: on_relation_def held_def within_caps_def accounted_def streams_size_def result_simps
      dest!: announce_frame)

lemma on_stream_start_held: "held cfg d \<Longrightarrow> held cfg (on_stream_start x d)"
  using alist_sum_update [of "s_streams (d_sess d)" stream_size x "[]"]
  by (auto simp: on_stream_start_def held_def within_caps_def accounted_def streams_size_def Let_def distinct_update
      split: option.splits)

lemma abort_stream_bytes: "s_stream_bytes (abort_stream x s sess) \<le> s_stream_bytes sess"
  by (auto simp: abort_stream_def Let_def split: option.splits)

lemma on_stream_abort_held: "held cfg d \<Longrightarrow> held cfg (on_stream_abort x s d)"
  using abort_stream_bytes [of x s "d_sess d"]
  by (auto simp: on_stream_abort_def held_def within_caps_def abort_stream_accounted)

lemma on_commit_held:
  assumes "on_commit cfg e d = Inr f" "held cfg d"
  shows "held_flow cfg f"
proof (cases "d_relayout d")
  case True
  with assms show ?thesis
    by (auto simp: on_commit_def carry_over_def held_flow_def held_def within_caps_def accounted_def streams_size_def)
next
  case False
  with assms obtain d1 where d1: "land_tx cfg (d_tx d) e d = Inr d1"
    "f = after_commit cfg e (d1\<lparr>d_tx := [], d_tx_bytes := 0\<rparr>)"
    by (auto simp: on_commit_def result_simps)
  from land_tx_frame [OF d1(1)] have "held cfg (d1\<lparr>d_tx := [], d_tx_bytes := 0\<rparr>)"
    using assms(2) by (auto simp: held_def)
  with after_commit_held d1(2) show ?thesis by simp
qed

lemma on_stream_commit_held:
  assumes "on_stream_commit cfg x e d = Inr f" "held cfg d"
  shows "held_flow cfg f"
proof -
  obtain xs sess where ts: "take_stream x (d_sess d) = (xs, sess)" by (cases "take_stream x (d_sess d)")
  with take_stream_accounted [OF _ ts] assms(2) have caps: "within_caps cfg sess"
    by (auto simp: held_def within_caps_def)
  show ?thesis
  proof (cases "d_relayout d")
    case True
    with assms ts caps show ?thesis
      by (auto simp: on_stream_commit_def Let_def held_flow_def within_caps_def accounted_def streams_size_def)
  next
    case False
    with assms ts obtain d1 where d1: "land_tx cfg (map (\<lambda>(t, op, _). (t, op)) xs) e
        (d\<lparr>d_sess := sess, d_buf := d_buf d + stream_size xs\<rparr>) = Inr d1" "f = after_commit cfg e d1"
      by (auto simp: on_stream_commit_def Let_def result_simps)
    from land_tx_frame [OF d1(1)] have "held cfg d1" using caps assms(2) by (auto simp: held_def)
    with after_commit_held d1(2) show ?thesis by simp
  qed
qed

lemma on_message_held:
  assumes "on_message cfg msg x d = Inr f" "held cfg d"
  shows "held_flow cfg f"
proof (cases msg)
  case (Pgo_Insert r t)
  with assms show ?thesis
    using on_row_held [of cfg r "Op_Insert t" x d] by (auto simp: go_def on_insert_def result_simps intro!: held_go)
next
  case (Pgo_Update r old t)
  let ?op = "Op_Update (map_option old_tuple old) t (case old of None \<Rightarrow> False | Some o' \<Rightarrow> full o')"
  from Pgo_Update assms(1) obtain d' where d': "on_row cfg r ?op (op_bytes ?op) x d = Inr d'" "f = Go d'"
    by (auto simp: go_def on_update_def Let_def result_simps)
  from on_row_held [OF d'(1) assms(2)] d'(2) show ?thesis by (simp add: held_go)
next
  case (Pgo_Delete r old)
  with assms show ?thesis
    using on_row_held [of cfg r "Op_Delete (old_tuple old)" x d]
    by (auto simp: go_def on_delete_def result_simps intro!: held_go)
next
  case (Pgo_Truncate rs a b)
  with assms show ?thesis
    by (auto simp: go_def result_simps intro!: held_go dest: on_truncate_held)
next
  case (Pgo_Relation r)
  with assms show ?thesis
    by (auto simp: go_def result_simps intro!: held_go dest: on_relation_held)
qed (use assms in \<open>auto intro!: held_go on_stream_start_held on_stream_abort_held
      elim: on_commit_held on_stream_commit_held simp: on_begin_def held_def\<close>)

lemma on_event_held:
  assumes "on_event cfg turn ev d = Inr f" "held cfg d"
  shows "held_flow cfg f"
proof (cases ev)
  case (XLogData a p)
  with assms show ?thesis by (auto simp: result_simps elim: on_message_held)
next
  case (Keepalive w r)
  with assms show ?thesis
    by (auto simp: on_keepalive_def caught_up_def held_flow_def held_def Let_def result_simps
        split: if_split_asm option.split_asm)
qed


lemma open_carry_held:
  assumes "open_carry cfg (drain_new sess start stop) = Inr f" "within_caps cfg sess"
  shows "held_flow cfg f"
proof (cases "s_carry sess")
  case None
  with assms show ?thesis
    by (auto simp: open_carry_def drain_new_def held_def intro!: held_go)
next
  case (Some c)
  with assms show ?thesis
    by (cases c) (auto simp: open_carry_def drain_new_def held_flow_def held_def within_caps_def accounted_def
        streams_size_def Let_def result_simps dest!: land_tx_frame split: if_split_asm)
qed

text \<open>The states a window's loop goes through.\<close>

inductive draining :: "drain_cfg \<Rightarrow> session \<Rightarrow> u64 \<Rightarrow> u64 \<Rightarrow> drain_state \<Rightarrow> bool"
  for cfg sess start stop where
  opened: "open_carry cfg (drain_new sess start stop) = Inr (Go d) \<Longrightarrow> draining cfg sess start stop d"
| turned: "draining cfg sess start stop d \<Longrightarrow> on_event cfg turn ev d = Inr (Go d') \<Longrightarrow> draining cfg sess start stop d'"

lemma draining_held: "draining cfg sess start stop d \<Longrightarrow> within_caps cfg sess \<Longrightarrow> held cfg d"
  by (induction rule: draining.induct) (auto simp: held_flow_def dest: open_carry_held on_event_held)

text \<open>How one turn of a loop that returned went.\<close>

lemma drain_loop_turn:
  assumes "drain_loop cfg turn (ev # evs) d = Inr (d', rest)"
  obtains (stopped) "d_tx d = []" "d_in d = None" "d' = d" "rest = ev # evs"
    | (broke) e where "ev = Inr e" "on_event cfg turn e d = Inr (Break d')" "rest = evs"
    | (went) e d1 where "ev = Inr e" "on_event cfg turn e d = Inr (Go d1)"
        "drain_loop cfg (Suc turn) evs d1 = Inr (d', rest)"
proof (cases "k_stop_asked cfg turn \<and> d_tx d = [] \<and> d_in d = None")
  case True
  with assms show thesis by (intro stopped) simp_all
next
  case False
  then have "and_then ev (\<lambda>e. and_then (on_event cfg turn e d) (\<lambda>f.
      case f of Break d \<Rightarrow> Inr (d, evs) | Go d \<Rightarrow> drain_loop cfg (turn + 1) evs d)) = Inr (d', rest)"
    using assms by (simp only: drain_loop.simps if_False)
  then obtain e f where ef: "ev = Inr e" "on_event cfg turn e d = Inr f"
    "(case f of Break d \<Rightarrow> Inr (d, evs) | Go d \<Rightarrow> drain_loop cfg (turn + 1) evs d) = Inr (d', rest)"
    unfolding and_then_eq_Inr by blast
  show thesis
  proof (cases f)
    case (Go d1)
    with ef show thesis
      by (intro went) simp_all
  next
    case (Break d1)
    with ef show thesis
      by (intro broke) simp_all
  qed
qed

lemma drain_run_cases:
  assumes "drain_run cfg sess start stop evs = Inr (d, rest)"
  obtains (full) "open_carry cfg (drain_new sess start stop) = Inr (Break d)" "rest = evs"
    | (looped) d0 where "open_carry cfg (drain_new sess start stop) = Inr (Go d0)"
        "drain_loop cfg 0 evs d0 = Inr (d, rest)"
proof -
  from assms obtain f where "open_carry cfg (drain_new sess start stop) = Inr f"
    "(case f of Break d \<Rightarrow> Inr (d, evs) | Go d \<Rightarrow> drain_loop cfg 0 evs d) = Inr (d, rest)"
    unfolding drain_run_def and_then_eq_Inr by blast
  then show thesis
    by (cases f) (use full looped in simp_all)
qed

lemma drain_loop_caps:
  "drain_loop cfg turn evs d = Inr (d', rest) \<Longrightarrow> held cfg d \<Longrightarrow> within_caps cfg (d_sess d')"
proof (induction evs arbitrary: turn d)
  case (Cons ev evs)
  from Cons.prems(1) show ?case
  proof (cases rule: drain_loop_turn)
    case stopped
    with Cons.prems show ?thesis by (simp add: held_def)
  next
    case (broke e)
    from on_event_held [OF broke(2) Cons.prems(2)] show ?thesis by (simp add: held_flow_def)
  next
    case (went e d1)
    from on_event_held [OF went(2) Cons.prems(2)] Cons.IH [OF went(3)] show ?thesis by (simp add: held_flow_def)
  qed
qed (simp add: held_def)

lemma drain_run_caps:
  assumes "drain_run cfg sess start stop evs = Inr (d, rest)" "within_caps cfg sess"
  shows "within_caps cfg (d_sess d)"
  using assms(1)
proof (cases rule: drain_run_cases)
  case full
  from open_carry_held [OF full(1) assms(2)] show ?thesis by (simp add: held_flow_def)
next
  case (looped d0)
  from open_carry_held [OF looped(1) assms(2)] drain_loop_caps [OF looped(2)] show ?thesis
    by (simp add: held_flow_def)
qed

lemma abort_stream_streams:
  "map_of (s_streams (abort_stream xid sub sess)) x =
     (if x \<noteq> xid then map_of (s_streams sess) x
      else if sub = xid then None
      else map_option (filter (\<lambda>(_, _, sx). sx \<noteq> sub)) (map_of (s_streams sess) xid))"
  by (auto simp: abort_stream_def Let_def update_conv' delete_conv' split: option.splits)

text \<open>
  C28: memory of open transactions. At every turn of every window the charge for the
  streamed transactions is exactly what their buffers hold, however many savepoints rolled
  back and streams committed, and neither it nor the open transaction passes the cap; a
  window that ends hands a session of the same kind to the next.
\<close>

theorem open_transactions_bounded:
  assumes "within_caps cfg sess"
  shows "(draining cfg sess start stop d \<longrightarrow>
            s_stream_bytes (d_sess d) = streams_size (d_sess d) \<and> streams_size (d_sess d) \<le> k_tx_limit cfg
            \<and> tx_size (d_tx d) \<le> k_tx_limit cfg)
         \<and> (drain cfg sess start stop evs = Inr (o', sess', rest) \<longrightarrow> within_caps cfg sess')"
  using assms draining_held [of cfg sess start stop d]
  by (auto simp: held_def within_caps_def accounted_def drain_def result_simps
      dest: drain_run_caps [unfolded within_caps_def accounted_def])

text \<open>The stream's row is buffered, its transaction still open.\<close>

definition row_buffered :: drain_state where
  "row_buffered = (drain_new sample_session 10 80)\<lparr>d_tx := [(0, Op_Insert sample_new)], d_tx_bytes := 75, d_buf := 75\<rparr>"

lemma sample_draining: "draining sample_cfg (expecting Map.empty) 10 80 row_buffered"
proof -
  let ?R = "draining sample_cfg (expecting Map.empty) 10 80"
  have "?R (drain_new (expecting Map.empty) 10 80)" by (rule draining.opened) (simp add: drain_eval)
  then have "?R (drain_new sample_session 10 80)"
    by (rule draining.turned [of _ _ _ _ _ 0 "XLogData 0 sample_relation"]) (simp add: drain_eval)
  then have "?R (drain_new sample_session 10 80)"
    by (rule draining.turned [of _ _ _ _ _ 1 "XLogData 0 sample_begin"]) (simp add: drain_eval)
  then show ?thesis
    by (rule draining.turned [of _ _ _ _ _ 2 "XLogData 0 sample_change"]) (simp add: drain_eval row_buffered_def)
qed

theorem open_transactions_bounded_witness:
  "s_stream_bytes (d_sess row_buffered) = streams_size (d_sess row_buffered)
   \<and> streams_size (d_sess row_buffered) \<le> k_tx_limit sample_cfg \<and> tx_size (d_tx row_buffered) \<le> k_tx_limit sample_cfg"
proof -
  have "within_caps sample_cfg (expecting Map.empty)" by (simp add: within_caps_def accounted_def streams_size_def)
  from open_transactions_bounded [OF this, of 10 80 row_buffered] sample_draining show ?thesis by blast
qed



section \<open>The registry\<close>

definition slot_ok :: "session \<Rightarrow> u16 \<Rightarrow> bool" where
  "slot_ok sess s \<longleftrightarrow> unat s < length (s_slots sess)"

definition slot_table :: "session \<Rightarrow> u16 \<Rightarrow> bytes" where
  "slot_table sess s = st_table (s_slots sess ! unat s)"

text \<open>A slot whose ops may land: it exists and its table has a layout.\<close>

definition landable :: "session \<Rightarrow> u16 \<Rightarrow> bool" where
  "landable sess s \<longleftrightarrow> slot_ok sess s \<and> s_layouts sess (slot_table sess s) \<noteq> None"

text \<open>
  Names and slots are one to one, every oid (the cached one included) leads to a slot, a
  tracked table has a layout, and whatever the session still has to land can land.
\<close>

definition registry :: "session \<Rightarrow> bool" where
  "registry sess \<longleftrightarrow> length (s_slots sess) \<le> 2 ^ 16 \<and>
     (\<forall>t s. s_slot_by_name sess t = Some s \<longleftrightarrow> slot_ok sess s \<and> slot_table sess s = t) \<and>
     (\<forall>o' s. s_rels sess o' = Some s \<longrightarrow> slot_ok sess s) \<and>
     (\<forall>o' s. s_last_rel sess = Some (o', s) \<longrightarrow> s_rels sess o' = Some s) \<and>
     (\<forall>s. slot_ok sess s \<longrightarrow> st_tracked (s_slots sess ! unat s) \<longrightarrow> s_layouts sess (slot_table sess s) \<noteq> None)"

definition all_landable :: "session \<Rightarrow> (u16 \<times> 'a) list \<Rightarrow> bool" where
  "all_landable sess xs \<longleftrightarrow> list_all (landable sess) (map fst xs)"

definition session_inv :: "session \<Rightarrow> bool" where
  "session_inv sess \<longleftrightarrow> registry sess \<and>
     (\<forall>x xs. map_of (s_streams sess) x = Some xs \<longrightarrow> all_landable sess xs) \<and>
     (\<forall>xs e. s_carry sess = Some (xs, e) \<longrightarrow> all_landable sess xs)"

text \<open>The registry only grows: slots keep their table, tables keep some layout.\<close>

definition extends :: "session \<Rightarrow> session \<Rightarrow> bool" where
  "extends sess sess' \<longleftrightarrow> (\<forall>s. slot_ok sess s \<longrightarrow> slot_ok sess' s \<and> slot_table sess' s = slot_table sess s) \<and>
     (\<forall>t. s_layouts sess t \<noteq> None \<longrightarrow> s_layouts sess' t \<noteq> None)"

lemma extends_refl [simp]: "extends sess sess"
  by (simp add: extends_def)

lemma extends_landable: "extends a b \<Longrightarrow> landable a s \<Longrightarrow> landable b s"
  by (auto simp: extends_def landable_def)

lemma registry_fields [simp]:
  "registry (sess\<lparr>s_streams := a\<rparr>) = registry sess" "registry (sess\<lparr>s_stream_bytes := n\<rparr>) = registry sess"
  "registry (sess\<lparr>s_carry := c\<rparr>) = registry sess" "registry (sess\<lparr>s_rel_oids := r\<rparr>) = registry sess"
  by (simp_all add: registry_def slot_ok_def slot_table_def)

lemma extends_fields [simp]:
  "extends sess (sess\<lparr>s_streams := a\<rparr>)" "extends sess (sess\<lparr>s_stream_bytes := n\<rparr>)"
  "extends sess (sess\<lparr>s_carry := c\<rparr>)" "extends sess (sess\<lparr>s_rel_oids := r\<rparr>)"
  "extends sess (sess\<lparr>s_last_rel := l\<rparr>)"
  by (simp_all add: extends_def slot_ok_def slot_table_def)

lemma unat_of_nat_u16: "n < 2 ^ 16 \<Longrightarrow> unat (of_nat n :: u16) = n"
  by (simp add: unat_of_nat take_bit_nat_eq_self)

lemma unat_eq_u16: "unat (s :: u16) = unat r \<longleftrightarrow> s = r"
  by (metis unsigned_word_eqI)

text \<open>Setting a slot's tracked flag: the registry but for the flag's own condition.\<close>

lemma set_tracked_slots:
  assumes "set_tracked s b sess = Inr (s', sess')"
  shows "s' = s" "slot_ok sess s" "slot_ok sess' = slot_ok sess" "slot_table sess' = slot_table sess"
    "\<And>r. slot_ok sess r \<Longrightarrow> st_tracked (s_slots sess' ! unat r) = (if r = s then b else st_tracked (s_slots sess ! unat r))"
    "sess' = sess\<lparr>s_slots := s_slots sess'\<rparr>" "length (s_slots sess') = length (s_slots sess)"
proof -
  from assms obtain st where st: "unat s < length (s_slots sess)" "s' = s"
    "sess' = sess\<lparr>s_slots := (s_slots sess)[unat s := (s_slots sess ! unat s)\<lparr>st_tracked := b\<rparr>]\<rparr>"
    by (auto simp: set_tracked_def index_list_def result_simps split: if_split_asm)
  then show "s' = s" "slot_ok sess s" "slot_ok sess' = slot_ok sess" "sess' = sess\<lparr>s_slots := s_slots sess'\<rparr>"
    "length (s_slots sess') = length (s_slots sess)"
    by (auto simp: slot_ok_def fun_eq_iff)
  show "slot_table sess' = slot_table sess"
    using st by (auto simp: slot_table_def fun_eq_iff nth_list_update split: if_splits)
  fix r
  assume "slot_ok sess r"
  with st show "st_tracked (s_slots sess' ! unat r) = (if r = s then b else st_tracked (s_slots sess ! unat r))"
    by (auto simp: slot_ok_def nth_list_update unat_eq_u16)
qed


lemma registryD:
  assumes "registry sess"
  shows "length (s_slots sess) \<le> 2 ^ 16"
    "s_slot_by_name sess t = Some s \<longleftrightarrow> slot_ok sess s \<and> slot_table sess s = t"
    "s_rels sess o' = Some s \<Longrightarrow> slot_ok sess s"
    "s_last_rel sess = Some (o', s) \<Longrightarrow> s_rels sess o' = Some s"
    "slot_ok sess s \<Longrightarrow> st_tracked (s_slots sess ! unat s) \<Longrightarrow> s_layouts sess (slot_table sess s) \<noteq> None"
  using assms by (auto simp: registry_def)

text \<open>What registering a table's name does to the slots.\<close>

lemma rel_slot_known:
  assumes "registry sess" "rel_slot t b sess = Inr (s, sess')" "s_slot_by_name sess t = Some s0"
  shows "s = s0" "slot_ok sess' = slot_ok sess" "slot_table sess' = slot_table sess"
    "\<And>r. slot_ok sess r \<Longrightarrow> st_tracked (s_slots sess' ! unat r) = (if r = s then b else st_tracked (s_slots sess ! unat r))"
    "sess' = sess\<lparr>s_slots := s_slots sess'\<rparr>" "length (s_slots sess') = length (s_slots sess)"
  using assms set_tracked_slots [of s0 b sess s sess'] by (simp_all add: rel_slot_def)

lemma rel_slot_new:
  assumes "registry sess" "rel_slot t b sess = Inr (s, sess')" "s_slot_by_name sess t = None"
  shows "s = of_nat (length (s_slots sess))" "\<not> slot_ok sess s"
    "slot_ok sess' r \<longleftrightarrow> r = s \<or> slot_ok sess r" "slot_table sess' s = t"
    "slot_ok sess r \<Longrightarrow> slot_table sess' r = slot_table sess r"
    "slot_ok sess' r \<Longrightarrow> st_tracked (s_slots sess' ! unat r) = (if r = s then b else st_tracked (s_slots sess ! unat r))"
    "s_slot_by_name sess' = (s_slot_by_name sess)(t \<mapsto> s)" "length (s_slots sess') \<le> 2 ^ 16"
    "sess' = sess\<lparr>s_slots := s_slots sess', s_slot_by_name := s_slot_by_name sess'\<rparr>"
proof -
  let ?n = "length (s_slots sess)"
  let ?s = "of_nat ?n :: u16"
  let ?sess = "sess\<lparr>s_slot_by_name := (s_slot_by_name sess)(t \<mapsto> ?s),
      s_slots := s_slots sess @ [\<lparr>st_table = t, st_tracked = b\<rparr>]\<rparr>"
  have n: "?n < 2 ^ 16" and st: "set_tracked ?s b ?sess = Inr (s, sess')"
    using assms(2,3) by (auto simp: rel_slot_def Let_def split: if_split_asm)
  have us: "unat ?s = ?n" by (rule unat_of_nat_u16 [OF n])
  have eq: "unat r = ?n \<longleftrightarrow> r = ?s" for r using us unat_eq_u16 [of r ?s] by simp
  note f = set_tracked_slots [OF st]
  show s: "s = of_nat (length (s_slots sess))" by (rule f(1))
  show "\<not> slot_ok sess s" using us s by (simp add: slot_ok_def)
  show "slot_ok sess' r \<longleftrightarrow> r = s \<or> slot_ok sess r"
    using f(3) s eq [of r] by (auto simp: fun_eq_iff slot_ok_def less_Suc_eq)
  have "slot_table ?sess s = t" using s us by (simp add: slot_table_def nth_append)
  then show "slot_table sess' s = t" by (simp only: f(4))
  show "slot_ok sess r \<Longrightarrow> slot_table sess' r = slot_table sess r"
    using f(4) by (simp add: slot_table_def slot_ok_def fun_eq_iff nth_append)
  show "slot_ok sess' r \<Longrightarrow> st_tracked (s_slots sess' ! unat r) = (if r = s then b else st_tracked (s_slots sess ! unat r))"
    using f(3) f(5) [of r] s eq [of r] by (auto simp: fun_eq_iff slot_ok_def nth_append split: if_splits)
  show "s_slot_by_name sess' = (s_slot_by_name sess)(t \<mapsto> s)" using f(6) s by (metis session.select_convs(2) session.surjective session.update_convs(2,3))
  show "length (s_slots sess') \<le> 2 ^ 16" using f(7) n by simp
  show "sess' = sess\<lparr>s_slots := s_slots sess', s_slot_by_name := s_slot_by_name sess'\<rparr>" using f(6) by (cases sess') simp
qed


text \<open>The same for both, as the registry sees it.\<close>

lemma rel_slot_registers:
  assumes "registry sess" "rel_slot t b sess = Inr (s, sess')"
  shows "slot_ok sess' s" "slot_table sess' s = t"
    "\<And>r. slot_ok sess r \<Longrightarrow> slot_ok sess' r \<and> slot_table sess' r = slot_table sess r"
    "\<And>r. slot_ok sess' r \<Longrightarrow> r = s \<or> slot_ok sess r"
    "\<And>r. slot_ok sess' r \<Longrightarrow> st_tracked (s_slots sess' ! unat r) = (if r = s then b else st_tracked (s_slots sess ! unat r))"
    "\<And>u r. s_slot_by_name sess' u = Some r \<longleftrightarrow> slot_ok sess' r \<and> slot_table sess' r = u"
    "length (s_slots sess') \<le> 2 ^ 16"
    "sess' = sess\<lparr>s_slots := s_slots sess', s_slot_by_name := s_slot_by_name sess'\<rparr>"
proof -
  note reg = registryD [OF assms(1)]
  have "slot_ok sess' s \<and> slot_table sess' s = t \<and>
     (\<forall>r. slot_ok sess r \<longrightarrow> slot_ok sess' r \<and> slot_table sess' r = slot_table sess r) \<and>
     (\<forall>r. slot_ok sess' r \<longrightarrow> r = s \<or> slot_ok sess r) \<and>
     (\<forall>r. slot_ok sess' r \<longrightarrow> st_tracked (s_slots sess' ! unat r) = (if r = s then b else st_tracked (s_slots sess ! unat r))) \<and>
     (\<forall>u r. s_slot_by_name sess' u = Some r \<longleftrightarrow> slot_ok sess' r \<and> slot_table sess' r = u) \<and>
     length (s_slots sess') \<le> 2 ^ 16 \<and>
     sess' = sess\<lparr>s_slots := s_slots sess', s_slot_by_name := s_slot_by_name sess'\<rparr>"
  proof (cases "s_slot_by_name sess t")
    case None
    note f = rel_slot_new [OF assms None]
    have "\<not> (slot_ok sess r \<and> slot_table sess r = t)" for r using reg(2) [of t r] None by simp
    with f reg(2) show ?thesis by auto
  next
    case (Some s0)
    note f = rel_slot_known [OF assms Some]
    have "s_slot_by_name sess' = s_slot_by_name sess" by (subst f(5)) simp
    moreover from this f(5) have "sess' = sess\<lparr>s_slots := s_slots sess', s_slot_by_name := s_slot_by_name sess'\<rparr>"
      by (cases sess') simp
    ultimately show ?thesis using f(1-4,6) reg(1,2) Some by auto
  qed
  then show "slot_ok sess' s" "slot_table sess' s = t"
    "\<And>r. slot_ok sess r \<Longrightarrow> slot_ok sess' r \<and> slot_table sess' r = slot_table sess r"
    "\<And>r. slot_ok sess' r \<Longrightarrow> r = s \<or> slot_ok sess r"
    "\<And>r. slot_ok sess' r \<Longrightarrow> st_tracked (s_slots sess' ! unat r) = (if r = s then b else st_tracked (s_slots sess ! unat r))"
    "\<And>u r. s_slot_by_name sess' u = Some r \<longleftrightarrow> slot_ok sess' r \<and> slot_table sess' r = u"
    "length (s_slots sess') \<le> 2 ^ 16"
    "sess' = sess\<lparr>s_slots := s_slots sess', s_slot_by_name := s_slot_by_name sess'\<rparr>"
    by blast+
qed

lemma from_relation_tracked:
  "from_relation r kc = Inr lay \<Longrightarrow> lay \<noteq> None \<longleftrightarrow> kc (qualified_name (namespace r) (rel_name r)) \<noteq> None"
  by (auto simp: from_relation_def Let_def result_simps split: option.split_asm if_split_asm)

text \<open>A Relation keeps the registry and only extends it.\<close>

lemma announce_registers:
  assumes "registry sess" "announce cfg r sess = Inr (sess', slot, changed)"
  defines "t \<equiv> qualified_name (namespace r) (rel_name r)"
  obtains lay where
    "from_relation r (k_cols cfg) = Inr lay" "registry sess'" "extends sess sess'"
    "slot_ok sess' slot" "slot_table sess' slot = t"
    "\<And>s. slot_ok sess' s \<Longrightarrow> s = slot \<or> slot_ok sess s"
    "\<And>s. slot_ok sess' s \<Longrightarrow> st_tracked (s_slots sess' ! unat s) = (if s = slot then k_cols cfg t \<noteq> None else st_tracked (s_slots sess ! unat s))"
    "s_rels sess' = (\<lambda>o'. if s_rels sess o' = Some slot \<and> o' \<noteq> rel_id r then None else s_rels sess o')(rel_id r \<mapsto> slot)"
    "s_rel_oids sess' = (\<lambda>o'. if s_rels sess o' = Some slot \<and> o' \<noteq> rel_id r then None
        else ((s_rel_oids sess)(rel_id r \<mapsto> map rc_type_oid (rel_cols r))) o')"
    "s_layouts sess' = (case lay of None \<Rightarrow> s_layouts sess | Some l \<Rightarrow> (s_layouts sess)(t \<mapsto> l))"
    "changed \<longleftrightarrow> lay \<noteq> None \<and> s_layouts sess t \<noteq> lay"
proof -
  let ?oids = "(s_rel_oids sess)(rel_id r \<mapsto> map rc_type_oid (rel_cols r))"
  let ?s0 = "sess\<lparr>s_rel_oids := ?oids\<rparr>"
  from assms(2) obtain lay s1 where lay: "from_relation r (k_cols cfg) = Inr lay"
    and s1: "rel_slot t (lay \<noteq> None) ?s0 = Inr (slot, s1)"
    and res: "(register_rel (rel_id r) slot (case lay of
        Some new \<Rightarrow> if (case lay of None \<Rightarrow> False | Some new \<Rightarrow> s_layouts s1 t \<noteq> Some new)
          then s1\<lparr>s_layouts := (s_layouts s1)(t \<mapsto> new)\<rparr> else s1 | None \<Rightarrow> s1))
          \<lparr>s_last_rel := Some (rel_id r, slot)\<rparr> = sess' \<and>
        (case lay of None \<Rightarrow> False | Some new \<Rightarrow> s_layouts s1 t \<noteq> Some new) = changed"
    unfolding announce_def Let_def and_then_eq_Inr t_def [symmetric]
    by (elim exE conjE) (fastforce split: prod.split_asm)
  then have ch: "changed = (case lay of None \<Rightarrow> False | Some new \<Rightarrow> s_layouts s1 t \<noteq> Some new)"
    and s': "sess' = (register_rel (rel_id r) slot (case lay of
        Some new \<Rightarrow> if changed then s1\<lparr>s_layouts := (s_layouts s1)(t \<mapsto> new)\<rparr> else s1 | None \<Rightarrow> s1))
          \<lparr>s_last_rel := Some (rel_id r, slot)\<rparr>"
    by auto
  have reg0: "registry ?s0" using assms(1) by simp
  note rs = rel_slot_registers [OF reg0 s1]
  have fr: "s_rels s1 = s_rels sess" "s_layouts s1 = s_layouts sess" "s_rel_oids s1 = ?oids"
    by (subst rs(8), simp)+
  have lays: "s_layouts sess' = (case lay of None \<Rightarrow> s_layouts sess | Some l \<Rightarrow> (s_layouts sess)(t \<mapsto> l))"
    using s' ch fr by (auto simp: register_rel_def Let_def fun_eq_iff split: option.splits)
  have slots: "s_slots sess' = s_slots s1" "s_slot_by_name sess' = s_slot_by_name s1"
    using s' by (auto simp: register_rel_def Let_def split: option.splits)
  then have ok: "slot_ok sess' = slot_ok s1" "slot_table sess' = slot_table s1"
    by (simp_all add: slot_ok_def slot_table_def fun_eq_iff)
  have old: "slot_ok ?s0 = slot_ok sess" "slot_table ?s0 = slot_table sess"
    by (simp_all add: slot_ok_def slot_table_def fun_eq_iff)
  have rels: "s_rels sess' = (\<lambda>o'. if s_rels sess o' = Some slot \<and> o' \<noteq> rel_id r then None else s_rels sess o')(rel_id r \<mapsto> slot)"
    "s_rel_oids sess' = (\<lambda>o'. if s_rels sess o' = Some slot \<and> o' \<noteq> rel_id r then None else ?oids o')"
    "s_last_rel sess' = Some (rel_id r, slot)"
    using s' fr by (auto simp: register_rel_def Let_def fun_eq_iff split: option.splits)
  have trk: "st_tracked (s_slots sess' ! unat s) = (if s = slot then lay \<noteq> None else st_tracked (s_slots sess ! unat s))"
    if "slot_ok sess' s" for s
    using rs(5) [of s] that slots ok by simp
  have lt: "lay \<noteq> None \<longleftrightarrow> k_cols cfg t \<noteq> None" using from_relation_tracked [OF lay] t_def by simp
  have ext: "extends sess sess'"
    using rs(3) ok old lays by (auto simp: extends_def split: option.splits)
  note reg = registryD [OF assms(1)]
  have "registry sess'"
    unfolding registry_def
  proof (intro conjI allI impI)
    show "length (s_slots sess') \<le> 2 ^ 16" using rs(7) slots by simp
    show "s_slot_by_name sess' u = Some s \<longleftrightarrow> slot_ok sess' s \<and> slot_table sess' s = u" for u s
      using rs(6) slots ok by simp
    show "slot_ok sess' s" if "s_rels sess' o' = Some s" for o' s
      using that rels(1) rs(1,3) ok old reg(3) [of o' s] by (auto split: if_split_asm)
    show "s_rels sess' o' = Some s" if "s_last_rel sess' = Some (o', s)" for o' s
      using that rels by simp
    show "s_layouts sess' (slot_table sess' s) \<noteq> None"
      if "slot_ok sess' s" "st_tracked (s_slots sess' ! unat s)" for s
    proof (cases "s = slot")
      case True
      with that trk [of s] rs(2) ok lays show ?thesis by auto
    next
      case False
      with that trk [of s] rs(4) [of s] ok old have "slot_ok sess s" "st_tracked (s_slots sess ! unat s)" by auto
      with reg(5) [of s] ext show ?thesis by (auto simp: extends_def)
    qed
  qed
  with lay ext rs(1,2,4) ok old trk lt rels lays ch fr(2) show thesis
    by (intro that [of lay]) (auto split: option.splits)
qed


lemma tracked_registers:
  assumes "registry sess" "tracked rid sess = Inr (t, sess')"
  obtains s l where "s_rels sess rid = Some s" "sess' = sess\<lparr>s_last_rel := l\<rparr>" "registry sess'"
    "t = (if st_tracked (s_slots sess ! unat s) then Some s else None)" "t \<noteq> None \<Longrightarrow> landable sess s"
proof -
  note reg = registryD [OF assms(1)]
  from tracked_frame [OF assms(2)] obtain l where l: "sess' = sess\<lparr>s_last_rel := l\<rparr>" .
  have "\<exists>s. s_rels sess rid = Some s \<and> t = (if st_tracked (s_slots sess ! unat s) then Some s else None) \<and> registry sess'"
  proof (cases "\<exists>s. s_last_rel sess = Some (rid, s)")
    case True
    then obtain s where s: "s_last_rel sess = Some (rid, s)" by blast
    with reg(4) [of rid s] reg(3) [of rid s] assms show ?thesis
      by (auto simp: tracked_def slot_if_tracked_def index_list_def slot_ok_def result_simps)
  next
    case False
    then have "tracked rid sess = look_up_rel rid sess"
      by (auto simp: tracked_def split: option.splits)
    with assms obtain s where s: "s_rels sess rid = Some s" "slot_if_tracked s (sess\<lparr>s_last_rel := Some (rid, s)\<rparr>) = Inr (t, sess')"
      by (auto simp: look_up_rel_def result_simps)
    then have "registry sess'" using reg assms(1)
      by (auto simp: slot_if_tracked_def result_simps registry_def slot_ok_def slot_table_def)
    with s show ?thesis
      by (auto simp: slot_if_tracked_def index_list_def result_simps split: if_split_asm)
  qed
  then obtain s where s: "s_rels sess rid = Some s" "t = (if st_tracked (s_slots sess ! unat s) then Some s else None)" "registry sess'"
    by blast
  have "t \<noteq> None \<Longrightarrow> landable sess s"
    using s reg(3) [OF s(1)] reg(5) [of s] by (auto simp: landable_def split: if_split_asm)
  with s l that show thesis by blast
qed

section \<open>Every op a window holds can land\<close>

definition state_inv :: "drain_state \<Rightarrow> bool" where
  "state_inv d \<longleftrightarrow> session_inv (d_sess d) \<and> all_landable (d_sess d) (d_tx d)"

lemma session_invD:
  assumes "session_inv sess"
  shows "registry sess" "map_of (s_streams sess) x = Some xs \<Longrightarrow> all_landable sess xs"
    "s_carry sess = Some (ys, e) \<Longrightarrow> all_landable sess ys"
  using assms by (auto simp: session_inv_def)

lemma landable_fields [simp]:
  "landable (sess\<lparr>s_streams := a\<rparr>) = landable sess" "landable (sess\<lparr>s_stream_bytes := n\<rparr>) = landable sess"
  "landable (sess\<lparr>s_carry := c\<rparr>) = landable sess" "landable (sess\<lparr>s_last_rel := l\<rparr>) = landable sess"
  by (simp_all add: fun_eq_iff landable_def slot_ok_def slot_table_def)

lemma all_landable_simps [simp]:
  "all_landable sess []" "all_landable sess ((s, z) # xs) \<longleftrightarrow> landable sess s \<and> all_landable sess xs"
  "all_landable sess (xs @ ys) \<longleftrightarrow> all_landable sess xs \<and> all_landable sess ys"
  by (simp_all add: all_landable_def)

lemma all_landable_fields [simp]:
  "all_landable (sess\<lparr>s_streams := a\<rparr>) = all_landable sess" "all_landable (sess\<lparr>s_stream_bytes := n\<rparr>) = all_landable sess"
  "all_landable (sess\<lparr>s_carry := c\<rparr>) = all_landable sess" "all_landable (sess\<lparr>s_last_rel := l\<rparr>) = all_landable sess"
  by (simp_all add: fun_eq_iff all_landable_def)

lemma extends_tx: "extends a b \<Longrightarrow> all_landable a xs \<Longrightarrow> all_landable b xs"
  by (auto simp: all_landable_def list_all_iff extends_landable)

lemma all_landable_subset: "all_landable sess ys \<Longrightarrow> set xs \<subseteq> set ys \<Longrightarrow> all_landable sess xs"
  by (auto simp: all_landable_def list_all_iff)

lemma buffer_op_inv:
  assumes "buffer_op cfg t op n x d = Inr d'" "state_inv d" "landable (d_sess d) t"
  shows "state_inv d'"
  using assms
  by (cases "d_in d")
    (auto simp: buffer_op_def open_stream_def state_inv_def session_inv_def Let_def result_simps update_conv'
      split: if_split_asm)

lemma tracked_inv:
  assumes "tracked rid (d_sess d) = Inr (t, sess)" "state_inv d"
  shows "state_inv (d\<lparr>d_sess := sess\<rparr>)" "t = Some s \<Longrightarrow> landable sess s"
proof -
  from assms(2) have reg: "registry (d_sess d)" by (simp add: state_inv_def session_inv_def)
  from tracked_registers [OF reg assms(1)] obtain s' l where "sess = (d_sess d)\<lparr>s_last_rel := l\<rparr>" "registry sess"
    "t = (if st_tracked (s_slots (d_sess d) ! unat s') then Some s' else None)" "t \<noteq> None \<Longrightarrow> landable (d_sess d) s'" by metis
  with assms(2) show "state_inv (d\<lparr>d_sess := sess\<rparr>)" "t = Some s \<Longrightarrow> landable sess s"
    by (auto simp: state_inv_def session_inv_def split: if_split_asm)
qed

lemma on_row_inv:
  assumes "on_row cfg rid op n x d = Inr d'" "state_inv d"
  shows "state_inv d'"
proof -
  from assms(1) obtain t sess where t: "tracked rid (d_sess d) = Inr (t, sess)"
    "(case t of None \<Rightarrow> Inr (d\<lparr>d_sess := sess\<rparr>) | Some t \<Rightarrow> buffer_op cfg t op n x (d\<lparr>d_sess := sess\<rparr>)) = Inr d'"
    by (auto simp: on_row_def Let_def result_simps)
  with tracked_inv [OF t(1) assms(2)] buffer_op_inv [of cfg _ op n x "d\<lparr>d_sess := sess\<rparr>" d'] show ?thesis
    by (auto split: option.split_asm)
qed

lemma truncate_inv: "buffer_truncate x d rid = Inr d' \<Longrightarrow> state_inv d \<Longrightarrow> state_inv d'"
proof -
  assume a: "buffer_truncate x d rid = Inr d'" "state_inv d"
  then obtain t sess where t: "tracked rid (d_sess d) = Inr (t, sess)"
    by (auto simp: buffer_truncate_def result_simps)
  note inv = tracked_inv [OF t a(2)]
  show ?thesis
    using a(1) t inv
    by (cases t; cases "d_in d")
      (auto simp: buffer_truncate_def open_stream_def state_inv_def session_inv_def Let_def result_simps update_conv'
        split: if_split_asm)
qed

lemma on_truncate_inv: "on_truncate rs x d = Inr d' \<Longrightarrow> state_inv d \<Longrightarrow> state_inv d'"
  unfolding on_truncate_def by (induction rs arbitrary: d) (auto simp: result_simps dest: truncate_inv)

lemma on_relation_inv:
  assumes "on_relation cfg r d = Inr d'" "state_inv d"
  shows "state_inv d'"
proof -
  from assms(1) obtain sess slot ch where a: "announce cfg r (d_sess d) = Inr (sess, slot, ch)"
    "d_sess d' = sess" "d_tx d' = d_tx d"
    by (auto simp: on_relation_def result_simps)
  have reg: "registry (d_sess d)" using assms(2) by (simp add: state_inv_def session_inv_def)
  from announce_registers [OF reg a(1)] have r: "registry sess" "extends (d_sess d) sess" by metis+
  with announce_frame [OF a(1)] assms(2) a(2,3) show ?thesis
    by (auto simp: state_inv_def session_inv_def extends_tx extends_landable)
qed

lemma abort_stream_fields:
  "abort_stream x s sess = sess\<lparr>s_streams := s_streams (abort_stream x s sess), s_stream_bytes := s_stream_bytes (abort_stream x s sess)\<rparr>"
  by (simp add: abort_stream_def Let_def split: option.splits)

lemma on_stream_abort_inv: "state_inv d \<Longrightarrow> state_inv (on_stream_abort x s d)"
proof -
  assume inv: "state_inv d"
  let ?sess = "abort_stream x s (d_sess d)"
  have f: "registry ?sess = registry (d_sess d)" "s_carry ?sess = s_carry (d_sess d)"
    by (subst abort_stream_fields, simp)+
  have f2: "all_landable ?sess xs = all_landable (d_sess d) xs" for xs :: "(u16 \<times> stream_op \<times> u32) list"
    by (subst abort_stream_fields, simp)
  have f3: "all_landable ?sess xs = all_landable (d_sess d) xs" for xs :: tx_ops
    by (subst abort_stream_fields, simp)
  have "all_landable (d_sess d) xs" if "map_of (s_streams ?sess) y = Some xs" for y xs
  proof -
    from that obtain ys where "map_of (s_streams (d_sess d)) y = Some ys" "set xs \<subseteq> set ys"
      by (auto simp: abort_stream_streams split: if_split_asm)
    with inv show ?thesis by (auto simp: state_inv_def session_inv_def intro: all_landable_subset)
  qed
  with inv f f2 f3 show ?thesis by (simp add: on_stream_abort_def state_inv_def session_inv_def)
qed

lemma on_stream_start_inv: "state_inv d \<Longrightarrow> state_inv (on_stream_start x d)"
  by (auto simp: on_stream_start_def state_inv_def session_inv_def Let_def update_conv' split: option.splits)

lemma after_commit_inv: "state_inv d \<Longrightarrow> state_inv (flow_state (after_commit cfg e d))"
  by (simp add: after_commit_def state_inv_def)

lemma on_commit_inv:
  assumes "on_commit cfg e d = Inr f" "state_inv d"
  shows "state_inv (flow_state f)"
proof (cases "d_relayout d")
  case True
  with assms show ?thesis
    by (auto simp: on_commit_def carry_over_def state_inv_def session_inv_def)
next
  case False
  with assms(1) obtain d1 where d1: "land_tx cfg (d_tx d) e d = Inr d1"
    "f = after_commit cfg e (d1\<lparr>d_tx := [], d_tx_bytes := 0\<rparr>)"
    by (auto simp: on_commit_def result_simps)
  from land_tx_frame [OF d1(1)] have "state_inv (d1\<lparr>d_tx := [], d_tx_bytes := 0\<rparr>)"
    using assms(2) by (auto simp: state_inv_def)
  with after_commit_inv d1(2) show ?thesis by simp
qed

lemma take_stream_inv:
  assumes "take_stream x sess = (xs, sess')" "session_inv sess"
  shows "session_inv sess'" "all_landable sess' (map (\<lambda>(t, op, _). (t, op)) xs)"
    "all_landable sess' = (all_landable sess :: tx_ops \<Rightarrow> bool)" "s_carry sess' = s_carry sess"
proof -
  have xs: "xs = (case map_of (s_streams sess) x of None \<Rightarrow> [] | Some xs \<Rightarrow> xs)"
    and s': "sess' = sess\<lparr>s_streams := AList.delete x (s_streams sess), s_stream_bytes := s_stream_bytes sess - stream_size xs\<rparr>"
    using assms(1) by (auto simp: take_stream_def Let_def)
  show "session_inv sess'" using assms(2) s'
    by (auto simp: session_inv_def delete_conv' split: if_split_asm)
  have "all_landable sess xs" using assms(2) xs by (auto simp: session_inv_def split: option.splits)
  then show "all_landable sess' (map (\<lambda>(t, op, _). (t, op)) xs)" using s'
    by (auto simp: all_landable_def list_all_iff)
  show "all_landable sess' = (all_landable sess :: tx_ops \<Rightarrow> bool)" "s_carry sess' = s_carry sess" using s' by simp_all
qed

lemma on_stream_commit_inv:
  assumes "on_stream_commit cfg x e d = Inr f" "state_inv d"
  shows "state_inv (flow_state f)"
proof -
  obtain xs sess where ts: "take_stream x (d_sess d) = (xs, sess)" by (cases "take_stream x (d_sess d)")
  from assms(2) have inv: "session_inv (d_sess d)" "all_landable (d_sess d) (d_tx d)" by (auto simp: state_inv_def)
  note t = take_stream_inv [OF ts inv(1)]
  show ?thesis
  proof (cases "d_relayout d")
    case True
    with assms(1) ts inv t show ?thesis
      by (auto simp: on_stream_commit_def Let_def state_inv_def session_inv_def)
  next
    case False
    with assms(1) ts obtain d1 where d1: "land_tx cfg (map (\<lambda>(t, op, _). (t, op)) xs) e
        (d\<lparr>d_sess := sess, d_buf := d_buf d + stream_size xs\<rparr>) = Inr d1" "f = after_commit cfg e d1"
      by (auto simp: on_stream_commit_def Let_def result_simps)
    from land_tx_frame [OF d1(1)] inv t have "state_inv d1" by (auto simp: state_inv_def)
    with after_commit_inv d1(2) show ?thesis by simp
  qed
qed

lemma state_inv_fields [simp]:
  "state_inv (d\<lparr>d_in := a\<rparr>) = state_inv d" "state_inv (d\<lparr>d_stop := b\<rparr>) = state_inv d"
  "state_inv (d\<lparr>d_end := b\<rparr>) = state_inv d"
  by (simp_all add: state_inv_def)

lemma on_begin_inv: "state_inv d \<Longrightarrow> state_inv (on_begin d)"
  by (simp add: state_inv_def on_begin_def)

lemma on_message_inv:
  assumes "on_message cfg msg x d = Inr f" "state_inv d"
  shows "state_inv (flow_state f)"
  using assms
  by (cases msg) (auto simp: go_def on_insert_def on_update_def on_delete_def Let_def result_simps
      dest: on_row_inv on_truncate_inv on_relation_inv on_commit_inv on_stream_commit_inv
      intro: on_stream_start_inv on_stream_abort_inv on_begin_inv)

lemma on_event_inv:
  assumes "on_event cfg turn ev d = Inr f" "state_inv d"
  shows "state_inv (flow_state f)"
proof (cases ev)
  case (XLogData a p)
  with assms show ?thesis by (auto simp: result_simps dest: on_message_inv)
next
  case (Keepalive w r)
  with assms show ?thesis
    by (auto simp: on_keepalive_def caught_up_def Let_def result_simps split: if_split_asm option.split_asm)
qed

lemma open_carry_inv:
  assumes "open_carry cfg (drain_new sess start stop) = Inr f" "session_inv sess"
  shows "state_inv (flow_state f)"
proof (cases "s_carry sess")
  case None
  with assms show ?thesis by (auto simp: open_carry_def drain_new_def state_inv_def)
next
  case (Some c)
  with assms show ?thesis
    by (cases c) (auto simp: open_carry_def drain_new_def state_inv_def session_inv_def Let_def result_simps
        dest!: land_tx_frame split: if_split_asm)
qed

section \<open>Why a commit is refused\<close>

lemma grow_nth [simp]: "j \<le> i \<or> j < length bs \<Longrightarrow> grow i bs ! j = (if j < length bs then bs ! j else None)"
  by (auto simp: grow_def nth_append)

lemma length_grow [simp]: "length (grow i bs) = max (length bs) (i + 1)"
  by (auto simp: grow_def)

text \<open>An op with a slot and a layout lands, or its body refuses the row: nothing else can fail.\<close>

lemma land_op_error:
  assumes "landable sess s" "land_op new land sess (s, op) bs = Inl e"
  shows "\<exists>b. land b op = Inl e"
  using assms
  by (auto simp: land_op_def landable_def slot_ok_def slot_table_def layout_of_def and_then_eq_Inl Let_def
      split: option.split_asm if_split_asm)

lemma flush_op_error:
  assumes "landable sess (fst so)" "flush_op cl p sess bs so = Inl e"
  shows "if cl then \<exists>c. changes_op c (snd so) = Inl e else \<exists>c. collapse_op c (snd so) = Inl e"
  using assms land_op_error [of sess "fst so" changes_new changes_op "snd so" "snd bs" e]
    land_op_error [of sess "fst so" collapser_new "collapse_at p" "snd so" "fst bs" e]
  by (cases bs; cases so) (auto simp: flush_op_def collapse_at_def and_then_eq_Inl split: if_split_asm)

lemma flush_ops_error:
  "all_landable sess xs \<Longrightarrow> flush_ops xs sess bs cl p = Inl e \<Longrightarrow>
   \<exists>so \<in> set xs. if cl then \<exists>c. changes_op c (snd so) = Inl e else \<exists>c. collapse_op c (snd so) = Inl e"
proof (induction xs arbitrary: bs)
  case (Cons so xs)
  then have l: "landable sess (fst so)" "all_landable sess xs" by (cases so; simp)+
  from Cons.prems(2) consider "flush_op cl p sess bs so = Inl e"
    | bs' where "flush_ops xs sess bs' cl p = Inl e"
    by (auto simp: flush_ops_def and_then_eq_Inl)
  then show ?case
  proof cases
    case 1
    from flush_op_error [OF l(1) this] show ?thesis by (auto simp del: if_bool_eq_conj)
  next
    case 2
    from Cons.IH [OF l(2) this] show ?thesis by auto
  qed
qed (simp add: flush_ops_def)


lemma draining_inv: "draining cfg sess start stop d \<Longrightarrow> session_inv sess \<Longrightarrow> state_inv d"
proof (induction rule: draining.induct)
  case (opened d)
  from open_carry_inv [OF opened] show ?case by simp
next
  case (turned d turn ev d')
  from on_event_inv [OF turned.hyps(2)] turned show ?case by simp
qed



lemma sample_session_inv: "session_inv sample_session"
proof -
  have f: "slot_ok sample_session s \<longleftrightarrow> s = 0" "slot_table sample_session 0 = ascii ''s.t''" for s
    by (simp_all add: slot_ok_def slot_table_def unat_eq_0 del: ascii_Cons)
  have g: "s_rels sample_session o' = (if o' = 7 then Some 0 else None)"
    "s_slot_by_name sample_session t = (if t = ascii ''s.t'' then Some 0 else None)" for o' t
    by (simp_all add: sample_session_def)
  show ?thesis
    unfolding session_inv_def registry_def f g by (auto simp: f simp del: ascii_Cons split: if_splits)
qed

text \<open>A row whose key column is NULL, in a session that already knows the table.\<close>

definition null_buffered :: drain_state where
  "null_buffered = (drain_new sample_session 10 80)\<lparr>d_tx := [(0, Op_Insert null_new)], d_tx_bytes := 69, d_buf := 69\<rparr>"


end
