(* ===== verification/Drain_Correct.thy ===== *)
theory Drain_Correct
  imports Drain_Session "HOL-Library.Sublist"
begin

text \<open>
  What a drain means. The reference machine reads the same stream with no windows, no
  slots and no budgets: it knows tables by name and keeps the log of committed
  transactions. A window lands exactly the transactions the reference commits while it
  reads, table by table and in order; over any sequence of windows no committed change is
  lost, doubled or split, and the replica that applies the windows follows the log.
\<close>

section \<open>The committed log\<close>

type_synonym named_tx = "(bytes \<times> stream_op) list \<times> u64"

record wal_state =
  a_rels :: "u32 \<rightharpoonup> bytes"
  a_tracked :: "bytes \<Rightarrow> bool"
  a_oids :: rel_oids
  a_in :: "u32 option"
  a_tx :: "(bytes \<times> stream_op) list"
  a_streams :: "u32 \<rightharpoonup> (bytes \<times> stream_op \<times> u32) list"
  a_log :: "named_tx list"

definition wal_init :: wal_state where
  "wal_init = \<lparr>a_rels = Map.empty, a_tracked = (\<lambda>_. False), a_oids = Map.empty, a_in = None, a_tx = [],
     a_streams = Map.empty, a_log = []\<rparr>"

definition replay_row :: "u32 \<Rightarrow> stream_op \<Rightarrow> u32 option \<Rightarrow> wal_state \<Rightarrow> wal_state" where
  "replay_row rid op x a =
     (case a_rels a rid of
        None \<Rightarrow> a
      | Some t \<Rightarrow>
          if \<not> a_tracked a t then a
          else case a_in a of
            None \<Rightarrow> a\<lparr>a_tx := a_tx a @ [(t, op)]\<rparr>
          | Some y \<Rightarrow>
              (case a_streams a y of
                 None \<Rightarrow> a
               | Some xs \<Rightarrow> a\<lparr>a_streams := (a_streams a)(y \<mapsto> xs @ [(t, op, case x of Some z \<Rightarrow> z | None \<Rightarrow> y)])\<rparr>))"

definition replay_relation :: "(bytes \<rightharpoonup> bytes list) \<Rightarrow> relation \<Rightarrow> wal_state \<Rightarrow> wal_state" where
  "replay_relation kc r a =
     (let t = qualified_name (namespace r) (rel_name r);
          stale = (\<lambda>o'. a_rels a o' = Some t \<and> o' \<noteq> rel_id r)
      in a\<lparr>a_rels := (\<lambda>o'. if stale o' then None else a_rels a o')(rel_id r \<mapsto> t),
           a_tracked := (a_tracked a)(t := kc t \<noteq> None),
           a_oids := (\<lambda>o'. if stale o' then None
              else ((a_oids a)(rel_id r \<mapsto> map rc_type_oid (rel_cols r))) o')\<rparr>)"

fun replay_message :: "(bytes \<rightharpoonup> bytes list) \<Rightarrow> pgo_message \<Rightarrow> u32 option \<Rightarrow> wal_state \<Rightarrow> wal_state" where
  "replay_message kc (Pgo_Begin _ _ _) x a = a\<lparr>a_tx := []\<rparr>"
| "replay_message kc (Pgo_Commit _ e _) x a = a\<lparr>a_tx := [], a_log := a_log a @ [(a_tx a, e)]\<rparr>"
| "replay_message kc (Pgo_StreamStart y) x a =
     a\<lparr>a_in := Some y,
       a_streams := (case a_streams a y of None \<Rightarrow> (a_streams a)(y \<mapsto> []) | Some _ \<Rightarrow> a_streams a)\<rparr>"
| "replay_message kc Pgo_StreamStop x a = a\<lparr>a_in := None\<rparr>"
| "replay_message kc (Pgo_StreamCommit y e) x a =
     a\<lparr>a_streams := (a_streams a)(y := None),
       a_log := a_log a @ [(map (\<lambda>(t, op, _). (t, op)) (case a_streams a y of None \<Rightarrow> [] | Some xs \<Rightarrow> xs), e)]\<rparr>"
| "replay_message kc (Pgo_StreamAbort y s) x a =
     a\<lparr>a_streams := (a_streams a)(y :=
         if s = y then None else map_option (filter (\<lambda>(_, _, sx). sx \<noteq> s)) (a_streams a y))\<rparr>"
| "replay_message kc (Pgo_Relation r) x a = replay_relation kc r a"
| "replay_message kc (Pgo_Insert rid new) x a = replay_row rid (Op_Insert new) x a"
| "replay_message kc (Pgo_Update rid old new) x a =
     replay_row rid (Op_Update (map_option old_tuple old) new (case old of None \<Rightarrow> False | Some o' \<Rightarrow> full o')) x a"
| "replay_message kc (Pgo_Delete rid old) x a = replay_row rid (Op_Delete (old_tuple old)) x a"
| "replay_message kc (Pgo_Truncate rids _ _) x a = fold (\<lambda>rid. replay_row rid Op_Truncate x) rids a"
| "replay_message kc Pgo_Origin x a = a"
| "replay_message kc Pgo_Type x a = a"

text \<open>
  The order in which the server ships transactions (the pgoutput protocol): a commit comes
  between stream blocks, and a streamed transaction commits between transactions.
\<close>

fun orderly :: "pgo_message \<Rightarrow> wal_state \<Rightarrow> bool" where
  "orderly (Pgo_Commit _ _ _) a \<longleftrightarrow> a_in a = None"
| "orderly (Pgo_StreamCommit _ _) a \<longleftrightarrow> a_in a = None \<and> a_tx a = []"
| "orderly _ a \<longleftrightarrow> True"

section \<open>A session as the reference sees it\<close>

definition named :: "session \<Rightarrow> (u16 \<times> 'a) list \<Rightarrow> (bytes \<times> 'a) list" where
  "named sess xs = map (\<lambda>(s, z). (slot_table sess s, z)) xs"

definition table_tracked :: "session \<Rightarrow> bytes \<Rightarrow> bool" where
  "table_tracked sess t = (case s_slot_by_name sess t of None \<Rightarrow> False | Some s \<Rightarrow> st_tracked (s_slots sess ! unat s))"

definition view :: "session \<Rightarrow> u32 option \<Rightarrow> tx_ops \<Rightarrow> named_tx list \<Rightarrow> wal_state" where
  "view sess i tx log =
     \<lparr>a_rels = (\<lambda>o'. map_option (slot_table sess) (s_rels sess o')), a_tracked = table_tracked sess,
      a_oids = s_rel_oids sess, a_in = i, a_tx = named sess tx,
      a_streams = (\<lambda>x. map_option (named sess) (map_of (s_streams sess) x)), a_log = log\<rparr>"

definition carried :: "session \<Rightarrow> named_tx list" where
  "carried sess = (case s_carry sess of None \<Rightarrow> [] | Some (xs, e) \<Rightarrow> [(named sess xs, e)])"

lemma named_simps [simp]:
  "named sess [] = []" "named sess (xs @ ys) = named sess xs @ named sess ys"
  "named sess ((s, z) # xs) = (slot_table sess s, z) # named sess xs"
  by (simp_all add: named_def)

lemma slot_table_fields [simp]:
  "slot_table (sess\<lparr>s_streams := a\<rparr>) = slot_table sess" "slot_table (sess\<lparr>s_stream_bytes := n\<rparr>) = slot_table sess"
  "slot_table (sess\<lparr>s_carry := c\<rparr>) = slot_table sess" "slot_table (sess\<lparr>s_last_rel := l\<rparr>) = slot_table sess"
  "slot_ok (sess\<lparr>s_streams := a\<rparr>) = slot_ok sess" "slot_ok (sess\<lparr>s_stream_bytes := n\<rparr>) = slot_ok sess"
  "slot_ok (sess\<lparr>s_carry := c\<rparr>) = slot_ok sess" "slot_ok (sess\<lparr>s_last_rel := l\<rparr>) = slot_ok sess"
  by (simp_all add: fun_eq_iff slot_table_def slot_ok_def)

lemma named_fields [simp]:
  "named (sess\<lparr>s_streams := a\<rparr>) = named sess" "named (sess\<lparr>s_stream_bytes := n\<rparr>) = named sess"
  "named (sess\<lparr>s_carry := c\<rparr>) = named sess" "named (sess\<lparr>s_last_rel := l\<rparr>) = named sess"
  "table_tracked (sess\<lparr>s_streams := a\<rparr>) = table_tracked sess" "table_tracked (sess\<lparr>s_stream_bytes := n\<rparr>) = table_tracked sess"
  "table_tracked (sess\<lparr>s_carry := c\<rparr>) = table_tracked sess" "table_tracked (sess\<lparr>s_last_rel := l\<rparr>) = table_tracked sess"
  by (simp_all add: fun_eq_iff named_def table_tracked_def split: option.split)

lemma named_extends: "extends a b \<Longrightarrow> all_landable a xs \<Longrightarrow> named b xs = named a xs"
  by (induction xs) (auto simp: extends_def landable_def)

lemma named_filter: "filter (\<lambda>(_, _, sx). p sx) (named sess xs) = named sess (filter (\<lambda>(_, _, sx). p sx) xs)"
  by (induction xs) (auto simp: named_def)

lemma rel_tracked:
  "registry sess \<Longrightarrow> s_rels sess rid = Some s \<Longrightarrow> table_tracked sess (slot_table sess s) = st_tracked (s_slots sess ! unat s)"
  using registryD(2) [of sess "slot_table sess s" s] registryD(3) [of sess rid s] by (simp add: table_tracked_def)

text \<open>A row change means the same to both.\<close>

lemma replay_row_untracked:
  assumes "registry sess" "tracked rid sess = Inr (None, sess')"
  shows "replay_row rid op x (view sess i tx log) = view sess' i tx log"
proof -
  from tracked_registers [OF assms] obtain s l where s: "s_rels sess rid = Some s" "sess' = sess\<lparr>s_last_rel := l\<rparr>"
    "\<not> st_tracked (s_slots sess ! unat s)" by (metis option.distinct(1))
  with rel_tracked [OF assms(1) s(1)] show ?thesis
    by (simp add: replay_row_def view_def)
qed

lemma replay_row_tracked:
  assumes "registry sess" "tracked rid sess = Inr (Some s, sess')"
  shows "replay_row rid op x (view sess i tx log) =
     (case i of
        None \<Rightarrow> view sess' i (tx @ [(s, op)]) log
      | Some y \<Rightarrow>
          (case map_of (s_streams sess') y of
             None \<Rightarrow> view sess' i tx log
           | Some xs \<Rightarrow> view (sess'\<lparr>s_streams :=
               AList.update y (xs @ [(s, op, case x of Some z \<Rightarrow> z | None \<Rightarrow> y)]) (s_streams sess')\<rparr>) i tx log))"
proof -
  from tracked_registers [OF assms] obtain l where s: "s_rels sess rid = Some s" "sess' = sess\<lparr>s_last_rel := l\<rparr>"
    "st_tracked (s_slots sess ! unat s)" by (metis option.distinct(1) option.inject)
  with rel_tracked [OF assms(1) s(1)] show ?thesis
    by (auto simp: replay_row_def view_def update_conv' fun_eq_iff split: option.splits)
qed


section \<open>What the bodies of a window hold\<close>

text \<open>The ops of a log, flat, each with its transaction's end; and one table's share of them.\<close>

definition flat :: "named_tx list \<Rightarrow> (bytes \<times> stream_op \<times> u64) list" where
  "flat log = concat (map (\<lambda>(xs, e). map (\<lambda>(t, op). (t, op, e)) xs) log)"

definition table_ops :: "bytes \<Rightarrow> (bytes \<times> stream_op \<times> u64) list \<Rightarrow> (stream_op \<times> u64) list" where
  "table_ops t ms = map snd (filter (\<lambda>m. fst m = t) ms)"

text \<open>A body built from nothing but a layout and the ops it was given.\<close>

definition built ::
  "(layout \<Rightarrow> 'b) \<Rightarrow> (u64 \<Rightarrow> 'b \<Rightarrow> stream_op \<Rightarrow> 'b result) \<Rightarrow> layout \<Rightarrow> (stream_op \<times> u64) list \<Rightarrow> 'b result" where
  "built new land l ms = fold_results (\<lambda>b (op, e). land e b op) (new l) ms"

definition body_at :: "'b option list \<Rightarrow> nat \<Rightarrow> 'b option" where
  "body_at bs i = (if i < length bs then bs ! i else None)"

definition body_holds ::
  "(layout \<Rightarrow> 'b) \<Rightarrow> (u64 \<Rightarrow> 'b \<Rightarrow> stream_op \<Rightarrow> 'b result) \<Rightarrow> ('b \<Rightarrow> layout) \<Rightarrow> 'b option \<Rightarrow> (stream_op \<times> u64) list \<Rightarrow> bool" where
  "body_holds new land lay b ms \<longleftrightarrow>
     (case b of None \<Rightarrow> ms = [] | Some b \<Rightarrow> ms \<noteq> [] \<and> built new land (lay b) ms = Inr b)"

text \<open>
  Every slot's body holds its table's ops; a body without a pending layout change has the
  table's current layout.
\<close>

definition bodies_hold ::
  "(layout \<Rightarrow> 'b) \<Rightarrow> (u64 \<Rightarrow> 'b \<Rightarrow> stream_op \<Rightarrow> 'b result) \<Rightarrow> ('b \<Rightarrow> layout) \<Rightarrow>
   session \<Rightarrow> bool \<Rightarrow> 'b option list \<Rightarrow> (bytes \<times> stream_op \<times> u64) list \<Rightarrow> bool" where
  "bodies_hold new land lay sess relayout bs ms \<longleftrightarrow>
     length bs \<le> length (s_slots sess) \<and>
     (\<forall>m \<in> set ms. \<exists>s. slot_ok sess s \<and> slot_table sess s = fst m) \<and>
     (\<forall>s. slot_ok sess s \<longrightarrow> body_holds new land lay (body_at bs (unat s)) (table_ops (slot_table sess s) ms)) \<and>
     (\<forall>s b. slot_ok sess s \<longrightarrow> body_at bs (unat s) = Some b \<longrightarrow> \<not> relayout \<longrightarrow>
        s_layouts sess (slot_table sess s) = Some (lay b))"

lemma table_ops_Nil [simp]: "table_ops t [] = []"
  by (simp add: table_ops_def)

lemma table_ops_append [simp]: "table_ops t (xs @ ys) = table_ops t xs @ table_ops t ys"
  by (simp add: table_ops_def)

lemma table_ops_one [simp]: "table_ops t [(u, x)] = (if u = t then [x] else [])"
  by (simp add: table_ops_def)

lemma flat_simps [simp]: "flat [] = []" "flat (L @ M) = flat L @ flat M"
  "flat [(xs, e)] = map (\<lambda>(t, op). (t, op, e)) xs"
  by (simp_all add: flat_def)

lemma built_snoc: "built new land l (ms @ [(op, e)]) = and_then (built new land l ms) (\<lambda>b. land e b op)"
  by (simp add: built_def fold_results_snoc)

lemma table_slot_unique:
  "registry sess \<Longrightarrow> slot_ok sess s \<Longrightarrow> slot_ok sess r \<Longrightarrow> slot_table sess s = slot_table sess r \<longleftrightarrow> s = r"
  using registryD(2) [of sess "slot_table sess s" s] registryD(2) [of sess "slot_table sess s" r] by auto

text \<open>A lane: how a body of a window starts and takes an op, keeping its layout.\<close>

locale lane =
  fixes new :: "layout \<Rightarrow> 'b"
    and land :: "u64 \<Rightarrow> 'b \<Rightarrow> stream_op \<Rightarrow> 'b result"
    and lay :: "'b \<Rightarrow> layout"
  assumes lay_new: "lay (new l) = l"
    and lay_land: "land e b op = Inr b' \<Longrightarrow> lay b' = lay b"
begin

lemma body_holds_snoc:
  assumes "body_holds new land lay b ms" "b0 = (case b of Some b \<Rightarrow> b | None \<Rightarrow> new l)" "land e b0 op = Inr b'"
  shows "body_holds new land lay (Some b') (ms @ [(op, e)])"
proof -
  have "built new land (lay b') ms = Inr b0"
    using assms lay_land [OF assms(3)] lay_new by (cases b) (simp_all add: body_holds_def built_def)
  with assms(3) show ?thesis by (simp add: body_holds_def built_snoc)
qed

text \<open>One op lands in the body of its table and in no other.\<close>

lemma land_op_holds:
  assumes "land_op new (land e) sess (s, op) bs = Inr bs'" "registry sess"
    and "bodies_hold new land lay sess False bs ms"
  shows "bodies_hold new land lay sess False bs' (ms @ [(slot_table sess s, op, e)])"
proof -
  let ?i = "unat s"
  let ?t = "slot_table sess s"
  from assms(1) obtain b0 b' where s: "slot_ok sess s"
    and b0: "case body_at bs ?i of Some b \<Rightarrow> b0 = b | None \<Rightarrow> (\<exists>l. s_layouts sess ?t = Some l \<and> b0 = new l)"
    and b': "land e b0 op = Inr b'" and bs': "bs' = (grow ?i bs)[?i := Some b']"
    by (auto simp: land_op_def layout_of_def slot_ok_def slot_table_def body_at_def index_list_def Let_def result_simps
        split: if_split_asm option.splits)
  from assms(3) have H: "length bs \<le> length (s_slots sess)"
    "\<And>r. slot_ok sess r \<Longrightarrow> body_holds new land lay (body_at bs (unat r)) (table_ops (slot_table sess r) ms)"
    "\<And>r b. slot_ok sess r \<Longrightarrow> body_at bs (unat r) = Some b \<Longrightarrow> s_layouts sess (slot_table sess r) = Some (lay b)"
    by (auto simp: bodies_hold_def)
  have at: "body_at bs' (unat r) = (if r = s then Some b' else body_at bs (unat r))" for r
    unfolding bs' by (auto simp: body_at_def nth_list_update unat_eq_u16 max_def nth_append grow_def)
  have lay: "s_layouts sess ?t = Some (lay b')"
    using b0 H(3) [OF s] lay_land [OF b'] lay_new by (auto split: option.split_asm)
  obtain l where l: "b0 = (case body_at bs ?i of Some b \<Rightarrow> b | None \<Rightarrow> new l)"
    using b0 by (cases "body_at bs ?i") auto
  have "body_holds new land lay (Some b') (table_ops ?t ms @ [(op, e)])"
    by (rule body_holds_snoc [OF H(2) [OF s] l b'])
  moreover have "length bs' \<le> length (s_slots sess)" using H(1) s unfolding bs' by (simp add: slot_ok_def)
  ultimately show ?thesis
    using assms(3) s at lay H(2,3) table_slot_unique [OF assms(2) s]
    by (auto simp: bodies_hold_def)
qed

lemma land_ops_hold:
  "fold_results (\<lambda>bs so. land_op new (land e) sess so bs) bs xs = Inr bs' \<Longrightarrow> registry sess \<Longrightarrow>
   bodies_hold new land lay sess False bs ms \<Longrightarrow>
   bodies_hold new land lay sess False bs' (ms @ map (\<lambda>(t, op). (t, op, e)) (named sess xs))"
proof (induction xs arbitrary: bs ms)
  case (Cons so xs)
  obtain s op where so: "so = (s, op)" by (cases so)
  from Cons.prems(1) so obtain bs1 where bs1: "land_op new (land e) sess (s, op) bs = Inr bs1"
    "fold_results (\<lambda>bs so. land_op new (land e) sess so bs) bs1 xs = Inr bs'"
    by (auto simp: result_simps)
  from Cons.IH [OF bs1(2) Cons.prems(2) land_op_holds [OF bs1(1) Cons.prems(2,3)]] so show ?case by simp
qed simp

text \<open>A Relation keeps what the bodies hold, and announces a layout change of a held table.\<close>

lemma announce_holds:
  assumes "registry sess" "announce cfg r sess = Inr (sess', slot, changed)"
    and "bodies_hold new land lay sess relayout bs ms"
  shows "bodies_hold new land lay sess' (relayout \<or> changed \<and> has_body bs (unat slot)) bs ms"
proof -
  let ?t = "qualified_name (namespace r) (rel_name r)"
  obtain la where a: "registry sess'" "extends sess sess'"
    "slot_ok sess' slot" "slot_table sess' slot = ?t" "\<And>s. slot_ok sess' s \<Longrightarrow> s = slot \<or> slot_ok sess s"
    "s_layouts sess' = (case la of None \<Rightarrow> s_layouts sess | Some l \<Rightarrow> (s_layouts sess)(?t \<mapsto> l))"
    "changed \<longleftrightarrow> la \<noteq> None \<and> s_layouts sess ?t \<noteq> la"
    by (rule announce_registers [OF assms(1,2)]) (rule that; assumption)
  have old: "slot_ok sess s \<Longrightarrow> slot_ok sess' s \<and> slot_table sess' s = slot_table sess s" for s
    using a(2) by (simp add: extends_def)
  have H: "length bs \<le> length (s_slots sess)" "\<forall>m \<in> set ms. \<exists>s. slot_ok sess s \<and> slot_table sess s = fst m"
    "\<And>s. slot_ok sess s \<Longrightarrow> body_holds new land lay (body_at bs (unat s)) (table_ops (slot_table sess s) ms)"
    "\<And>s b. slot_ok sess s \<Longrightarrow> body_at bs (unat s) = Some b \<Longrightarrow> \<not> relayout \<Longrightarrow> s_layouts sess (slot_table sess s) = Some (lay b)"
    using assms(3) by (auto simp: bodies_hold_def)
  have fresh: "body_at bs (unat s) = None \<and> table_ops (slot_table sess' s) ms = []"
    if "slot_ok sess' s" "\<not> slot_ok sess s" for s
  proof -
    have "fst m \<noteq> slot_table sess' s" if "m \<in> set ms" for m
      using H(2) that old table_slot_unique [OF a(1) \<open>slot_ok sess' s\<close>] \<open>\<not> slot_ok sess s\<close> by metis
    with that H(1) show ?thesis by (auto simp: body_at_def slot_ok_def table_ops_def filter_empty_conv)
  qed
  have len: "length (s_slots sess) \<le> length (s_slots sess')"
  proof (rule ccontr)
    assume "\<not> ?thesis"
    then have less: "length (s_slots sess') < length (s_slots sess)" by simp
    with registryD(1) [OF assms(1)] have "unat (of_nat (length (s_slots sess')) :: u16) = length (s_slots sess')"
      by (intro unat_of_nat_u16) simp
    with old [of "of_nat (length (s_slots sess'))"] less show False by (simp add: slot_ok_def)
  qed
  show ?thesis
    unfolding bodies_hold_def
  proof (intro conjI allI impI)
    show "length bs \<le> length (s_slots sess')" using H(1) len by simp
    show "\<forall>m \<in> set ms. \<exists>s. slot_ok sess' s \<and> slot_table sess' s = fst m" using H(2) old by fastforce
    fix s
    assume s: "slot_ok sess' s"
    show "body_holds new land lay (body_at bs (unat s)) (table_ops (slot_table sess' s) ms)"
      using fresh [OF s] H(3) [of s] old [of s] by (cases "slot_ok sess s") (auto simp: body_holds_def)
    fix b
    assume b: "body_at bs (unat s) = Some b" and no: "\<not> (relayout \<or> changed \<and> has_body bs (unat slot))"
    from fresh [OF s] b have ok: "slot_ok sess s" by auto
    have hb: "has_body bs (unat s)" using b by (auto simp: has_body_def body_at_def split: if_split_asm)
    have "s_layouts sess (slot_table sess s) = Some (lay b)" using H(4) [OF ok b] no by simp
    moreover have "s_layouts sess' (slot_table sess s) = s_layouts sess (slot_table sess s)"
    proof (cases "s = slot")
      case True
      with no hb a(7) a(6) a(4) old [OF ok] show ?thesis by (auto split: option.splits)
    next
      case False
      with table_slot_unique [OF a(1) s a(3)] a(4) old [OF ok] a(6) show ?thesis by (auto split: option.splits)
    qed
    ultimately show "s_layouts sess' (slot_table sess' s) = Some (lay b)" using old [OF ok] by simp
  qed
qed

end


subsection \<open>Both lanes are lanes\<close>

lemma c_layout_fields [simp]:
  "c_layout (set_slot k s c) = c_layout c" "c_layout (count_event c) = c_layout c"
  "c_layout (push_upsert k del row c) = c_layout c" "c_layout (push_residue op c) = c_layout c"
  "c_layout (collapser_at p c) = c_layout c" "c_layout (collapser_truncate c) = c_layout c"
  by (simp_all add: set_slot_def count_event_def push_upsert_def push_residue_def collapser_at_def
      collapser_truncate_def Let_def)

lemma write_upsert_layout: "write_upsert seq v c = Inr c' \<Longrightarrow> c_layout c' = c_layout c"
  by (auto simp: write_upsert_def result_simps)

lemma put_delete_layout: "put_delete k c = Inr c' \<Longrightarrow> c_layout c' = c_layout c"
  by (auto simp: put_delete_def result_simps dest!: write_upsert_layout split: option.split_asm slot.split_asm)

lemma land_image_layout: "land_image k toast row c = Inr c' \<Longrightarrow> c_layout c' = c_layout c"
  by (auto simp: land_image_def result_simps dest!: write_upsert_layout split: option.split_asm slot.split_asm if_split_asm)

lemma leave_old_key_layout: "leave_old_key fl old k c = Inr c' \<Longrightarrow> c_layout c' = c_layout c"
  by (auto simp: leave_old_key_def result_simps dest!: put_delete_layout split: option.split_asm slot.split_asm if_split_asm)

lemma move_row_layout: "move_row a b row c = Inr c' \<Longrightarrow> c_layout c' = c_layout c"
  by (auto simp: move_row_def result_simps Let_def)

lemma insert_layout: "collapser_insert row c = Inr c' \<Longrightarrow> c_layout c' = c_layout c"
  unfolding collapser_insert_def Let_def and_then_eq_Inr
  by (elim exE conjE) (auto simp: result_simps dest!: write_upsert_layout split: option.split_asm slot.split_asm)

lemma update_layout: "update_image old fl row c = Inr c' \<Longrightarrow> c_layout c' = c_layout c"
  unfolding update_image_def Let_def and_then_eq_Inr
  by (elim exE conjE)
    (auto simp: result_simps dest!: leave_old_key_layout move_row_layout land_image_layout split: option.split_asm if_split_asm)

lemma collapse_op_layout: "collapse_op c op = Inr c' \<Longrightarrow> c_layout c' = c_layout c"
  by (cases op) (auto simp: collapser_delete_def Let_def result_simps dest: insert_layout update_layout put_delete_layout)

lemma changes_op_layout: "changes_op c op = Inr c' \<Longrightarrow> ch_layout c' = ch_layout c"
  by (cases op)
    (auto simp: changes_insert_def changes_update_def changes_delete_def changes_truncate_def note_mask_def
      push_change_def count_change_def Let_def result_simps split: if_split_asm option.split_asm)

interpretation collapse_lane: lane collapser_new collapse_at c_layout
  by unfold_locales (auto simp: collapser_new_def collapse_at_def dest: collapse_op_layout)

interpretation changes_lane: lane changes_new "\<lambda>_. changes_op" ch_layout
  by unfold_locales (auto simp: changes_new_def dest: changes_op_layout)

text \<open>The bodies of a window hold the transactions it landed.\<close>

definition holds :: "drain_cfg \<Rightarrow> drain_state \<Rightarrow> named_tx list \<Rightarrow> bool" where
  "holds cfg d W \<longleftrightarrow>
     (if k_changelog cfg
      then d_collapsers d = [] \<and> bodies_hold changes_new (\<lambda>_. changes_op) ch_layout (d_sess d) (d_relayout d) (d_changelogs d) (flat W)
      else d_changelogs d = [] \<and> bodies_hold collapser_new collapse_at c_layout (d_sess d) (d_relayout d) (d_collapsers d) (flat W))"

lemma bodies_hold_cong:
  "s_slots sess' = s_slots sess \<Longrightarrow> s_layouts sess' = s_layouts sess \<Longrightarrow>
   bodies_hold new land lay sess' relayout bs ms = bodies_hold new land lay sess relayout bs ms"
  by (simp add: bodies_hold_def slot_ok_def slot_table_def)

lemma holds_frame:
  "holds cfg d W \<Longrightarrow> s_slots (d_sess d') = s_slots (d_sess d) \<Longrightarrow> s_layouts (d_sess d') = s_layouts (d_sess d) \<Longrightarrow>
   d_collapsers d' = d_collapsers d \<Longrightarrow> d_changelogs d' = d_changelogs d \<Longrightarrow> d_relayout d' = d_relayout d \<Longrightarrow> holds cfg d' W"
  using bodies_hold_cong [of "d_sess d'" "d_sess d" changes_new] bodies_hold_cong [of "d_sess d'" "d_sess d" collapser_new]
  by (simp add: holds_def)

lemma flush_ops_lane:
  "flush_ops xs sess (cs, gs) cl p =
     (if cl then and_then (fold_results (\<lambda>bs so. land_op changes_new changes_op sess so bs) gs xs) (\<lambda>g. Inr (cs, g))
      else and_then (fold_results (\<lambda>bs so. land_op collapser_new (collapse_at p) sess so bs) cs xs) (\<lambda>c. Inr (c, gs)))"
proof (induction xs arbitrary: cs gs)
  case (Cons so xs)
  then show ?case by (auto simp: flush_ops_def flush_op_def and_then_assoc intro!: and_then_cong)
qed (simp add: flush_ops_def)

lemma land_tx_holds:
  assumes "land_tx cfg xs e d = Inr d'" "holds cfg d W" "registry (d_sess d)" "\<not> d_relayout d"
  shows "holds cfg d' (W @ [(named (d_sess d) xs, e)])"
  using assms changes_lane.land_ops_hold [where sess = "d_sess d" and xs = xs and bs = "d_changelogs d" and ms = "flat W"]
    collapse_lane.land_ops_hold [where sess = "d_sess d" and xs = xs and bs = "d_collapsers d" and ms = "flat W" and e = e]
  by (cases "k_changelog cfg") (auto simp: land_tx_def flush_ops_lane holds_def result_simps)


section \<open>A window follows the reference\<close>

definition dview :: "drain_state \<Rightarrow> named_tx list \<Rightarrow> wal_state" where
  "dview d log = view (d_sess d) (d_in d) (d_tx d) log"

text \<open>
  The reference's state, after the log \<open>P\<close> earlier windows landed: it has logged what this
  window landed, and the carried transaction where the window stopped short of one. A
  window that ends leaves nothing of an open transaction behind.
\<close>

definition follows :: "drain_cfg \<Rightarrow> named_tx list \<Rightarrow> wal_state \<Rightarrow> flow \<Rightarrow> named_tx list \<Rightarrow> bool" where
  "follows cfg P a f W \<longleftrightarrow>
     (let d = flow_state f in
      a = dview d (P @ W @ carried (d_sess d)) \<and> holds cfg d W \<and> state_inv d \<and>
      (case f of Go d \<Rightarrow> s_carry (d_sess d) = None | Break d \<Rightarrow> d_tx d = [] \<and> d_in d = None))"

lemma carried_None: "s_carry sess = None \<Longrightarrow> carried sess = []"
  by (simp add: carried_def)

lemma followsD:
  "follows cfg P a (Go d) W \<Longrightarrow> a = dview d (P @ W) \<and> holds cfg d W \<and> state_inv d \<and> s_carry (d_sess d) = None \<and> registry (d_sess d)"
  by (simp add: follows_def carried_None state_inv_def session_inv_def)

lemma follows_goI:
  "a = dview d (P @ W) \<Longrightarrow> holds cfg d W \<Longrightarrow> state_inv d \<Longrightarrow> s_carry (d_sess d) = None \<Longrightarrow> follows cfg P a (Go d) W"
  by (simp add: follows_def carried_None)

lemma tracked_carry: "tracked rid sess = Inr (t, sess') \<Longrightarrow>
  s_carry sess' = s_carry sess \<and> s_slots sess' = s_slots sess \<and> s_layouts sess' = s_layouts sess \<and> s_streams sess' = s_streams sess"
  by (erule tracked_frame) simp

lemma on_row_follows:
  assumes "on_row cfg rid op n x d = Inr d'" "follows cfg P a (Go d) W"
  shows "follows cfg P (replay_row rid op x a) (Go d') W"
proof -
  note F = followsD [OF assms(2)]
  from assms(1) obtain t sess where t: "tracked rid (d_sess d) = Inr (t, sess)"
    "(case t of None \<Rightarrow> Inr (d\<lparr>d_sess := sess\<rparr>) | Some t \<Rightarrow> buffer_op cfg t op n x (d\<lparr>d_sess := sess\<rparr>)) = Inr d'"
    by (auto simp: on_row_def Let_def result_simps)
  note c = tracked_carry [OF t(1)]
  have inv: "state_inv d'" using on_row_inv [OF assms(1)] F by blast
  show ?thesis
  proof (cases t)
    case None
    with t replay_row_untracked [of "d_sess d" rid sess op x "d_in d" "d_tx d" "P @ W"] F inv c show ?thesis
      by (intro follows_goI) (auto simp: dview_def elim: holds_frame)
  next
    case (Some s)
    note rr = replay_row_tracked [of "d_sess d" rid s sess op x "d_in d" "d_tx d" "P @ W"]
    show ?thesis
    proof (cases "d_in d")
      case None
      with t Some rr F inv c show ?thesis
        by (intro follows_goI)
          (auto simp: dview_def view_def buffer_op_def Let_def result_simps elim: holds_frame split: if_split_asm)
    next
      case (Some y)
      with t \<open>t = Some s\<close> rr F inv c show ?thesis
        by (intro follows_goI)
          (auto simp: dview_def view_def buffer_op_def open_stream_def Let_def result_simps elim: holds_frame split: if_split_asm)
    qed
  qed
qed

lemma truncate_follows:
  assumes "buffer_truncate x d rid = Inr d'" "follows cfg P a (Go d) W"
  shows "follows cfg P (replay_row rid Op_Truncate x a) (Go d') W"
proof -
  note F = followsD [OF assms(2)]
  from assms(1) obtain t sess where t: "tracked rid (d_sess d) = Inr (t, sess)"
    by (auto simp: buffer_truncate_def Let_def result_simps)
  note c = tracked_carry [OF t]
  have inv: "state_inv d'" using truncate_inv [OF assms(1)] F by blast
  show ?thesis
  proof (cases t)
    case None
    with assms(1) t replay_row_untracked [of "d_sess d" rid sess Op_Truncate x "d_in d" "d_tx d" "P @ W"] F inv c show ?thesis
      by (intro follows_goI) (auto simp: dview_def buffer_truncate_def elim: holds_frame)
  next
    case (Some s)
    with assms(1) t replay_row_tracked [of "d_sess d" rid s sess Op_Truncate x "d_in d" "d_tx d" "P @ W"] F inv c show ?thesis
      by (intro follows_goI; cases "d_in d")
        (auto simp: dview_def view_def buffer_truncate_def open_stream_def Let_def result_simps elim: holds_frame)
  qed
qed

lemma on_truncate_follows:
  "on_truncate rids x d = Inr d' \<Longrightarrow> follows cfg P a (Go d) W \<Longrightarrow>
   follows cfg P (fold (\<lambda>rid. replay_row rid Op_Truncate x) rids a) (Go d') W"
  unfolding on_truncate_def
  by (induction rids arbitrary: d a) (auto simp: result_simps dest: truncate_follows)


text \<open>A Relation: slots and names change together.\<close>

lemma announce_view:
  assumes "session_inv sess" "announce cfg r sess = Inr (sess', slot, changed)" "all_landable sess tx"
  shows "replay_relation (k_cols cfg) r (view sess i tx log) = view sess' i tx log"
proof -
  let ?t = "qualified_name (namespace r) (rel_name r)"
  have reg0: "registry sess" using assms(1) by (simp add: session_inv_def)
  obtain la where reg: "registry sess'" and ext: "extends sess sess'"
    and slot: "slot_ok sess' slot" "slot_table sess' slot = ?t" "\<And>s. slot_ok sess' s \<Longrightarrow> s = slot \<or> slot_ok sess s"
    and trk: "\<And>s. slot_ok sess' s \<Longrightarrow> st_tracked (s_slots sess' ! unat s) = (if s = slot then k_cols cfg ?t \<noteq> None else st_tracked (s_slots sess ! unat s))"
    and rels: "s_rels sess' = (\<lambda>o'. if s_rels sess o' = Some slot \<and> o' \<noteq> rel_id r then None else s_rels sess o')(rel_id r \<mapsto> slot)"
    and oids: "s_rel_oids sess' = (\<lambda>o'. if s_rels sess o' = Some slot \<and> o' \<noteq> rel_id r then None
        else ((s_rel_oids sess)(rel_id r \<mapsto> map rc_type_oid (rel_cols r))) o')"
    by (rule announce_registers [OF reg0 assms(2)]) (rule that; assumption)
  have old: "slot_ok sess s \<Longrightarrow> slot_ok sess' s \<and> slot_table sess' s = slot_table sess s" for s
    using ext by (simp add: extends_def)
  have ok: "slot_ok sess s" if "s_rels sess o' = Some s" for o' s using registryD(3) [OF reg0 that] .
  have stale: "s_rels sess o' = Some slot \<longleftrightarrow> map_option (slot_table sess) (s_rels sess o') = Some ?t" for o'
    using ok [of o'] old table_slot_unique [OF reg _ slot(1)] slot(2) by (cases "s_rels sess o'") fastforce+
  have 1: "map_option (slot_table sess') (s_rels sess' o') =
      ((\<lambda>o'. if map_option (slot_table sess) (s_rels sess o') = Some ?t \<and> o' \<noteq> rel_id r then None
          else map_option (slot_table sess) (s_rels sess o'))(rel_id r \<mapsto> ?t)) o'" for o'
    using slot(2) old ok [of o'] unfolding rels stale by (cases "s_rels sess o'") auto
  have 2: "table_tracked sess' t = ((table_tracked sess)(?t := k_cols cfg ?t \<noteq> None)) t" for t
  proof (cases "s_slot_by_name sess' t")
    case None
    then have no: "\<not> (slot_ok sess' s \<and> slot_table sess' s = t)" for s using registryD(2) [OF reg, of t s] by simp
    then have "t \<noteq> ?t" using slot by metis
    moreover have "s_slot_by_name sess t = None"
    proof (cases "s_slot_by_name sess t")
      case (Some s)
      with registryD(2) [OF reg0, of t s] old [of s] no [of s] show ?thesis by simp
    qed simp
    ultimately show ?thesis using None by (simp add: table_tracked_def)
  next
    case (Some s)
    then have s: "slot_ok sess' s" "slot_table sess' s = t" using registryD(2) [OF reg, of t s] by auto
    show ?thesis
    proof (cases "s = slot")
      case True
      with Some s slot trk [OF s(1)] show ?thesis by (simp add: table_tracked_def)
    next
      case False
      with slot(3) [OF s(1)] have "slot_ok sess s" by blast
      with old [of s] s registryD(2) [OF reg0, of t s] have "s_slot_by_name sess t = Some s" by simp
      moreover have "t \<noteq> ?t" using False table_slot_unique [OF reg s(1) slot(1)] s(2) slot(2) by simp
      ultimately show ?thesis using Some trk [OF s(1)] False by (simp add: table_tracked_def)
    qed
  qed
  have str: "s_streams sess' = s_streams sess" using announce_frame [OF assms(2)] by simp
  have 3: "map_option (named sess') (map_of (s_streams sess') x) = map_option (named sess) (map_of (s_streams sess) x)" for x
    unfolding str using named_extends [OF ext] session_invD(2) [OF assms(1), of x] by (cases "map_of (s_streams sess) x") auto
  have 4: "s_rel_oids sess' = (\<lambda>o'. if map_option (slot_table sess) (s_rels sess o') = Some ?t \<and> o' \<noteq> rel_id r then None
        else ((s_rel_oids sess)(rel_id r \<mapsto> map rc_type_oid (rel_cols r))) o')"
    unfolding oids stale ..
  show ?thesis
    unfolding replay_relation_def view_def Let_def
    using 1 2 3 named_extends [OF ext assms(3)] by (auto simp: 4 fun_eq_iff)
qed

lemma on_relation_follows:
  assumes "on_relation cfg r d = Inr d'" "follows cfg P a (Go d) W"
  shows "follows cfg P (replay_relation (k_cols cfg) r a) (Go d') W"
proof -
  note F = followsD [OF assms(2)]
  from assms(1) obtain sess slot ch where an: "announce cfg r (d_sess d) = Inr (sess, slot, ch)"
    and d': "d' = d\<lparr>d_sess := sess, d_relayout := d_relayout d \<or>
        ch \<and> (has_body (d_collapsers d) (unat slot) \<or> has_body (d_changelogs d) (unat slot))\<rparr>"
    by (auto simp: on_relation_def result_simps)
  have inv: "state_inv d'" using on_relation_inv [OF assms(1)] F by blast
  have H: "holds cfg d' W"
    using F changes_lane.announce_holds [OF _ an, of "d_relayout d" "d_changelogs d" "flat W"]
      collapse_lane.announce_holds [OF _ an, of "d_relayout d" "d_collapsers d" "flat W"]
    unfolding d' by (cases "k_changelog cfg") (auto simp: holds_def has_body_def)
  from F inv H announce_frame [OF an] announce_view [OF _ an, of "d_tx d"] show ?thesis
    by (intro follows_goI) (auto simp: d' dview_def state_inv_def)
qed

text \<open>Streams and commits.\<close>

lemma on_stream_start_follows:
  "follows cfg P a (Go d) W \<Longrightarrow> follows cfg P (replay_message kc (Pgo_StreamStart y) x a) (Go (on_stream_start y d)) W"
  using followsD [of cfg P a d W] on_stream_start_inv [of d y]
  by (intro follows_goI)
    (auto simp: dview_def view_def on_stream_start_def Let_def update_conv' fun_eq_iff elim: holds_frame split: option.splits)

lemma on_stream_abort_follows:
  assumes "follows cfg P a (Go d) W"
  shows "follows cfg P (replay_message kc (Pgo_StreamAbort y s) x a) (Go (on_stream_abort y s d)) W"
proof -
  note F = followsD [OF assms]
  let ?sess = "abort_stream y s (d_sess d)"
  have f: "slot_table ?sess = slot_table (d_sess d)" "table_tracked ?sess = table_tracked (d_sess d)"
    "s_rels ?sess = s_rels (d_sess d)" "s_rel_oids ?sess = s_rel_oids (d_sess d)" "s_carry ?sess = s_carry (d_sess d)"
    "s_slots ?sess = s_slots (d_sess d)" "s_layouts ?sess = s_layouts (d_sess d)"
    by (subst abort_stream_fields, simp)+
  have n: "named ?sess xs = named (d_sess d) xs" for xs :: tx_ops by (simp add: named_def f)
  have m: "named ?sess xs = named (d_sess d) xs" for xs :: "(u16 \<times> stream_op \<times> u32) list" by (simp add: named_def f)
  have v: "map_option (named ?sess) (map_of (s_streams ?sess) z) =
     ((\<lambda>z. map_option (named (d_sess d)) (map_of (s_streams (d_sess d)) z))(y :=
        if s = y then None else map_option (filter (\<lambda>(_, _, sx). sx \<noteq> s)) (map_option (named (d_sess d)) (map_of (s_streams (d_sess d)) y)))) z" for z
    by (cases "map_of (s_streams (d_sess d)) z") (auto simp: abort_stream_streams m named_filter fun_eq_iff)
  have v': "(\<lambda>z. map_option (named ?sess) (map_of (s_streams ?sess) z)) =
     (\<lambda>z. map_option (named (d_sess d)) (map_of (s_streams (d_sess d)) z))(y :=
        if s = y then None else map_option (filter (\<lambda>(_, _, sx). sx \<noteq> s)) (map_option (named (d_sess d)) (map_of (s_streams (d_sess d)) y)))"
    by (rule ext) (rule v)
  have "holds cfg (on_stream_abort y s d) W"
    using F f by (auto simp: on_stream_abort_def elim: holds_frame)
  with F f n v' on_stream_abort_inv [of d y s] show ?thesis
    by (intro follows_goI) (auto simp: dview_def view_def on_stream_abort_def)
qed


lemma after_commit_follows:
  assumes "follows cfg P a (Go d) W" "d_tx d = []" "d_in d = None"
  shows "follows cfg P a (after_commit cfg e d) W"
proof -
  have "holds cfg (d\<lparr>d_hit := True\<rparr>) W" "state_inv (d\<lparr>d_hit := True\<rparr>)"
    using followsD [OF assms(1)] by (auto simp: state_inv_def elim: holds_frame)
  with assms show ?thesis
    by (simp add: after_commit_def follows_def dview_def)
qed

lemma on_commit_follows:
  assumes "on_commit cfg e d = Inr f" "follows cfg P a (Go d) W" "a_in a = None"
  shows "\<exists>W'. follows cfg P (a\<lparr>a_tx := [], a_log := a_log a @ [(a_tx a, e)]\<rparr>) f W'"
proof -
  note F = followsD [OF assms(2)]
  have i: "d_in d = None" using assms(3) F by (simp add: dview_def view_def)
  have inv: "state_inv (flow_state f)" using on_commit_inv [OF assms(1)] F by blast
  show ?thesis
  proof (cases "d_relayout d")
    case True
    with assms(1) have f: "f = carry_over (d_tx d) e d" by (simp add: on_commit_def)
    have "holds cfg (flow_state f) W" using F unfolding f carry_over_def by (auto elim: holds_frame)
    with F i inv f show ?thesis
      by (auto simp: follows_def carry_over_def dview_def view_def carried_def intro!: exI [of _ W])
  next
    case False
    with assms(1) obtain d1 where d1: "land_tx cfg (d_tx d) e d = Inr d1"
      and f: "f = after_commit cfg e (d1\<lparr>d_tx := [], d_tx_bytes := 0\<rparr>)"
      by (auto simp: on_commit_def result_simps)
    obtain cs gs where d1': "d1 = d\<lparr>d_collapsers := cs, d_changelogs := gs, d_end := e\<rparr>"
      using land_tx_frame [OF d1] by blast
    let ?W = "W @ [(named (d_sess d) (d_tx d), e)]"
    have "holds cfg d1 ?W" using land_tx_holds [OF d1] F False by blast
    then have "holds cfg (d1\<lparr>d_tx := [], d_tx_bytes := 0\<rparr>) ?W" by (auto elim: holds_frame)
    moreover have "state_inv (d1\<lparr>d_tx := [], d_tx_bytes := 0\<rparr>)" using F d1' by (simp add: state_inv_def)
    ultimately have "follows cfg P (a\<lparr>a_tx := [], a_log := a_log a @ [(a_tx a, e)]\<rparr>) (Go (d1\<lparr>d_tx := [], d_tx_bytes := 0\<rparr>)) ?W"
      using F d1' by (intro follows_goI) (auto simp: dview_def view_def)
    from after_commit_follows [OF this, of e] i d1' f show ?thesis by auto
  qed
qed

lemma take_stream_view:
  "take_stream y sess = (xs, sess') \<Longrightarrow>
   view sess' i tx log = (view sess i tx log)\<lparr>a_streams := (a_streams (view sess i tx log))(y := None)\<rparr>"
  by (auto simp: take_stream_def view_def Let_def delete_conv' fun_eq_iff)

lemma take_stream_fields:
  assumes "take_stream y sess = (xs, sess')"
  shows "s_carry sess' = s_carry sess" "s_slots sess' = s_slots sess" "s_layouts sess' = s_layouts sess"
    "slot_table sess' = slot_table sess" "xs = (case map_of (s_streams sess) y of None \<Rightarrow> [] | Some xs \<Rightarrow> xs)"
  using assms by (auto simp: take_stream_def Let_def)

lemma on_stream_commit_follows:
  assumes "on_stream_commit cfg y e d = Inr f" "follows cfg P a (Go d) W" "a_in a = None" "a_tx a = []"
  shows "\<exists>W'. follows cfg P (replay_message kc (Pgo_StreamCommit y e) x a) f W'"
proof -
  note F = followsD [OF assms(2)]
  have i: "d_in d = None" "d_tx d = []" using assms(3,4) F by (auto simp: dview_def view_def named_def)
  have inv: "state_inv (flow_state f)" using on_stream_commit_inv [OF assms(1)] F by blast
  obtain xs sess where ts: "take_stream y (d_sess d) = (xs, sess)" by (cases "take_stream y (d_sess d)")
  note t = take_stream_fields [OF ts] and tv = take_stream_view [OF ts, of "d_in d" "d_tx d" "P @ W"]
  have ti: "session_inv sess" using take_stream_inv [OF ts] F by (simp add: state_inv_def)
  let ?tx = "map (\<lambda>(t, op, _). (t, op)) xs"
  have log: "map (\<lambda>(t, op, _). (t, op)) (case a_streams a y of None \<Rightarrow> [] | Some xs \<Rightarrow> xs) = named sess ?tx"
    using F t(4,5) by (auto simp: dview_def view_def named_def split: option.splits)
  have va: "replay_message kc (Pgo_StreamCommit y e) x a = view sess None [] (P @ W @ [(named sess ?tx, e)])"
    using F i tv log by (simp add: dview_def view_def)
  have hs: "holds cfg (d\<lparr>d_sess := sess, d_buf := b\<rparr>) W" for b using F t(2,3) by (auto elim: holds_frame)
  show ?thesis
  proof (cases "d_relayout d")
    case True
    with assms(1) ts have f: "f = Break (d\<lparr>d_sess := sess\<lparr>s_carry := Some (?tx, e)\<rparr>, d_hit := True\<rparr>)"
      by (simp add: on_stream_commit_def Let_def)
    have "holds cfg (flow_state f) W" using F t(2,3) unfolding f by (auto elim: holds_frame)
    with F i inv f va show ?thesis
      by (auto simp: follows_def dview_def view_def carried_def intro!: exI [of _ W])
  next
    case False
    let ?d = "d\<lparr>d_sess := sess, d_buf := d_buf d + stream_size xs\<rparr>"
    let ?W = "W @ [(named sess ?tx, e)]"
    from False assms(1) ts obtain d1 where d1: "land_tx cfg ?tx e ?d = Inr d1" and f: "f = after_commit cfg e d1"
      by (auto simp: on_stream_commit_def Let_def result_simps)
    obtain cs gs where d1': "d1 = ?d\<lparr>d_collapsers := cs, d_changelogs := gs, d_end := e\<rparr>"
      using land_tx_frame [OF d1] by blast
    have "registry sess" using ti by (simp add: session_inv_def)
    then have "holds cfg d1 ?W" using land_tx_holds [OF d1 hs] False by simp
    moreover have "state_inv d1" using d1' ti i by (simp add: state_inv_def)
    ultimately have "follows cfg P (replay_message kc (Pgo_StreamCommit y e) x a) (Go d1) ?W"
      using F d1' t(1) va i by (intro follows_goI) (auto simp: dview_def)
    from after_commit_follows [OF this, of e] i d1' f show ?thesis by auto
  qed
qed

text \<open>Every message: what the window does, the reference does.\<close>

lemma on_message_follows:
  assumes "on_message cfg msg x d = Inr f" "follows cfg P a (Go d) W" "orderly msg a"
  shows "\<exists>W'. follows cfg P (replay_message (k_cols cfg) msg x a) f W'"
proof (cases msg)
  case (Pgo_Begin p q r)
  have "follows cfg P (a\<lparr>a_tx := []\<rparr>) (Go (on_begin d)) W"
    using followsD [OF assms(2)] on_begin_inv [of d]
    by (intro follows_goI) (auto simp: dview_def view_def on_begin_def elim: holds_frame)
  with Pgo_Begin assms(1) show ?thesis by auto
next
  case Pgo_StreamStop
  have "follows cfg P (a\<lparr>a_in := None\<rparr>) (Go (d\<lparr>d_in := None\<rparr>)) W"
    using followsD [OF assms(2)]
    by (intro follows_goI) (auto simp: dview_def view_def elim: holds_frame)
  with Pgo_StreamStop assms(1) show ?thesis by auto
next
  case (Pgo_Commit p e r)
  with assms show ?thesis using on_commit_follows [of cfg e d f P a W] by simp
next
  case (Pgo_StreamCommit y e)
  with assms show ?thesis using on_stream_commit_follows [of cfg y e d f P a W "k_cols cfg" x] by simp
next
  case (Pgo_StreamStart y)
  with assms(1) on_stream_start_follows [OF assms(2), of "k_cols cfg" y x] show ?thesis by auto
next
  case (Pgo_StreamAbort y s)
  with assms(1) on_stream_abort_follows [OF assms(2), of "k_cols cfg" y s x] show ?thesis by auto
next
  case (Pgo_Truncate rs p q)
  with assms(1) on_truncate_follows [OF _ assms(2), of rs x] show ?thesis by (auto simp: go_def result_simps)
next
  case (Pgo_Relation r)
  with assms(1) on_relation_follows [OF _ assms(2), of r] show ?thesis by (auto simp: go_def result_simps)
qed (use assms in \<open>auto simp: go_def on_insert_def on_update_def on_delete_def Let_def result_simps
      dest: on_row_follows\<close>)


section \<open>Windows over a stream\<close>

definition replay_event :: "drain_cfg \<Rightarrow> wal_event \<Rightarrow> wal_state \<Rightarrow> wal_state" where
  "replay_event cfg ev a =
     (case ev of
        Keepalive _ _ \<Rightarrow> a
      | XLogData _ p \<Rightarrow>
          (case decode (k_render cfg) p (a_in a \<noteq> None) (a_oids a) (k_keep_binary cfg) of
             Inl _ \<Rightarrow> a
           | Inr (msg, x) \<Rightarrow> replay_message (k_cols cfg) msg x a))"

definition orderly_event :: "drain_cfg \<Rightarrow> wal_state \<Rightarrow> wal_event \<Rightarrow> bool" where
  "orderly_event cfg a ev \<longleftrightarrow>
     (case ev of
        Keepalive _ _ \<Rightarrow> True
      | XLogData _ p \<Rightarrow>
          (case decode (k_render cfg) p (a_in a \<noteq> None) (a_oids a) (k_keep_binary cfg) of
             Inl _ \<Rightarrow> True
           | Inr (msg, _) \<Rightarrow> orderly msg a))"

abbreviation orderly_stream :: "drain_cfg \<Rightarrow> wal_state \<Rightarrow> wal_event list \<Rightarrow> bool" where
  "orderly_stream cfg a evs \<equiv> all_along (orderly_event cfg) (replay_event cfg) a evs"

lemma keepalive_flow:
  assumes "on_keepalive cfg turn w r d = Inr f"
  obtains "f = Go d" | b where "f = Go (d\<lparr>d_stop := b\<rparr>)"
    | b where "f = Break (d\<lparr>d_end := b\<rparr>)" "d_tx d = []" "d_in d = None"
proof (cases "d_stop d \<le> w \<and> d_tx d = [] \<and> d_in d = None")
  case False
  with assms have "f = Go d" unfolding on_keepalive_def by (simp only: if_False and_then_eq_Inr) blast
  then show thesis by (rule that(1))
next
  case True
  let ?e = "min w (d_stop d)"
  have c: "caught_up w d = Break (d\<lparr>d_end := if d_end d < ?e then ?e else d_end d\<rparr>)"
    by (simp add: caught_up_def Let_def)
  show thesis
  proof (cases "f = caught_up w d")
    case True
    with c \<open>d_stop d \<le> w \<and> _\<close> show thesis by (intro that(3)) simp_all
  next
    case False
    with True assms obtain least in_time wal_now where fw: "k_follow cfg = Some (least, in_time, wal_now)"
      by (cases "k_follow cfg") (auto simp: on_keepalive_def and_then_eq_Inr)
    with True False assms have "and_then (wal_now turn) (\<lambda>t. and_then (lsn_from_string t) (\<lambda>now.
        Inr (Go (if d_stop d < now then d\<lparr>d_stop := now\<rparr> else d)))) = Inr f"
      by (cases "buffered d < least \<and> in_time turn") (simp_all add: on_keepalive_def and_then_eq_Inr)
    then obtain now where "f = Go (if d_stop d < now then d\<lparr>d_stop := now\<rparr> else d)"
      unfolding and_then_eq_Inr by blast
    then show thesis by (cases "d_stop d < now") (simp_all add: that(1,2))
  qed
qed

lemma on_event_follows:
  assumes "on_event cfg turn ev d = Inr f" "follows cfg P a (Go d) W" "orderly_event cfg a ev"
  shows "\<exists>W'. follows cfg P (replay_event cfg ev a) f W'"
proof (cases ev)
  case (XLogData w p)
  have eq: "(a_in a \<noteq> None) = (d_in d \<noteq> None)" "a_oids a = s_rel_oids (d_sess d)"
    using followsD [OF assms(2)] by (auto simp: dview_def view_def)
  from XLogData assms(1) obtain msg x where dec: "decode (k_render cfg) p (d_in d \<noteq> None) (s_rel_oids (d_sess d)) (k_keep_binary cfg) = Inr (msg, x)"
    "on_message cfg msg x d = Inr f"
    by (auto simp: result_simps)
  with XLogData assms(3) eq have "orderly msg a" by (simp add: orderly_event_def)
  from on_message_follows [OF dec(2) assms(2) this] dec(1) eq XLogData show ?thesis
    by (simp add: replay_event_def)
next
  case (Keepalive w r)
  note F = followsD [OF assms(2)]
  have "holds cfg (d\<lparr>d_stop := b\<rparr>) W" "holds cfg (d\<lparr>d_end := b\<rparr>) W" for b using F by (auto elim: holds_frame)
  moreover have "on_keepalive cfg turn w r d = Inr f" using Keepalive assms(1) by simp
  ultimately have "follows cfg P a f W"
    using F by (elim keepalive_flow) (simp_all add: follows_def dview_def carried_None)
  with Keepalive show ?thesis by (auto simp: replay_event_def)
qed

text \<open>What a window reads is a prefix of the stream; over it the reference logs what the window lands.\<close>

lemma drain_loop_follows:
  assumes "drain_loop cfg turn evs d = Inr (d', rest)" "follows cfg P a (Go d) W"
    and "\<And>used. prefix (map Inr used) evs \<Longrightarrow> orderly_stream cfg a used"
  shows "\<exists>used W'. evs = map Inr used @ rest \<and>
    (follows cfg P (fold (replay_event cfg) used a) (Break d') W' \<or> (rest = [] \<and> follows cfg P (fold (replay_event cfg) used a) (Go d') W'))"
  using assms
proof (induction evs arbitrary: turn d a W)
  case Nil
  then show ?case by auto
next
  case (Cons ev evs)
  from Cons.prems(1) show ?case
  proof (cases rule: drain_loop_turn)
    case stopped
    with Cons.prems(2) show ?thesis
      by (intro exI [of _ "[]"] exI [of _ W]) (auto simp: follows_def carried_None)
  next
    case (broke e)
    have "orderly_event cfg a e" using Cons.prems(3) [of "[e]"] broke(1) by simp
    from on_event_follows [OF broke(2) Cons.prems(2) this] broke show ?thesis
      by (auto intro!: exI [of _ "[e]"])
  next
    case (went e d1)
    have oe: "orderly_event cfg a e" using Cons.prems(3) [of "[e]"] went(1) by simp
    from on_event_follows [OF went(2) Cons.prems(2) oe] obtain W1 where W1: "follows cfg P (replay_event cfg e a) (Go d1) W1"
      by blast
    have os: "orderly_stream cfg (replay_event cfg e a) used" if "prefix (map Inr used) evs" for used
      using Cons.prems(3) [of "e # used"] that went(1) by simp
    from Cons.IH [OF went(3) W1 os] obtain used W' where "evs = map Inr used @ rest"
      "follows cfg P (fold (replay_event cfg) used (replay_event cfg e a)) (Break d') W' \<or>
       rest = [] \<and> follows cfg P (fold (replay_event cfg) used (replay_event cfg e a)) (Go d') W'" by blast
    with went(1) show ?thesis by (intro exI [of _ "e # used"] exI [of _ W']) simp
  qed
qed


subsection \<open>From one window to the next\<close>

definition stays :: "named_tx list \<Rightarrow> wal_state \<Rightarrow> session \<Rightarrow> wal_event result list \<Rightarrow> bool" where
  "stays P a sess evs \<longleftrightarrow> session_inv sess \<and> a_log a = P @ carried sess \<and>
     (evs \<noteq> [] \<longrightarrow> a = view sess None [] (P @ carried sess))"

lemma bodies_hold_empty: "bodies_hold new land lay sess r [] []"
  by (simp add: bodies_hold_def body_at_def body_holds_def table_ops_def)

lemma open_carry_follows:
  assumes "open_carry cfg (drain_new sess start stop) = Inr f" "session_inv sess"
  shows "\<exists>W. follows cfg P (view sess None [] (P @ carried sess)) f W"
proof -
  have inv: "state_inv (flow_state f)" by (rule open_carry_inv [OF assms])
  have h0: "holds cfg (drain_new s start stop) []" for s
    by (simp add: holds_def drain_new_def bodies_hold_empty)
  show ?thesis
  proof (cases "s_carry sess")
    case None
    with assms(1) have f: "f = Go (drain_new sess start stop)"
      by (simp add: open_carry_def drain_new_def)
    have "follows cfg P (view sess None [] P) (Go (drain_new sess start stop)) []"
      by (rule follows_goI) (use h0 inv f None in \<open>simp_all add: dview_def, simp_all add: drain_new_def\<close>)
    with None f show ?thesis by (auto simp: carried_None)
  next
    case (Some c)
    obtain xs e where c: "c = (xs, e)" by (cases c)
    let ?s = "sess\<lparr>s_carry := None\<rparr>"
    let ?d = "(drain_new sess start stop)\<lparr>d_sess := ?s, d_buf := sum_list (map (\<lambda>(_, op). op_bytes op) xs)\<rparr>"
    from assms(1) Some c obtain d1 where d1: "land_tx cfg xs e ?d = Inr d1" "f = (if d_stop d1 \<le> e then Break d1 else Go d1)"
      by (auto simp: open_carry_def drain_new_def Let_def result_simps)
    obtain cs gs where d1': "d1 = ?d\<lparr>d_collapsers := cs, d_changelogs := gs, d_end := e\<rparr>"
      using land_tx_frame [OF d1(1)] by blast
    have "holds cfg ?d []" using h0 [of ?s] by (rule holds_frame) (simp_all add: drain_new_def)
    from land_tx_holds [OF d1(1) this] assms(2) have "holds cfg d1 [(named sess xs, e)]"
      by (simp add: session_inv_def drain_new_def)
    with d1 d1' inv Some c show ?thesis
      by (intro exI [of _ "[(named sess xs, e)]"])
        (auto simp: follows_def dview_def view_def drain_new_def carried_def)
  qed
qed

lemma drain_run_follows:
  assumes "drain_run cfg sess start stop evs = Inr (d, rest)" "stays P a sess evs"
    and "\<And>used. prefix (map Inr used) evs \<Longrightarrow> orderly_stream cfg a used"
  shows "\<exists>used W. evs = map Inr used @ rest \<and> holds cfg d W \<and> state_inv d \<and>
    stays (P @ W) (fold (replay_event cfg) used a) (d_sess d) rest"
proof -
  have inv: "session_inv sess" using assms(2) by (simp add: stays_def)
  have fin: "stays (P @ W) b (d_sess d) rest \<and> holds cfg d W \<and> state_inv d"
    if "follows cfg P b (Break d) W \<or> rest = [] \<and> follows cfg P b (Go d) W" for b W
    using that by (auto simp: follows_def stays_def dview_def view_def state_inv_def named_def)
  from assms(1) show ?thesis
  proof (cases rule: drain_run_cases)
    case full
    obtain W where W: "follows cfg P (view sess None [] (P @ carried sess)) (Break d) W"
      using open_carry_follows [OF full(1) inv] by blast
    show ?thesis
    proof (cases "evs = []")
      case True
      have "a_log a = P @ carried sess" using assms(2) by (simp add: stays_def)
      with W True full show ?thesis
        by (intro exI [of _ "[]"] exI [of _ W]) (auto simp: follows_def stays_def dview_def view_def state_inv_def)
    next
      case False
      with assms(2) W fin [of a W] full(2) show ?thesis
        by (intro exI [of _ "[]"] exI [of _ W]) (auto simp: stays_def)
    qed
  next
    case (looped d0)
    obtain W where W: "follows cfg P (view sess None [] (P @ carried sess)) (Go d0) W"
      using open_carry_follows [OF looped(1) inv] by blast
    show ?thesis
    proof (cases "evs = []")
      case True
      have "a_log a = P @ carried sess" using assms(2) by (simp add: stays_def)
      with W True looped show ?thesis
        by (intro exI [of _ "[]"] exI [of _ W]) (auto simp: follows_def stays_def dview_def view_def state_inv_def)
    next
      case False
      with assms(2) have a: "a = view sess None [] (P @ carried sess)" by (simp add: stays_def)
      with W have "follows cfg P a (Go d0) W" by simp
      from drain_loop_follows [OF looped(2) this assms(3)] obtain used W' where u: "evs = map Inr used @ rest"
        "follows cfg P (fold (replay_event cfg) used a) (Break d) W' \<or> rest = [] \<and> follows cfg P (fold (replay_event cfg) used a) (Go d) W'"
        by blast
      from fin [OF u(2)] u(1) show ?thesis by blast
    qed
  qed
qed

subsection \<open>What a sealed window says of each table\<close>

lemma body_at_simps [simp]: "body_at [] i = None" "body_at (b # bs) 0 = b" "body_at (b # bs) (Suc i) = body_at bs i"
  by (simp_all add: body_at_def)

lemma named_bodies_simps [simp]:
  "named_bodies [] bs = []" "named_bodies slots [] = []"
  "named_bodies (st # slots) (b # bs) =
     (case b of None \<Rightarrow> named_bodies slots bs | Some c \<Rightarrow> (st_table st, c) # named_bodies slots bs)"
  by (simp_all add: named_bodies_def List.map_filter_def split: option.splits)

lemma named_bodies_at:
  assumes "distinct (map st_table slots)" "i < length slots"
  shows "map_of (named_bodies slots bs) (st_table (slots ! i)) = body_at bs i"
proof -
  have keys: "fst ` set (named_bodies slots bs) \<subseteq> st_table ` set slots" for slots bs
    by (induction slots arbitrary: bs; case_tac bs) (auto split: option.splits)
  show ?thesis
    using assms
  proof (induction slots arbitrary: bs i)
    case (Cons st slots)
    show ?case
    proof (cases bs)
      case (Cons b bs')
      have no: "map_of (named_bodies slots bs') (st_table st) = None"
        using Cons.prems(1) keys [of slots bs'] by (auto simp: map_of_eq_None_iff)
      have ne: "st_table (slots ! j) \<noteq> st_table st" if "j < length slots" for j
        using Cons.prems(1) that by (metis distinct.simps(2) list.simps(9) nth_map nth_mem length_map)
      show ?thesis
        using Cons no ne Cons.prems Cons.IH [of "i - 1" bs']
        by (cases i) (auto split: option.splits)
    qed simp
  qed simp
qed

lemma named_bodies_other: "t \<notin> st_table ` set slots \<Longrightarrow> map_of (named_bodies slots bs) t = None"
proof (induction slots arbitrary: bs)
  case (Cons st slots)
  then show ?case by (cases bs) (auto split: option.splits)
qed simp

lemma registry_distinct: "registry sess \<Longrightarrow> distinct (map st_table (s_slots sess))"
proof -
  assume reg: "registry sess"
  have "i = j" if "i < length (s_slots sess)" "j < length (s_slots sess)"
    "st_table (s_slots sess ! i) = st_table (s_slots sess ! j)" for i j
  proof -
    have u: "unat (of_nat i :: u16) = i" "unat (of_nat j :: u16) = j"
      using that registryD(1) [OF reg] by (auto intro: unat_of_nat_u16)
    then have "slot_ok sess (of_nat i)" "slot_ok sess (of_nat j)" "slot_table sess (of_nat i) = slot_table sess (of_nat j)"
      using that unfolding slot_ok_def slot_table_def by (simp_all only:)
    with table_slot_unique [OF reg] have "(of_nat i :: u16) = of_nat j" by blast
    from arg_cong [OF this, of unat] u show ?thesis by simp
  qed
  then show ?thesis by (auto simp: distinct_conv_nth)
qed

text \<open>Sealing table by table keeps each table's entry.\<close>

lemma seal_each:
  "collect_results (\<lambda>(t, c). and_then (seal t c) (\<lambda>w. Inr (t, w))) xs = Inr m \<Longrightarrow>
   (case map_of xs t of None \<Rightarrow> map_of m t = None | Some c \<Rightarrow> \<exists>w. seal t c = Inr w \<and> map_of m t = Some w)"
proof (induction xs arbitrary: m)
  case (Cons x xs)
  obtain u c where x: "x = (u, c)" by (cases x)
  with Cons.prems obtain w m' where "seal u c = Inr w" "m = (u, w) # m'"
    "collect_results (\<lambda>(t, c). and_then (seal t c) (\<lambda>w. Inr (t, w))) xs = Inr m'"
    by (auto simp: result_simps)
  with Cons.IH [of m'] x show ?case by (auto split: option.splits)
qed simp

fun slice_holds :: "slice \<Rightarrow> (stream_op \<times> u64) list \<Rightarrow> bool" where
  "slice_holds (Replica_Slice None) ms \<longleftrightarrow> ms = []"
| "slice_holds (Replica_Slice (Some w)) ms \<longleftrightarrow> ms \<noteq> [] \<and>
     (\<exists>c. built collapser_new collapse_at (w_layout w) ms = Inr c \<and> w_body w = collapser_finish c)"
| "slice_holds (Changelog_Slice None) ms \<longleftrightarrow> ms = []"
| "slice_holds (Changelog_Slice (Some w)) ms \<longleftrightarrow> ms \<noteq> [] \<and>
     built changes_new (\<lambda>_. changes_op) (w_layout w) ms = Inr (w_body w)"

lemma bodies_hold_named:
  assumes "registry sess" "bodies_hold new land lay sess r bs ms"
  shows "body_holds new land lay (map_of (named_bodies (s_slots sess) bs) t) (table_ops t ms)"
proof (cases "\<exists>s. slot_ok sess s \<and> slot_table sess s = t")
  case True
  then obtain s where s: "slot_ok sess s" "slot_table sess s = t" by blast
  have "map_of (named_bodies (s_slots sess) bs) t = body_at bs (unat s)"
    using named_bodies_at [OF registry_distinct [OF assms(1)], of "unat s" bs] s by (simp add: slot_ok_def slot_table_def)
  with assms(2) s show ?thesis by (auto simp: bodies_hold_def)
next
  case False
  have "t \<notin> st_table ` set (s_slots sess)"
  proof
    assume "t \<in> st_table ` set (s_slots sess)"
    then obtain i where i: "i < length (s_slots sess)" "st_table (s_slots sess ! i) = t"
      by (auto simp: in_set_conv_nth)
    then have "unat (of_nat i :: u16) = i" using registryD(1) [OF assms(1)] by (intro unat_of_nat_u16) simp
    with i have "slot_ok sess (of_nat i)" "slot_table sess (of_nat i) = t" by (simp_all add: slot_ok_def slot_table_def)
    with False show False by blast
  qed
  moreover have "table_ops t ms = []"
    using assms(2) False by (auto simp: bodies_hold_def table_ops_def filter_empty_conv)
  ultimately show ?thesis by (simp add: named_bodies_other body_holds_def)
qed

lemma seal_window_holds:
  assumes "seal_window cfg start d = Inr o'" "holds cfg d W" "registry (d_sess d)"
  shows "slice_holds (outcome_slice o' t) (table_ops t (flat W))"
proof -
  let ?ms = "table_ops t (flat W)"
  show ?thesis
  proof (cases "k_changelog cfg")
    case True
    let ?bs = "named_bodies (s_slots (d_sess d)) (d_changelogs d)"
    from assms(1) True obtain m where m: "collect_results (\<lambda>(t, c). and_then (changes_seal t c) (\<lambda>w. Inr (t, w))) ?bs = Inr m"
      "o_bodies o' = Changelog_Bodies m"
      by (auto simp: seal_window_def bodies_seal_def result_simps)
    have "body_holds changes_new (\<lambda>_. changes_op) ch_layout (map_of ?bs t) ?ms"
      using assms(2,3) True by (intro bodies_hold_named) (auto simp: holds_def)
    with seal_each [OF m(1), of t] m(2) show ?thesis
      by (auto simp: outcome_slice_def body_holds_def changes_seal_def changes_body.seal_Inr split: option.split_asm)
  next
    case False
    let ?bs = "named_bodies (s_slots (d_sess d)) (d_collapsers d)"
    from assms(1) False obtain m where m: "collect_results (\<lambda>(t, c). and_then (collapser_seal t c) (\<lambda>w. Inr (t, w))) ?bs = Inr m"
      "o_bodies o' = Replica_Bodies m"
      by (auto simp: seal_window_def bodies_seal_def result_simps)
    have "body_holds collapser_new collapse_at c_layout (map_of ?bs t) ?ms"
      using assms(2,3) False by (intro bodies_hold_named) (auto simp: holds_def)
    with seal_each [OF m(1), of t] m(2) show ?thesis
      by (auto simp: outcome_slice_def body_holds_def collapser_seal_def collapsed_body.seal_Inr split: option.split_asm)
  qed
qed


section \<open>Sequences of windows\<close>

text \<open>Windows drained one after the other from one session, each with its own clock and limits.\<close>

fun drain_windows ::
  "(drain_cfg \<times> u64 \<times> u64) list \<Rightarrow> session \<Rightarrow> wal_event result list \<Rightarrow>
   (drain_outcome list \<times> session \<times> wal_event result list) result" where
  "drain_windows [] sess evs = Inr ([], sess, evs)"
| "drain_windows ((cfg, start, stop) # ws) sess evs =
     and_then (drain cfg sess start stop evs) (\<lambda>(o', sess, evs).
     and_then (drain_windows ws sess evs) (\<lambda>(os, sess, evs). Inr (o' # os, sess, evs)))"

definition same_stream :: "drain_cfg \<Rightarrow> drain_cfg \<Rightarrow> bool" where
  "same_stream cfg c \<longleftrightarrow> k_cols c = k_cols cfg \<and> k_render c = k_render cfg \<and> k_keep_binary c = k_keep_binary cfg"

lemma same_stream_replay:
  "same_stream cfg c \<Longrightarrow> replay_event c = replay_event cfg" "same_stream cfg c \<Longrightarrow> orderly_event c = orderly_event cfg"
  by (intro ext, simp add: same_stream_def replay_event_def orderly_event_def split: wal_event.split sum.split)+

lemma all_along_append:
  "all_along pre astep a (xs @ ys) \<longleftrightarrow> all_along pre astep a xs \<and> all_along pre astep (fold astep xs a) ys"
  by (induction xs arbitrary: a) auto

lemma map_Inr_append: "map Inr xs = map Inr ys @ (zs :: wal_event result list) \<Longrightarrow> \<exists>us. xs = ys @ us \<and> zs = map Inr us"
proof (induction ys arbitrary: xs)
  case (Cons y ys)
  then obtain x xs' where "xs = x # xs'" by (cases xs) auto
  with Cons show ?case by auto
qed auto

lemma map_Inr_prefix: "prefix (map Inr used) (map Inr evs :: wal_event result list) \<Longrightarrow> \<exists>us. evs = used @ us"
  by (auto elim!: prefixE dest: map_Inr_append)

lemma drain_window_follows:
  assumes "drain c sess start stop (map Inr evs) = Inr (o', sess', rest)" "same_stream cfg c"
    and "stays P a sess (map Inr evs)" "orderly_stream cfg a evs"
  obtains used evs' W where "evs = used @ evs'" "rest = map Inr evs'"
    "\<And>t. slice_holds (outcome_slice o' t) (table_ops t (flat W))"
    "stays (P @ W) (fold (replay_event cfg) used a) sess' rest" "orderly_stream cfg (fold (replay_event cfg) used a) evs'"
proof -
  from assms(1) obtain d where d: "drain_run c sess start stop (map Inr evs) = Inr (d, rest)"
    "seal_window c start d = Inr o'" "sess' = d_sess d"
    by (auto simp: drain_def result_simps)
  have "orderly_stream c a used" if "prefix (map Inr used) (map Inr evs :: wal_event result list)" for used
    using map_Inr_prefix [OF that] assms(4) same_stream_replay [OF assms(2)] by (auto simp: all_along_append)
  from drain_run_follows [OF d(1) assms(3) this] obtain used W where u: "map Inr evs = map Inr used @ rest"
    "holds c d W" "state_inv d" "stays (P @ W) (fold (replay_event c) used a) (d_sess d) rest" by blast
  from map_Inr_append [OF u(1)] obtain evs' where e: "evs = used @ evs'" "rest = map Inr evs'" by blast
  have "registry (d_sess d)" using u(3) by (simp add: state_inv_def session_inv_def)
  from seal_window_holds [OF d(2) u(2) this] e u(4) assms(4) same_stream_replay [OF assms(2)] d(3) show thesis
    by (intro that [of used evs' W]) (auto simp: all_along_append)
qed

lemma drain_windows_follow:
  assumes "drain_windows ws sess (map Inr evs) = Inr (os, sess', rest)" "\<forall>w \<in> set ws. same_stream cfg (fst w)"
    and "stays P a sess (map Inr evs)" "orderly_stream cfg a evs"
  shows "\<exists>used Ws. map Inr evs = map Inr used @ rest
      \<and> list_all2 (\<lambda>o' W. \<forall>t. slice_holds (outcome_slice o' t) (table_ops t (flat W))) os Ws
      \<and> a_log (fold (replay_event cfg) used a) = P @ concat Ws @ carried sess'"
  using assms
proof (induction ws arbitrary: sess evs os P a)
  case Nil
  then show ?case by (intro exI [of _ "[]"]) (auto simp: stays_def)
next
  case (Cons w ws)
  obtain c start stop where w: "w = (c, start, stop)" by (cases w)
  from Cons.prems(1) w obtain o1 s1 r1 os1 where o1: "drain c sess start stop (map Inr evs) = Inr (o1, s1, r1)"
    "drain_windows ws s1 r1 = Inr (os1, sess', rest)" "os = o1 # os1"
    by (auto simp: result_simps)
  have ss: "same_stream cfg c" using Cons.prems(2) w by simp
  obtain used evs' W where u: "evs = used @ evs'" "r1 = map Inr evs'"
    "\<And>t. slice_holds (outcome_slice o1 t) (table_ops t (flat W))"
    "stays (P @ W) (fold (replay_event cfg) used a) s1 r1" "orderly_stream cfg (fold (replay_event cfg) used a) evs'"
    by (rule drain_window_follows [OF o1(1) ss Cons.prems(3,4)]) (rule that; assumption)
  from Cons.IH [of s1 evs' os1 "P @ W" "fold (replay_event cfg) used a"] o1(2) u Cons.prems(2) obtain used' Ws where
    "map Inr evs' = map Inr used' @ rest"
    "list_all2 (\<lambda>o' W. \<forall>t. slice_holds (outcome_slice o' t) (table_ops t (flat W))) os1 Ws"
    "a_log (fold (replay_event cfg) used' (fold (replay_event cfg) used a)) = (P @ W) @ concat Ws @ carried sess'"
    by auto
  with u o1(3) show ?case by (intro exI [of _ "used @ used'"] exI [of _ "W # Ws"]) simp
qed

lemma stays_start: "stays [] wal_init (expecting ex) evs"
  by (simp add: stays_def session_inv_def registry_def expecting_def slot_ok_def carried_def wal_init_def view_def
      table_tracked_def fun_eq_iff)

text \<open>The small stream in two windows: the first ends at its budget, the second caught up.\<close>

definition sample_stream :: "wal_event list" where
  "sample_stream = [XLogData 0 sample_relation, XLogData 0 sample_begin, XLogData 0 sample_change,
     XLogData 0 sample_commit, Keepalive 80 False]"

definition sample_body :: collapser where
  "sample_body = \<lparr>c_layout = key_layout, c_map = [(I64 42, SUpsert 0 False)], c_upserts = [Some sample_new],
     c_residue = \<lparr>ops = [], tat = [], tpos = 60\<rparr>, c_truncate = False, c_events = 1\<rparr>"

definition first_window :: drain_outcome where
  "first_window = \<lparr>o_bodies = Replica_Bodies [(ascii ''s.t'', \<lparr>w_layout = key_layout, w_body = collapser_finish sample_body\<rparr>)],
     o_id = window_id_new 10 60, o_hit_budget = True, o_binary = False\<rparr>"

definition second_window :: drain_outcome where
  "second_window = \<lparr>o_bodies = Replica_Bodies [], o_id = window_id_new 60 80, o_hit_budget = False, o_binary = False\<rparr>"

lemma sample_lands: "collapse_at 60 (collapser_new key_layout) (Op_Insert sample_new) = Inr sample_body"
  by (simp add: collapse_at_def collapser_at_def collapser_new_def collapser_insert_def count_event_def
      key_of_row_def fast_key_def tuple_get_def tuple_view_def cellr_view_def sample_new_def sample_change_def key_layout_def
      parse_i64_key_def utf8_valid_ascii parse_i64_def digit_val_def show_int_def show_radix.simps digit_char_def
      byte_of_def push_upsert_def set_slot_def sample_body_def)

lemma sample_seals: "collapser_seal t sample_body = Inr \<lparr>w_layout = key_layout, w_body = collapser_finish sample_body\<rparr>"
  by (simp add: collapser_seal_def table_seal_def sample_body_def collapser_finish_def collapsed_rows_fit_def
      key_layout_def tuple_len_def sample_new_def List.map_filter_def)

lemma sample_windows:
  "drain_windows [(sample_cfg, 10, 80), (sample_cfg, 60, 80)] (expecting Map.empty) (map Inr sample_stream)
     = Inr ([first_window, second_window], sample_session, [])"
proof -
  have "drain sample_cfg (expecting Map.empty) 10 80 (map Inr sample_stream)
      = Inr (first_window, sample_session, [Inr (Keepalive 80 False)])"
    by (simp add: drain_eval sample_stream_def sample_lands sample_seals first_window_def del: ascii_Cons)
  moreover have "drain sample_cfg sample_session 60 80 [Inr (Keepalive 80 False)] = Inr (second_window, sample_session, [])"
    by (simp add: drain_eval second_window_def)
  ultimately show ?thesis by simp
qed

lemma replay_in [simp]: "a_in (replay_row rid op x a) = a_in a" "a_in (replay_relation kc r a) = a_in a"
  by (auto simp: replay_row_def replay_relation_def Let_def split: option.splits)

lemma sample_orderly: "orderly_stream sample_cfg wal_init sample_stream"
  by (simp add: sample_stream_def orderly_event_def replay_event_def sample_decodes wal_init_def)

lemma sample_committed:
  "a_log (fold (replay_event sample_cfg) sample_stream wal_init) = [([(ascii ''s.t'', Op_Insert sample_new)], 60)]"
  by (simp add: sample_stream_def replay_event_def sample_decodes replay_relation_def replay_row_def wal_init_def
      sample_rel_def qualified_name_def sample_cfg_def Let_def)

text \<open>
  C3: windows neither lose nor double a committed change. Whatever the budgets, stop
  lines, clocks and layout changes that end them, the windows drained from one session
  hold, table by table and in commit order, exactly the transactions the stream commits
  while they read it, less the one that a layout change holds back for the next window:
  no aborted savepoint, no open transaction and no untracked table is in them.
\<close>

theorem windows_hold_committed:
  assumes "drain_windows ws (expecting ex) (map Inr evs) = Inr (os, sess, rest)"
    and "\<forall>w \<in> set ws. same_stream cfg (fst w)" "orderly_stream cfg wal_init evs"
  shows "\<exists>used Ws. map Inr evs = map Inr used @ rest
      \<and> list_all2 (\<lambda>o' W. \<forall>t. slice_holds (outcome_slice o' t) (table_ops t (flat W))) os Ws
      \<and> a_log (fold (replay_event cfg) used wal_init) = concat Ws @ carried sess"
  using drain_windows_follow [OF assms(1,2) stays_start assms(3)] by simp

theorem windows_hold_committed_witness:
  "\<exists>used Ws. map Inr sample_stream = map Inr used @ ([] :: wal_event result list)
      \<and> list_all2 (\<lambda>o' W. \<forall>t. slice_holds (outcome_slice o' t) (table_ops t (flat W))) [first_window, second_window] Ws
      \<and> a_log (fold (replay_event sample_cfg) used wal_init) = concat Ws @ carried sample_session"
  by (rule windows_hold_committed [OF sample_windows _ sample_orderly]) (simp add: same_stream_def)

section \<open>The replica follows the log\<close>

interpretation landing: refining_machine "\<lambda>c m. collapse_at (snd m) c (fst m)" "collapser_inv idx" "\<lambda>m. op_ok idx (fst m)"
  "meaning idx d" "\<lambda>m. apply_event idx (fst m)" "\<lambda>d m. names_row idx d (fst m)" for idx d
proof
  fix c and m :: "stream_op \<times> u64" and c'
  assume "collapser_inv idx c" "op_ok idx (fst m)"
  moreover have at: "collapser_inv idx (collapser_at p c) = collapser_inv idx c"
    "meaning idx d (collapser_at p c) = meaning idx d c" for p
    by (simp_all add: collapser_at_def collapser_inv_def slots_ok_def live_at_def collapser_finish_def)
  ultimately have "collapser_inv idx (collapser_at (snd m) c)" "op_ok idx (fst m)" by simp_all
  note st = collapse_op_step [OF this, where d = d]
  show "\<exists>s'. collapse_at (snd m) c (fst m) = Inr s'" unfolding collapse_at_def by (rule st) blast
  show "collapse_at (snd m) c (fst m) = Inr c' \<Longrightarrow> collapser_inv idx c'" unfolding collapse_at_def by (rule st) simp
  show "names_row idx (meaning idx d c) (fst m) \<Longrightarrow> collapse_at (snd m) c (fst m) = Inr c' \<Longrightarrow>
      meaning idx d c' = apply_event idx (fst m) (meaning idx d c)" unfolding collapse_at_def by (rule st) (simp add: at)
qed

fun apply_slice :: "nat list \<Rightarrow> slice \<Rightarrow> table \<Rightarrow> table" where
  "apply_slice idx (Replica_Slice (Some w)) d = apply_collapsed idx (w_body w) d"
| "apply_slice idx _ d = d"

fun slice_keyed :: "nat list \<Rightarrow> slice \<Rightarrow> bool" where
  "slice_keyed idx (Replica_Slice (Some w)) \<longleftrightarrow> l_key_idx (w_layout w) = idx"
| "slice_keyed idx (Replica_Slice None) \<longleftrightarrow> True"
| "slice_keyed idx (Changelog_Slice _) \<longleftrightarrow> False"

lemma slice_replays:
  assumes "slice_holds s ms" "slice_keyed idx s" "\<forall>m \<in> set ms. op_ok idx (fst m)"
    and "all_along (names_row idx) (apply_event idx) d (map fst ms)"
  shows "apply_slice idx s d = fold (apply_event idx) (map fst ms) d"
proof (cases s)
  case (Replica_Slice w)
  show ?thesis
  proof (cases w)
    case None
    with Replica_Slice assms(1) show ?thesis by simp
  next
    case (Some w')
    with Replica_Slice assms(1,2) obtain c where c: "built collapser_new collapse_at (w_layout w') ms = Inr c"
      "w_body w' = collapser_finish c" "l_key_idx (w_layout w') = idx" by auto
    have run: "fold_results (\<lambda>c m. collapse_at (snd m) c (fst m)) (collapser_new (w_layout w')) ms = Inr c"
      using c(1) by (simp add: built_def case_prod_unfold)
    have al: "all_along (\<lambda>d m. names_row idx d (fst m)) (\<lambda>m. apply_event idx (fst m)) d ms"
      using assms(4) by (induction ms arbitrary: d) auto
    have fm: "fold (\<lambda>m. apply_event idx (fst m)) ms d = fold (apply_event idx) (map fst ms) d"
      by (simp add: fold_map comp_def)
    have inv: "collapser_inv idx (collapser_new (w_layout w'))" using collapser_inv_new [of "w_layout w'"] c(3) by simp
    from landing.run_refines [OF inv assms(3) _ run, of d] al fm Replica_Slice Some c(2) show ?thesis
      by simp
  qed
next
  case (Changelog_Slice w)
  with assms(2) show ?thesis by simp
qed


lemma slices_replay:
  assumes "list_all2 (\<lambda>o' W. \<forall>t. slice_holds (outcome_slice o' t) (table_ops t (flat W))) os Ws"
    and "\<forall>o' \<in> set os. slice_keyed idx (outcome_slice o' t)"
    and "\<forall>m \<in> set (table_ops t (flat (concat Ws))). op_ok idx (fst m)"
    and "all_along (names_row idx) (apply_event idx) d (map fst (table_ops t (flat (concat Ws))))"
  shows "fold (\<lambda>o'. apply_slice idx (outcome_slice o' t)) os d = fold (apply_event idx) (map fst (table_ops t (flat (concat Ws)))) d"
  using assms
proof (induction os Ws arbitrary: d rule: list_all2_induct)
  case (Cons o' os W Ws)
  let ?ms = "table_ops t (flat W)"
  have "apply_slice idx (outcome_slice o' t) d = fold (apply_event idx) (map fst ?ms) d"
    using Cons.hyps(1) Cons.prems by (intro slice_replays) (auto simp: all_along_append)
  with Cons show ?case by (simp add: all_along_append)
qed simp

text \<open>
  C2: end to end. A stream drained to its end in any number of windows, whose windows a
  replica applies one after the other, leaves a table as replaying the committed changes
  of the table one by one leaves it, when the changes are readable, the key columns stay
  the same and every key change of a FULL image names the row the replica holds.
\<close>

theorem replica_follows_log:
  assumes "drain_windows ws (expecting ex) (map Inr evs) = Inr (os, sess, [])" "s_carry sess = None"
    and "\<forall>w \<in> set ws. same_stream cfg (fst w)" "orderly_stream cfg wal_init evs"
    and "\<forall>o' \<in> set os. slice_keyed idx (outcome_slice o' t)"
    and "ms = table_ops t (flat (a_log (fold (replay_event cfg) evs wal_init)))"
    and "\<forall>m \<in> set ms. op_ok idx (fst m)" "all_along (names_row idx) (apply_event idx) d (map fst ms)"
  shows "fold (\<lambda>o'. apply_slice idx (outcome_slice o' t)) os d = fold (apply_event idx) (map fst ms) d"
proof -
  from drain_windows_follow [OF assms(1,3) stays_start assms(4)] obtain used Ws where u: "map Inr evs = map Inr used @ ([] :: wal_event result list)"
    "list_all2 (\<lambda>o' W. \<forall>t. slice_holds (outcome_slice o' t) (table_ops t (flat W))) os Ws"
    "a_log (fold (replay_event cfg) used wal_init) = [] @ concat Ws @ carried sess" by blast
  have "evs = used" using map_Inr_append [OF u(1)] by auto
  with u(3) assms(2,6) have "ms = table_ops t (flat (concat Ws))" by (simp add: carried_None)
  with slices_replay [OF u(2) assms(5)] assms(7,8) show ?thesis by simp
qed


theorem replica_follows_log_witness:
  "fold (\<lambda>o'. apply_slice [0] (outcome_slice o' (ascii ''s.t''))) [first_window, second_window] Map.empty
     = fold (apply_event [0]) [Op_Insert sample_new] Map.empty"
proof -
  have wf: "op_ok [0] (Op_Insert sample_new)"
    by (simp add: sample_new_def sample_change_def tuple_wf_def cellr_wf_def keyed_def cells_of_def cell_of_def)
  have ms: "[(Op_Insert sample_new, 60)] = table_ops (ascii ''s.t'') (flat (a_log (fold (replay_event sample_cfg) sample_stream wal_init)))"
    by (simp add: sample_committed flat_def del: ascii_Cons)
  have "fold (\<lambda>o'. apply_slice [0] (outcome_slice o' (ascii ''s.t''))) [first_window, second_window] Map.empty
     = fold (apply_event [0]) (map fst [(Op_Insert sample_new, 60 :: u64)]) Map.empty"
    by (rule replica_follows_log [OF sample_windows _ _ sample_orderly _ ms])
      (use wf in \<open>simp_all add: same_stream_def first_window_def second_window_def outcome_slice_def key_layout_def\<close>)
  then show ?thesis by simp
qed

end
