(* ===== verification/Resolve.thy ===== *)
theory Resolve
  imports Window
begin

text \<open>
  Folding a collapsed window into one image per key (\<^verbatim>\<open>logbased/resolve.rs\<close>), for the
  destinations that apply a window as a set of images. The fold is proved to yield every
  touched key once, and applying its images to the table before the window is proved to
  give the table that the ordered application gives.
\<close>

section \<open>Images\<close>

datatype fin = Fin_Row row | Fin_Owned row | Fin_Masked row "key option" | Gone

datatype image = Image_Row row | Image_Masked row "key option" | Image_Delete

record resolved =
  finals :: "(key \<times> fin) list"
  delete_only :: "key list"

fun image_of :: "fin \<Rightarrow> image" where
  "image_of (Fin_Row row) = Image_Row row"
| "image_of (Fin_Owned row) = Image_Row row"
| "image_of (Fin_Masked row moved_from) = Image_Masked row moved_from"
| "image_of Gone = Image_Delete"

definition resolved_rows :: "resolved \<Rightarrow> (key \<times> image) list" where
  "resolved_rows r =
     map (\<lambda>(k, fin). (k, image_of fin)) (finals r) @ map (\<lambda>k. (k, Image_Delete)) (delete_only r)"

definition any_moved_mask :: "resolved \<Rightarrow> bool" where
  "any_moved_mask r = list_ex (\<lambda>(_, fin). case fin of Fin_Masked _ (Some _) \<Rightarrow> True | _ \<Rightarrow> False) (finals r)"

section \<open>The fold\<close>

definition row_key_refs :: "tuple \<Rightarrow> nat list \<Rightarrow> key result" where
  "row_key_refs row pk_idx = collect_results (\<lambda>i. and_then (tuple_view row i) (\<lambda>c. Inr (text_of c))) pk_idx"

definition row_key_refs_cells :: "cell list \<Rightarrow> nat list \<Rightarrow> key result" where
  "row_key_refs_cells row pk_idx = collect_results (\<lambda>i. and_then (index_list row i) (\<lambda>c. Inr (text_of c))) pk_idx"

record folding =
  fo_order :: "(key \<times> fin) list"
  fo_index :: "key \<rightharpoonup> nat"

definition put :: "key \<Rightarrow> fin \<Rightarrow> folding \<Rightarrow> folding result" where
  "put k fin s =
     (case fo_index s k of
        Some i \<Rightarrow>
          and_then (index_list (fo_order s) i) (\<lambda>e.
            Inr (s\<lparr>fo_order := (fo_order s)[i := (fst e, fin)]\<rparr>))
      | None \<Rightarrow>
          Inr (s\<lparr>fo_order := fo_order s @ [(k, fin)], fo_index := (fo_index s)(k \<mapsto> length (fo_order s))\<rparr>))"

definition base_of :: "folding \<Rightarrow> key \<Rightarrow> (row option \<times> key option) result" where
  "base_of s k =
     (case fo_index s k of
        None \<Rightarrow> Inr (None, None)
      | Some i \<Rightarrow>
          and_then (index_list (fo_order s) i) (\<lambda>e. Inr (case snd e of
             Fin_Row b \<Rightarrow> (Some b, None)
           | Fin_Owned b \<Rightarrow> (Some b, None)
           | Fin_Masked row moved_from \<Rightarrow> (Some row, moved_from)
           | Gone \<Rightarrow> (None, None))))"

definition patch :: "row \<Rightarrow> row option \<Rightarrow> key option \<Rightarrow> fin" where
  "patch row base moved_from =
     (let patched = (case base of Some b \<Rightarrow> fill row b | None \<Rightarrow> row) in
      if UnchangedToast \<in> set patched then Fin_Masked patched moved_from else Fin_Owned patched)"

definition fold_upsert :: "nat list \<Rightarrow> folding \<Rightarrow> tuple \<Rightarrow> folding result" where
  "fold_upsert pk_idx s row =
     and_then (row_key_refs row pk_idx) (\<lambda>k. and_then (to_cells row) (\<lambda>cs. put k (Fin_Owned cs) s))"

fun fold_residue :: "nat list \<Rightarrow> folding \<Rightarrow> residue_op \<Rightarrow> folding result" where
  "fold_residue pk_idx s (RUpsert row) =
     and_then (row_key_refs_cells row pk_idx) (\<lambda>k. put k (Fin_Row row) s)"
| "fold_residue pk_idx s (RDelete k) = put k Gone s"
| "fold_residue pk_idx s (MaskedUpdate k row) =
     and_then (base_of s k) (\<lambda>(base, origin). put k (patch row base origin) s)"
| "fold_residue pk_idx s (Rekey old_key new_key row) =
     and_then (base_of s old_key) (\<lambda>(base, origin).
       let from = (case origin of Some k \<Rightarrow> k | None \<Rightarrow> old_key) in
       and_then (put old_key Gone s) (\<lambda>s. put new_key (patch row base (Some from)) s))"

definition resolve_window :: "collapsed table_window \<Rightarrow> resolved result" where
  "resolve_window w =
     (let c = w_body w; pk_idx = l_key_idx (w_layout w) in
      and_then (fold_results (fold_upsert pk_idx) \<lparr>fo_order = [], fo_index = Map.empty\<rparr> (upserts c)) (\<lambda>s.
      and_then (fold_results (fold_residue pk_idx) s (residue c)) (\<lambda>s.
        Inr \<lparr>finals = fo_order s,
             delete_only = (if truncated c then [] else filter (\<lambda>k. fo_index s k = None) (deletes c))\<rparr>)))"

text \<open>
  Filling the remaining holes from the source's current row; \<open>fetch\<close> is the query by key,
  which answers no row, a row's column values, or fails.
\<close>

fun refill_cells :: "bytes option list \<Rightarrow> nat \<Rightarrow> row \<Rightarrow> row result" where
  "refill_cells vs i [] = Inr []"
| "refill_cells vs i (c # cs) =
     and_then (if c = UnchangedToast then and_then (index_list vs i) (\<lambda>v. Inr (value_cell v)) else Inr c) (\<lambda>c'.
     and_then (refill_cells vs (Suc i) cs) (\<lambda>cs'. Inr (c' # cs')))"

definition refetch_fin :: "(bytes \<Rightarrow> bytes option list option result) \<Rightarrow> key \<times> fin \<Rightarrow> (key \<times> fin) result" where
  "refetch_fin fetch e =
     (case snd e of
        Fin_Masked row _ \<Rightarrow>
          and_then (index_list (fst e) 0) (\<lambda>kt.
            if \<not> utf8_valid kt then Inl (Transfer Non_utf8_key)
            else and_then (fetch kt) (\<lambda>r. case r of
                None \<Rightarrow> Inr (fst e, Gone)
              | Some vs \<Rightarrow> and_then (refill_cells vs 0 row) (\<lambda>cs. Inr (fst e, Fin_Owned cs))))
      | _ \<Rightarrow> Inr e)"

definition refetch_masked :: "(bytes \<Rightarrow> bytes option list option result) \<Rightarrow> resolved \<Rightarrow> resolved result" where
  "refetch_masked fetch r =
     and_then (collect_results (refetch_fin fetch) (finals r)) (\<lambda>fs. Inr (r\<lparr>finals := fs\<rparr>))"

section \<open>The fold as a map of images\<close>

lemma row_key_refs_wf:
  assumes "tuple_wf row" "keyed idx (cells_of row)"
  shows "row_key_refs row idx = Inr (row_key idx (cells_of row))"
  unfolding row_key_refs_def row_key_def
proof (rule collect_results_map)
  fix i
  assume "i \<in> set idx"
  with assms show "and_then (tuple_view row i) (\<lambda>c. Inr (text_of c)) = Inr (text_of (cells_of row ! i))"
    by (auto simp: keyed_def list_all_iff tuple_simps)
qed

lemma row_key_refs_cells_wf: "keyed idx cs \<Longrightarrow> row_key_refs_cells cs idx = Inr (row_key idx cs)"
  unfolding row_key_refs_cells_def row_key_def
  by (rule collect_results_map) (auto simp: keyed_def list_all_iff)

text \<open>The index names each key's position, and each key has one.\<close>

definition indexed :: "folding \<Rightarrow> bool" where
  "indexed s \<longleftrightarrow>
     (\<forall>k i. fo_index s k = Some i \<longleftrightarrow> i < length (fo_order s) \<and> fst (fo_order s ! i) = k)"

definition fin_of :: "folding \<Rightarrow> key \<Rightarrow> fin option" where
  "fin_of s = map_of (fo_order s)"

lemma indexed_distinct: "indexed s \<Longrightarrow> distinct (map fst (fo_order s))"
  unfolding indexed_def distinct_conv_nth by (metis length_map nth_map option.inject)

lemma fin_of_index:
  assumes "indexed s"
  shows "fo_index s k = Some i \<Longrightarrow> fin_of s k = Some (snd (fo_order s ! i))"
    and "fo_index s k = None \<longleftrightarrow> fin_of s k = None"
proof -
  show "fin_of s k = Some (snd (fo_order s ! i))" if "fo_index s k = Some i"
  proof -
    have "i < length (fo_order s)" "fst (fo_order s ! i) = k" using assms that by (auto simp: indexed_def)
    then have "(k, snd (fo_order s ! i)) \<in> set (fo_order s)" by (metis nth_mem prod.collapse)
    then show ?thesis using indexed_distinct [OF assms] by (simp add: fin_of_def map_of_eq_Some_iff)
  qed
  show "fo_index s k = None \<longleftrightarrow> fin_of s k = None"
    using assms unfolding indexed_def fin_of_def map_of_eq_None_iff
    by (auto simp: in_set_conv_nth image_iff) (metis fst_conv not_None_eq nth_mem)+
qed

lemma put_step:
  assumes "indexed s"
  shows "\<exists>s'. put k fin s = Inr s' \<and> indexed s' \<and> fin_of s' = (fin_of s)(k \<mapsto> fin)"
proof (cases "fo_index s k")
  case None
  let ?s' = "s\<lparr>fo_order := fo_order s @ [(k, fin)], fo_index := (fo_index s)(k \<mapsto> length (fo_order s))\<rparr>"
  have none: "fin_of s k = None" using None fin_of_index(2) [OF assms] by simp
  have "indexed ?s'"
    using assms None unfolding indexed_def
    by (auto simp: nth_append less_Suc_eq split: if_splits) (metis option.distinct(1))+
  moreover have "fin_of ?s' = (fin_of s)(k \<mapsto> fin)"
    using none by (auto simp: fin_of_def fun_eq_iff map_add_def split: option.splits)
  ultimately show ?thesis using None by (simp add: put_def)
next
  case (Some i)
  then have i: "i < length (fo_order s)" "fst (fo_order s ! i) = k" using assms by (auto simp: indexed_def)
  let ?s' = "s\<lparr>fo_order := (fo_order s)[i := (k, fin)]\<rparr>"
  have ix: "indexed ?s'"
    using assms i unfolding indexed_def by (simp add: nth_list_update)
  have "fin_of ?s' k' = ((fin_of s)(k \<mapsto> fin)) k'" for k'
  proof (cases "fo_index s k'")
    case None
    then have "k' \<noteq> k" "fin_of s k' = None" "fin_of ?s' k' = None"
      using Some fin_of_index(2) [OF assms, of k'] fin_of_index(2) [OF ix, of k'] by auto
    then show ?thesis by simp
  next
    case (Some j)
    have j: "j < length (fo_order s)" "fst (fo_order s ! j) = k'"
      using Some assms by (auto simp: indexed_def)
    have same: "j = i \<longleftrightarrow> k' = k"
    proof
      show "j = i \<Longrightarrow> k' = k" using i(2) j(2) by simp
      show "k' = k \<Longrightarrow> j = i" using Some \<open>fo_index s k = Some i\<close> by simp
    qed
    with Some show ?thesis
      using fin_of_index(1) [OF assms Some] fin_of_index(1) [OF ix, of k' j] i
      by (cases "j = i") (simp_all add: nth_list_update)
  qed
  with Some i ix show ?thesis by (auto simp: put_def)
qed

section \<open>Images against the ordered application\<close>

text \<open>Applying the images to the table before the window; a hole is read where the row was.\<close>

definition apply_image :: "table \<Rightarrow> key \<Rightarrow> image \<Rightarrow> row option" where
  "apply_image d k im =
     (case im of
        Image_Row r \<Rightarrow> Some r
      | Image_Masked r mf \<Rightarrow> map_option (fill r) (d (case mf of Some k' \<Rightarrow> k' | None \<Rightarrow> k))
      | Image_Delete \<Rightarrow> None)"

definition apply_images :: "(key \<times> image) list \<Rightarrow> table \<Rightarrow> table" where
  "apply_images rs d = (\<lambda>k. case map_of rs k of None \<Rightarrow> d k | Some im \<Rightarrow> apply_image d k im)"

definition whole_rows :: "nat \<Rightarrow> table \<Rightarrow> bool" where
  "whole_rows n d \<longleftrightarrow> (\<forall>k r. d k = Some r \<longrightarrow> length r = n \<and> UnchangedToast \<notin> set r)"

text \<open>What an op of the tail relies on, over the table it meets.\<close>

fun finds :: "nat list \<Rightarrow> nat \<Rightarrow> table \<Rightarrow> residue_op \<Rightarrow> bool" where
  "finds idx n d (MaskedUpdate k row) = (d k \<noteq> None \<and> length row = n)"
| "finds idx n d (Rekey old_key _ row) = (d old_key \<noteq> None \<and> length row = n)"
| "finds idx n d (RUpsert row) = (keyed idx row \<and> length row = n \<and> UnchangedToast \<notin> set row)"
| "finds idx n d (RDelete _) = True"

definition fin_ok :: "nat \<Rightarrow> table \<Rightarrow> key \<Rightarrow> fin \<Rightarrow> row option \<Rightarrow> bool" where
  "fin_ok n d k fin v =
     (case fin of
        Fin_Row r \<Rightarrow> v = Some r
      | Fin_Owned r \<Rightarrow> v = Some r
      | Fin_Masked r mf \<Rightarrow>
          (\<exists>b. d (case mf of Some k' \<Rightarrow> k' | None \<Rightarrow> k) = Some b \<and> length r = n \<and> length b = n \<and> v = Some (fill r b))
      | Gone \<Rightarrow> v = None)"

lemma fin_ok_simps [simp]:
  "fin_ok n d k (Fin_Row r) v \<longleftrightarrow> v = Some r" "fin_ok n d k (Fin_Owned r) v \<longleftrightarrow> v = Some r"
  "fin_ok n d k Gone v \<longleftrightarrow> v = None"
  "fin_ok n d k (Fin_Masked r mf) v \<longleftrightarrow>
     (\<exists>b. d (case mf of Some k' \<Rightarrow> k' | None \<Rightarrow> k) = Some b \<and> length r = n \<and> length b = n \<and> v = Some (fill r b))"
  by (simp_all add: fin_ok_def)

definition fold_rel :: "nat \<Rightarrow> table \<Rightarrow> key set \<Rightarrow> folding \<Rightarrow> table \<Rightarrow> bool" where
  "fold_rel n d ks s t \<longleftrightarrow>
     indexed s \<and> whole_rows n t \<and>
     (\<forall>k. case fin_of s k of None \<Rightarrow> t k = (if k \<in> ks then None else d k) | Some fin \<Rightarrow> fin_ok n d k fin (t k))"

lemma fill_no_toast: "UnchangedToast \<notin> set cs \<Longrightarrow> fill cs b = cs"
  by (induction cs b rule: fill.induct) auto

lemma fold_rel_set:
  assumes "fold_rel n d ks s t" "fin_ok n d k fin v" "\<And>r. v = Some r \<Longrightarrow> length r = n \<and> UnchangedToast \<notin> set r"
  shows "\<exists>s'. put k fin s = Inr s' \<and> fold_rel n d ks s' (t(k := v))"
proof -
  have ix: "indexed s" and rows: "whole_rows n t"
    and rel: "\<And>k. case fin_of s k of None \<Rightarrow> t k = (if k \<in> ks then None else d k) | Some fin \<Rightarrow> fin_ok n d k fin (t k)"
    using assms(1) by (auto simp: fold_rel_def)
  obtain s' where s': "put k fin s = Inr s'" "indexed s'" "fin_of s' = (fin_of s)(k \<mapsto> fin)"
    using put_step [OF ix] by blast
  have "whole_rows n (t(k := v))" using rows assms(3) by (auto simp: whole_rows_def)
  moreover have "case fin_of s' x of None \<Rightarrow> (t(k := v)) x = (if x \<in> ks then None else d x)
      | Some fin \<Rightarrow> fin_ok n d x fin ((t(k := v)) x)" for x
    using rel [of x] assms(2) s'(3) by (cases "x = k"; cases "fin_of s x") simp_all
  ultimately show ?thesis using s' by (auto simp: fold_rel_def)
qed

lemma fold_rel_put:
  assumes "fold_rel n d ks s t" "fin_ok n d k fin (Some r)" "length r = n" "UnchangedToast \<notin> set r"
  shows "\<exists>s'. put k fin s = Inr s' \<and> fold_rel n d ks s' (t(k \<mapsto> r))"
  using fold_rel_set [OF assms(1,2)] assms(3,4) by simp

lemma fold_rel_gone:
  assumes "fold_rel n d ks s t"
  shows "\<exists>s'. put k Gone s = Inr s' \<and> fold_rel n d ks s' (t(k := None))"
  using fold_rel_set [OF assms, of k Gone None] by simp

text \<open>What the fold knows of a row the table holds, and what patching over it gives.\<close>

lemma patch_over:
  assumes "fold_rel n d ks s t" "t k = Some b" "whole_rows n d" "length row = n"
  shows "\<exists>base origin. base_of s k = Inr (base, origin) \<and>
    fin_ok n d k (patch row base origin) (Some (fill row b)) \<and>
    fin_ok n d k' (patch row base (Some (case origin of Some x \<Rightarrow> x | None \<Rightarrow> k))) (Some (fill row b))"
proof -
  have ix: "indexed s" and rel: "case fin_of s k of None \<Rightarrow> t k = (if k \<in> ks then None else d k) | Some fin \<Rightarrow> fin_ok n d k fin (t k)"
    using assms(1) by (auto simp: fold_rel_def)
  have b: "length b = n" "UnchangedToast \<notin> set b"
    using assms(1,2) by (auto simp: fold_rel_def whole_rows_def)
  show ?thesis
  proof (cases "fin_of s k")
    case None
    then have "base_of s k = Inr (None, None)" "d k = Some b"
      using rel assms(2) fin_of_index(2) [OF ix, of k] by (auto simp: base_of_def split: if_splits)
    then show ?thesis
      using assms(4) b by (auto simp: patch_def Let_def fill_no_toast)
  next
    case (Some fin)
    then obtain i where i: "fo_index s k = Some i" using fin_of_index(2) [OF ix, of k] by auto
    then have "i < length (fo_order s)" "snd (fo_order s ! i) = fin"
      using ix fin_of_index(1) [OF ix i] Some by (auto simp: indexed_def)
    then have base: "base_of s k = Inr (case fin of Fin_Row b \<Rightarrow> (Some b, None) | Fin_Owned b \<Rightarrow> (Some b, None)
        | Fin_Masked row mf \<Rightarrow> (Some row, mf) | Gone \<Rightarrow> (None, None))"
      using i by (simp add: base_of_def)
    have ok: "fin_ok n d k fin (Some b)" using rel Some assms(2) by simp
    show ?thesis
    proof (cases fin)
      case (Fin_Masked prow mf)
      then obtain r0 where r0: "d (case mf of Some k' \<Rightarrow> k' | None \<Rightarrow> k) = Some r0" "length prow = n" "length r0 = n"
          "b = fill prow r0" using ok by auto
      then have "fill row b = fill (fill row prow) r0" using assms(4) by (simp add: fill_fill)
      with Fin_Masked base r0 assms(4) show ?thesis
        by (auto simp: patch_def Let_def fill_no_toast split: option.splits)
    qed (use base ok b assms(4) fill_whole [of row b] in \<open>auto simp: patch_def Let_def\<close>)
  qed
qed

lemma fold_residue_step:
  assumes "fold_rel n d ks s t" "whole_rows n d" "finds idx n t op"
  shows "\<exists>s'. fold_residue idx s op = Inr s' \<and> fold_rel n d ks s' (apply_residue idx op t)"
proof (cases op)
  case (RUpsert row)
  with assms show ?thesis
    using fold_rel_put [OF assms(1), of "row_key idx row" "Fin_Row row" row]
    by (simp add: row_key_refs_cells_wf)
next
  case (RDelete k)
  then show ?thesis using fold_rel_gone [OF assms(1)] by simp
next
  case (MaskedUpdate k row)
  with assms(3) obtain b where b: "t k = Some b" "length row = n" by auto
  then have w: "length (fill row b) = n" "UnchangedToast \<notin> set (fill row b)"
    using assms(1) fill_whole [of row b] by (auto simp: fold_rel_def whole_rows_def)
  from patch_over [OF assms(1) b(1) assms(2) b(2)] fold_rel_put [OF assms(1) _ w] MaskedUpdate b show ?thesis
    by (fastforce simp: masked_at_def)
next
  case (Rekey old_key new_key row)
  with assms(3) obtain b where b: "t old_key = Some b" "length row = n" by auto
  then have w: "length (fill row b) = n" "UnchangedToast \<notin> set (fill row b)"
    using assms(1) fill_whole [of row b] by (auto simp: fold_rel_def whole_rows_def)
  obtain base origin where bo: "base_of s old_key = Inr (base, origin)"
      "fin_ok n d new_key (patch row base (Some (case origin of Some x \<Rightarrow> x | None \<Rightarrow> old_key))) (Some (fill row b))"
    using patch_over [OF assms(1) b(1) assms(2) b(2)] by blast
  obtain s1 where s1: "put old_key Gone s = Inr s1" "fold_rel n d ks s1 (t(old_key := None))"
    using fold_rel_gone [OF assms(1)] by blast
  from fold_rel_put [OF s1(2) bo(2) w] s1(1) bo(1) Rekey b show ?thesis
    by (auto simp: moved_def Let_def)
qed

lemma fold_residue_rel:
  "\<lbrakk>fold_rel n d ks s t; whole_rows n d; all_along (finds idx n) (apply_residue idx) t rs\<rbrakk> \<Longrightarrow>
   \<exists>s'. fold_results (fold_residue idx) s rs = Inr s' \<and> fold_rel n d ks s' (fold (apply_residue idx) rs t)"
proof (induction rs arbitrary: s t)
  case (Cons op rs)
  then obtain s1 where "fold_residue idx s op = Inr s1" "fold_rel n d ks s1 (apply_residue idx op t)"
    using fold_residue_step [of n d ks s t idx op] by auto
  with Cons show ?case by auto
qed simp

lemma fold_upsert_rel:
  "\<lbrakk>fold_rel n d ks s t;
    \<forall>u \<in> set us. tuple_wf u \<and> keyed idx (cells_of u) \<and> length (cells_of u) = n \<and> UnchangedToast \<notin> set (cells_of u)\<rbrakk> \<Longrightarrow>
   \<exists>s'. fold_results (fold_upsert idx) s us = Inr s' \<and> fold_rel n d ks s' (upsert_rows idx (map cells_of us) t)"
proof (induction us arbitrary: s t)
  case (Cons u us)
  obtain s1 where s1: "put (row_key idx (cells_of u)) (Fin_Owned (cells_of u)) s = Inr s1"
      "fold_rel n d ks s1 (t(row_key idx (cells_of u) \<mapsto> cells_of u))"
    using fold_rel_put [OF Cons.prems(1), of _ "Fin_Owned (cells_of u)" "cells_of u"] Cons.prems(2) by auto
  have "fold_upsert idx s u = Inr s1"
    using s1(1) Cons.prems(2) by (simp add: fold_upsert_def row_key_refs_wf tuple_simps)
  moreover obtain s2 where "fold_results (fold_upsert idx) s1 us = Inr s2"
      "fold_rel n d ks s2 (upsert_rows idx (map cells_of us) (t(row_key idx (cells_of u) \<mapsto> cells_of u)))"
    using Cons.IH [OF s1(2)] Cons.prems(2) by (meson list.set_intros(2))
  ultimately show ?case by (simp add: upsert_rows_def)
qed (simp add: upsert_rows_def)

lemma map_of_image: "map_of (map (\<lambda>(k, fin). (k, image_of fin)) xs) k = map_option image_of (map_of xs k)"
  by (induction xs) auto

lemma map_of_const: "map_of (map (\<lambda>k. (k, v)) ks) k = (if k \<in> set ks then Some v else None)"
  by (induction ks) auto

text \<open>A window as the collapse seals it: whole upserts, and a tail whose ops meet their rows.\<close>

definition set_phase_table :: "nat list \<Rightarrow> collapsed \<Rightarrow> table \<Rightarrow> table" where
  "set_phase_table idx c d =
     upsert_rows idx (map cells_of (upserts c)) (delete_keys (deletes c) (if truncated c then Map.empty else d))"

definition window_ok :: "nat list \<Rightarrow> nat \<Rightarrow> collapsed \<Rightarrow> table \<Rightarrow> bool" where
  "window_ok idx n c d \<longleftrightarrow>
     distinct (deletes c) \<and>
     (\<forall>u \<in> set (upserts c). tuple_wf u \<and> keyed idx (cells_of u) \<and> length (cells_of u) = n
                           \<and> UnchangedToast \<notin> set (cells_of u)) \<and>
     all_along (finds idx n) (apply_residue idx) (set_phase_table idx c d) (residue c)"

text \<open>
  C7: the fold yields every key the window touched exactly once, and applying its images
  to the table as it was before the window, holes read at the key the row was moved from,
  leaves the table that the ordered application of deletes, upserts and residue leaves.
\<close>

theorem resolve_applies:
  assumes "window_ok (l_key_idx (w_layout w)) n (w_body w) d" "whole_rows n d"
  shows "\<exists>r. resolve_window w = Inr r \<and> distinct (map fst (resolved_rows r))
           \<and> apply_images (resolved_rows r) (if truncated (w_body w) then Map.empty else d)
             = apply_collapsed (l_key_idx (w_layout w)) (w_body w) d"
proof -
  let ?idx = "l_key_idx (w_layout w)" and ?c = "w_body w"
  let ?d = "if truncated ?c then Map.empty else d" and ?ks = "set (deletes ?c)"
  let ?s0 = "\<lparr>fo_order = [], fo_index = Map.empty\<rparr> :: folding"
  have d: "whole_rows n ?d" using assms(2) by (simp add: whole_rows_def)
  have "fold_rel n ?d ?ks ?s0 (delete_keys (deletes ?c) ?d)"
    using d by (auto simp: fold_rel_def indexed_def fin_of_def delete_keys_def whole_rows_def)
  then obtain s1 where s1: "fold_results (fold_upsert ?idx) ?s0 (upserts ?c) = Inr s1"
      "fold_rel n ?d ?ks s1 (set_phase_table ?idx ?c d)"
    using fold_upsert_rel [of n ?d ?ks ?s0 _ "upserts ?c" ?idx] assms(1)
    unfolding window_ok_def set_phase_table_def by blast
  then obtain s2 where s2: "fold_results (fold_residue ?idx) s1 (residue ?c) = Inr s2"
      "fold_rel n ?d ?ks s2 (apply_collapsed ?idx ?c d)"
    using fold_residue_rel [OF s1(2) d] assms(1)
    unfolding window_ok_def apply_collapsed_def set_phase_table_def by blast
  let ?r = "\<lparr>finals = fo_order s2, delete_only = (if truncated ?c then [] else filter (\<lambda>k. fo_index s2 k = None) (deletes ?c))\<rparr>"
  have ix: "indexed s2" using s2(2) by (simp add: fold_rel_def)
  have "distinct (map fst (resolved_rows ?r))"
    using indexed_distinct [OF ix] assms(1) fin_of_index(2) [OF ix]
    by (auto simp: resolved_rows_def window_ok_def comp_def split_def distinct_map inj_on_def fin_of_def map_of_eq_None_iff)
  moreover have "apply_images (resolved_rows ?r) ?d k = apply_collapsed ?idx ?c d k" for k
  proof -
    have rel: "case fin_of s2 k of None \<Rightarrow> apply_collapsed ?idx ?c d k = (if k \<in> ?ks then None else ?d k)
        | Some fin \<Rightarrow> fin_ok n ?d k fin (apply_collapsed ?idx ?c d k)"
      using s2(2) by (auto simp: fold_rel_def)
    show ?thesis
    proof (cases "fin_of s2 k")
      case None
      with rel fin_of_index(2) [OF ix, of k] show ?thesis
        by (auto simp: apply_images_def resolved_rows_def map_of_image map_of_const fin_of_def map_add_def apply_image_def
            split: option.splits)
    next
      case (Some fin)
      with rel have "fin_ok n ?d k fin (apply_collapsed ?idx ?c d k)" by simp
      moreover have "map_of (resolved_rows ?r) k = Some (image_of fin)"
        using Some fin_of_index(2) [OF ix, of k]
        by (auto simp: resolved_rows_def map_of_image map_of_const fin_of_def map_add_def)
      ultimately show ?thesis
        by (cases fin) (auto simp: apply_images_def apply_image_def)
    qed
  qed
  ultimately show ?thesis using s1(1) s2(1) by (auto simp: resolve_window_def Let_def fun_eq_iff)
qed

text \<open>A window that moves a row with an unsent value over a deleted key.\<close>

definition moving_window :: "collapsed table_window" where
  "moving_window = \<lparr>w_layout = sample_layout, w_body =
     \<lparr>deletes = [[ascii ''3'']], upserts = [sample_row ''4'' ''d''],
      residue = [Rekey [ascii ''1''] [ascii ''9''] (masked_cells ''9''), MaskedUpdate [ascii ''9''] (masked_cells ''9'')],
      residue_at = [7, 7], truncated = False, events = 4\<rparr>\<rparr>"

theorem resolve_applies_witness:
  "\<exists>r. resolve_window moving_window = Inr r \<and> distinct (map fst (resolved_rows r))
     \<and> apply_images (resolved_rows r) (if truncated (w_body moving_window) then Map.empty else sample_table)
       = apply_collapsed (l_key_idx (w_layout moving_window)) (w_body moving_window) sample_table"
proof (rule resolve_applies)
  show "whole_rows 2 sample_table" using sample_table_rows by (simp add: whole_rows_def)
  show "window_ok (l_key_idx (w_layout moving_window)) 2 (w_body moving_window) sample_table"
    by (simp add: window_ok_def moving_window_def sample_eval ascii_def set_phase_table_def upsert_rows_def
        delete_keys_def sample_table_def moved_def)
qed

section \<open>Refetching\<close>

lemma resolved_keys: "map fst (resolved_rows r) = map fst (finals r) @ delete_only r"
proof -
  have "map fst (map (\<lambda>(k, fin). (k, image_of fin)) xs) = map fst xs" for xs :: "(key \<times> fin) list"
    by (induction xs) auto
  moreover have "map fst (map (\<lambda>k. (k, Image_Delete)) ks) = ks" for ks :: "key list"
    by (induction ks) simp_all
  ultimately show ?thesis unfolding resolved_rows_def map_append by (simp only:)
qed

lemma refill_whole: "refill_cells vs i cs = Inr cs' \<Longrightarrow> UnchangedToast \<notin> set cs' \<and> length cs' = length cs"
proof (induction cs arbitrary: i cs')
  case (Cons c cs)
  have v: "value_cell v \<noteq> UnchangedToast" for v by (cases v) simp_all
  from Cons.prems obtain c' cs1 where "cs' = c' # cs1" "refill_cells vs (Suc i) cs = Inr cs1"
      "c' = c \<and> c \<noteq> UnchangedToast \<or> (\<exists>v. c' = value_cell v)"
    by (auto simp: result_simps split: if_split_asm)
  with Cons.IH v v [symmetric] show ?case by auto
qed simp

definition complete_fin :: "fin \<Rightarrow> bool" where
  "complete_fin fin = (case fin of Fin_Masked _ _ \<Rightarrow> False | _ \<Rightarrow> True)"

lemma refetch_fin_complete: "refetch_fin fetch e = Inr e' \<Longrightarrow> fst e' = fst e \<and> complete_fin (snd e')"
  by (auto simp: refetch_fin_def complete_fin_def result_simps split: fin.splits option.split_asm if_split_asm)

lemma collect_refetch:
  "collect_results (refetch_fin fetch) es = Inr es' \<Longrightarrow> map fst es' = map fst es \<and> (\<forall>e \<in> set es'. complete_fin (snd e))"
proof (induction es arbitrary: es')
  case (Cons e es)
  then obtain e1 es1 where "es' = e1 # es1" "refetch_fin fetch e = Inr e1" "collect_results (refetch_fin fetch) es = Inr es1"
    by (auto simp: result_simps)
  with Cons.IH refetch_fin_complete show ?case by auto
qed simp

text \<open>
  After the refetch, whatever the source answers, no image has a hole left, every key
  keeps its one entry in its place, and every refilled row keeps its width.
\<close>

lemma refetch_completes:
  assumes "refetch_masked fetch r = Inr r'"
  shows "map fst (resolved_rows r') = map fst (resolved_rows r) \<and> (\<forall>e \<in> set (finals r'). complete_fin (snd e))
       \<and> (\<forall>k row mf cs. (k, Fin_Masked row mf) \<in> set (finals r) \<longrightarrow> refetch_fin fetch (k, Fin_Masked row mf) = Inr (k, Fin_Owned cs)
            \<longrightarrow> length cs = length row \<and> UnchangedToast \<notin> set cs)"
proof -
  obtain fs where fs: "collect_results (refetch_fin fetch) (finals r) = Inr fs" "r' = r\<lparr>finals := fs\<rparr>"
    using assms by (auto simp: refetch_masked_def result_simps)
  from fs collect_refetch [OF fs(1)] show ?thesis
    by (auto simp: resolved_keys refetch_fin_def result_simps dest!: refill_whole split: option.split_asm if_split_asm)
qed

end
