(* ===== verification/Rowtext.thy ===== *)
theory Rowtext
  imports Resolve
begin

text \<open>
  Text rendering of rows for the destinations (\<^verbatim>\<open>logbased/rowtext.rs\<close>, \<^verbatim>\<open>wire/mytsv.rs\<close>,
  \<^verbatim>\<open>wire/pgtext.rs\<close>): the escaping loops with their eight-bytes-at-a-time probe, the row and
  key renderers of each engine, and the readers that undo them. The hexadecimal codec (a
  third-party crate) and the two binary field codecs are arguments of the renderers that
  call them.
\<close>

section \<open>Little-endian words\<close>

fun le_int :: "bytes \<Rightarrow> int" where
  "le_int [] = 0"
| "le_int (b # bs) = uint b + 256 * le_int bs"

definition from_le_bytes :: "bytes \<Rightarrow> u64" where
  "from_le_bytes bs = word_of_int (le_int bs)"

section \<open>Escaping\<close>

definition is_special :: "byte \<Rightarrow> bool" where
  "is_special b \<longleftrightarrow> b = 0x5C \<or> b = 0x09 \<or> b = 0x0A \<or> b = 0x0D"

definition lows :: u64 where
  "lows = 0x0101010101010101"

definition highs :: u64 where
  "highs = 0x8080808080808080"

text \<open>The probe: \<^verbatim>\<open>wrapping_sub\<close> is subtraction of words.\<close>

definition word_has_special :: "u64 \<Rightarrow> bool" where
  "word_has_special w =
     (let a = w XOR (lows * 0x5C); b = w XOR (lows * 0x09); c = w XOR (lows * 0x0A); d = w XOR (lows * 0x0D)
      in (((a - lows) AND NOT a) OR ((b - lows) AND NOT b) OR ((c - lows) AND NOT c) OR ((d - lows) AND NOT d))
           AND highs \<noteq> 0)"

text \<open>The two inner loops: over clean words, then over clean bytes.\<close>

function skip_words :: "bytes \<Rightarrow> nat \<Rightarrow> nat" where
  "skip_words v i =
     (if i + 8 \<le> length v \<and> \<not> word_has_special (from_le_bytes (take 8 (drop i v)))
      then skip_words v (i + 8) else i)"
  by auto
termination
  by (relation "measure (\<lambda>(v, i). length v - i)") auto

function skip_bytes :: "(byte \<Rightarrow> bool) \<Rightarrow> bytes \<Rightarrow> nat \<Rightarrow> nat" where
  "skip_bytes special v i = (if i < length v \<and> \<not> special (v ! i) then skip_bytes special v (i + 1) else i)"
  by auto
termination
  by (relation "measure (\<lambda>(_, v, i). length v - i)") auto

declare skip_words.simps [simp del] skip_bytes.simps [simp del]

definition copy_code :: "byte \<Rightarrow> byte" where
  "copy_code b = (if b = 0x5C then 0x5C else if b = 0x09 then 0x74 else if b = 0x0A then 0x6E else 0x72)"

lemma skip_bytes_bounds: "i \<le> length v \<Longrightarrow> i \<le> skip_bytes p v i \<and> skip_bytes p v i \<le> length v"
proof (induction p v i rule: skip_bytes.induct)
  case (1 p v i)
  then show ?case by (subst (1 2) skip_bytes.simps) auto
qed

lemma skip_words_bounds: "i \<le> length v \<Longrightarrow> i \<le> skip_words v i \<and> skip_words v i \<le> length v"
proof (induction v i rule: skip_words.induct)
  case (1 v i)
  then show ?case by (subst (1 2) skip_words.simps) auto
qed

text \<open>The outer loop, from \<open>start = i\<close>: the run of clean bytes goes out in one piece.\<close>

function copy_loop :: "bytes \<Rightarrow> nat \<Rightarrow> bytes \<Rightarrow> bytes" where
  "copy_loop v i out =
     (if i < length v then
        let j = skip_bytes is_special v (skip_words v i);
            out = out @ take (j - i) (drop i v)
        in if j = length v then out else copy_loop v (j + 1) (out @ [0x5C, copy_code (v ! j)])
      else out)"
  by auto
termination
proof (relation "measure (\<lambda>(v, i, _). length v - i)")
  fix v :: bytes and i out j x
  assume "i < length v" "j = skip_bytes is_special v (skip_words v i)" "j \<noteq> length v"
  with skip_words_bounds [of i v] skip_bytes_bounds [of "skip_words v i" v is_special]
  show "((v, j + 1, x @ [0x5C, copy_code (v ! j)]), v, i, out) \<in> measure (\<lambda>(v, i, _). length v - i)" by auto
qed simp

declare copy_loop.simps [simp del]

definition copy_escape :: "bytes \<Rightarrow> bytes \<Rightarrow> bytes" where
  "copy_escape v out = copy_loop v 0 out"

text \<open>\<^verbatim>\<open>LOAD DATA\<close>'s dialect has two more special bytes and no word probe.\<close>

definition my_special :: "byte \<Rightarrow> bool" where
  "my_special b \<longleftrightarrow> b = 0x5C \<or> b = 0x09 \<or> b = 0x0A \<or> b = 0x0D \<or> b = 0 \<or> b = 0x1A"

definition my_code :: "byte \<Rightarrow> byte" where
  "my_code b = (if b = 0x09 then 0x74 else if b = 0x0A then 0x6E else if b = 0x0D then 0x72
     else if b = 0 then 0x30 else if b = 0x1A then 0x5A else b)"

function tsv_loop :: "bytes \<Rightarrow> nat \<Rightarrow> bytes \<Rightarrow> bytes" where
  "tsv_loop v i out =
     (if i < length v then
        let j = skip_bytes my_special v i;
            out = out @ take (j - i) (drop i v)
        in if j = length v then out else tsv_loop v (j + 1) (out @ [0x5C, my_code (v ! j)])
      else out)"
  by auto
termination
proof (relation "measure (\<lambda>(v, i, _). length v - i)")
  fix v :: bytes and i out j x
  assume "i < length v" "j = skip_bytes my_special v i" "j \<noteq> length v"
  with skip_bytes_bounds [of i v my_special]
  show "((v, j + 1, x @ [0x5C, my_code (v ! j)]), v, i, out) \<in> measure (\<lambda>(v, i, _). length v - i)" by auto
qed simp

declare tsv_loop.simps [simp del]

definition tsv_escape :: "bytes \<Rightarrow> bytes \<Rightarrow> bytes" where
  "tsv_escape v out = tsv_loop v 0 out"

section \<open>Unescaping\<close>

text \<open>What follows a backslash in ClickHouse's output, and the loop over a field.\<close>

definition ch_unescape :: "byte \<Rightarrow> bytes" where
  "ch_unescape c =
     (if c = 0x74 then [0x09] else if c = 0x6E then [0x0A] else if c = 0x72 then [0x0D]
      else if c = 0x5C then [0x5C] else if c = 0x27 then [0x27] else if c = 0x62 then [0x08]
      else if c = 0x66 then [0x0C] else if c = 0x30 then [0x00] else [0x5C, c])"

fun unescape_bytes :: "(byte \<Rightarrow> bytes) \<Rightarrow> bytes \<Rightarrow> bytes" where
  "unescape_bytes dec [] = []"
| "unescape_bytes dec [b] = [b]"
| "unescape_bytes dec (b # c # s) =
     (if b \<noteq> 0x5C then b # unescape_bytes dec (c # s) else dec c @ unescape_bytes dec s)"

definition tsv_unescape :: "bytes \<Rightarrow> bytes option" where
  "tsv_unescape field = (if field = [0x5C, 0x4E] then None else Some (unescape_bytes ch_unescape field))"

text \<open>COPY text: the run up to the next backslash in one piece, then the escape.\<close>

definition pg_unescape :: "byte \<Rightarrow> byte" where
  "pg_unescape c =
     (if c = 0x62 then 0x08 else if c = 0x66 then 0x0C else if c = 0x6E then 0x0A else if c = 0x72 then 0x0D
      else if c = 0x74 then 0x09 else if c = 0x76 then 0x0B else c)"

function unescape_at :: "bytes \<Rightarrow> nat \<Rightarrow> bytes \<Rightarrow> bytes" where
  "unescape_at v i out =
     (if i < length v then
        let j = skip_bytes (\<lambda>b. b = 0x5C) v i;
            out = out @ take (j - i) (drop i v)
        in if length v \<le> j then out
           else if j + 1 < length v then unescape_at v (j + 2) (out @ [pg_unescape (v ! (j + 1))])
           else unescape_at v (j + 1) (out @ [0x5C])
      else out)"
  by auto
termination
proof (relation "measure (\<lambda>(v, i, _). length v - i)")
  fix v :: bytes and i out j x
  assume a: "i < length v" "j = skip_bytes (\<lambda>b. b = 0x5C) v i" "\<not> length v \<le> j"
  note b = skip_bytes_bounds [of i v "\<lambda>b. b = 0x5C"]
  from a b show "((v, j + 2, x @ [pg_unescape (v ! (j + 1))]), v, i, out) \<in> measure (\<lambda>(v, i, _). length v - i)" by auto
  from a b show "((v, j + 1, x @ [0x5C]), v, i, out) \<in> measure (\<lambda>(v, i, _). length v - i)" by auto
qed simp

declare unescape_at.simps [simp del]

definition unescape_into :: "bytes \<Rightarrow> bytes \<Rightarrow> bytes" where
  "unescape_into field out = unescape_at field 0 out"

section \<open>Rows and keys\<close>

definition BYTEA_OID :: u32 where "BYTEA_OID = 17"
definition BOOL_OID :: u32 where "BOOL_OID = 16"
definition TIMESTAMPTZ_OID :: u32 where "TIMESTAMPTZ_OID = 1184"
definition TIMETZ_OID :: u32 where "TIMETZ_OID = 1266"

definition NUMERIC_OIDS :: "u32 list" where
  "NUMERIC_OIDS = [20, 21, 23, 26, 700, 701, 1700]"

text \<open>
  The loop every row renderer has: a tab before each cell but the first, \<^verbatim>\<open>\N\<close> for NULL, the
  renderer's own spelling of a value, and a refusal of a cell whose value is not known.
\<close>

definition render_row :: "(nat \<Rightarrow> bytes \<Rightarrow> bytes \<Rightarrow> bytes result) \<Rightarrow> (nat \<Rightarrow> cell result) \<Rightarrow> nat \<Rightarrow> bytes \<Rightarrow> bytes result" where
  "render_row val view n out =
     and_then (fold_results (\<lambda>out i.
         let out = (if i > 0 then out @ [0x09] else out)
         in and_then (view i) (\<lambda>c.
              case c of
                Null \<Rightarrow> Inr (out @ [0x5C, 0x4E])
              | Text t \<Rightarrow> val i t out
              | UnchangedToast \<Rightarrow> Inl (Transfer Toast_in_bulk))) out [0..<n])
       (\<lambda>out. Inr (out @ [0x0A]))"

text \<open>The loop of the key renderers, whose cells are all values.\<close>

definition render_key :: "(nat \<Rightarrow> bytes \<Rightarrow> bytes \<Rightarrow> bytes result) \<Rightarrow> bytes list \<Rightarrow> bytes \<Rightarrow> bytes result" where
  "render_key val key out =
     and_then (fold_results (\<lambda>out i. and_then (index_list key i) (\<lambda>k.
         val i k (if i > 0 then out @ [0x09] else out))) out [0..<length key])
       (\<lambda>out. Inr (out @ [0x0A]))"

definition copy_bytea_hex :: "(bytes \<Rightarrow> bytes) \<Rightarrow> bytes \<Rightarrow> bytes \<Rightarrow> bytes" where
  "copy_bytea_hex hex_encode v out = out @ [0x5C, 0x5C, 0x78] @ hex_encode v"

definition render_copy_row :: "(bytes \<Rightarrow> bytes) \<Rightarrow> tuple \<Rightarrow> bool list \<Rightarrow> bytes \<Rightarrow> bytes result" where
  "render_copy_row hex_encode row hex out =
     render_row (\<lambda>i t out.
         if i < length hex \<and> hex ! i then Inr (copy_bytea_hex hex_encode t out) else Inr (copy_escape t out))
       (tuple_view row) (tuple_len row) out"

definition strip_prefix :: "bytes \<Rightarrow> bytes \<Rightarrow> bytes option" where
  "strip_prefix p v = (if take (length p) v = p then Some (drop (length p) v) else None)"

definition strip_suffix :: "bytes \<Rightarrow> bytes \<Rightarrow> bytes option" where
  "strip_suffix p v =
     (if length p \<le> length v \<and> drop (length v - length p) v = p then Some (take (length v - length p) v) else None)"

definition bytea_hex :: "bytes \<Rightarrow> bytes result" where
  "bytea_hex v = ok_or (Transfer Bytea_without_prefix) (strip_prefix [0x5C, 0x78] v)"

definition decode_bytea :: "(bytes \<Rightarrow> bytes option) \<Rightarrow> bytes \<Rightarrow> bytes result" where
  "decode_bytea hex_decode t = and_then (bytea_hex t) (\<lambda>h. ok_or (Transfer Bad_hex) (hex_decode h))"

definition bool_digit :: "bytes \<Rightarrow> byte" where
  "bool_digit v = (if v = [0x74] then 0x31 else 0x30)"

definition plain_oids :: "u32 list" where
  "plain_oids = [20, 21, 23, 26, 700, 701, 1700, 1082, 1083, 1114, 1184, 1266, 2950]"

definition render_ch_value :: "bytes \<Rightarrow> u32 \<Rightarrow> bytes \<Rightarrow> bytes result" where
  "render_ch_value v oid out =
     (if oid = BOOL_OID then Inr (out @ [bool_digit v])
      else if oid \<in> set plain_oids then Inr (out @ v)
      else Inr (copy_escape v out))"

definition ch_value_at :: "u32 list \<Rightarrow> nat \<Rightarrow> bytes \<Rightarrow> bytes \<Rightarrow> bytes result" where
  "ch_value_at oids i t out = and_then (index_list oids i) (\<lambda>oid. render_ch_value t oid out)"

definition render_ch_row :: "tuple \<Rightarrow> u32 list \<Rightarrow> bytes \<Rightarrow> bytes result" where
  "render_ch_row row oids out = render_row (ch_value_at oids) (tuple_view row) (tuple_len row) out"

definition render_ch_row_cells :: "cell list \<Rightarrow> u32 list \<Rightarrow> bytes \<Rightarrow> bytes result" where
  "render_ch_row_cells row oids out = render_row (ch_value_at oids) (index_list row) (length row) out"

definition render_ch_key :: "bytes list \<Rightarrow> u32 list \<Rightarrow> bytes \<Rightarrow> bytes result" where
  "render_ch_key key oids out = render_key (ch_value_at oids) key out"

text \<open>
  The binary stream: a send-format value becomes text first (\<open>render\<close>, the binary decoder).
\<close>

definition ch_binary_at :: "(u32 \<Rightarrow> bytes \<Rightarrow> bytes result) \<Rightarrow> u32 list \<Rightarrow> nat \<Rightarrow> bytes \<Rightarrow> bytes \<Rightarrow> bytes result" where
  "ch_binary_at render oids i t out =
     and_then (index_list oids i) (\<lambda>oid. and_then (render oid t) (\<lambda>tmp. render_ch_value tmp oid out))"

definition render_ch_row_binary_as_text :: "(u32 \<Rightarrow> bytes \<Rightarrow> bytes result) \<Rightarrow> tuple \<Rightarrow> u32 list \<Rightarrow> bytes \<Rightarrow> bytes result" where
  "render_ch_row_binary_as_text render row oids out =
     render_row (ch_binary_at render oids) (tuple_view row) (tuple_len row) out"

definition render_ch_row_cells_binary :: "(u32 \<Rightarrow> bytes \<Rightarrow> bytes result) \<Rightarrow> cell list \<Rightarrow> u32 list \<Rightarrow> bytes \<Rightarrow> bytes result" where
  "render_ch_row_cells_binary render row oids out =
     render_row (ch_binary_at render oids) (index_list row) (length row) out"

definition render_ch_key_binary :: "(u32 \<Rightarrow> bytes \<Rightarrow> bytes result) \<Rightarrow> bytes list \<Rightarrow> u32 list \<Rightarrow> bytes \<Rightarrow> bytes result" where
  "render_ch_key_binary render key oids out =
     and_then (collect_results (\<lambda>i. and_then (index_list oids i) (\<lambda>oid. and_then (index_list key i) (render oid)))
         [0..<length key])
       (\<lambda>conv. render_ch_key conv oids out)"

text \<open>A ClickHouse SQL literal; \<^verbatim>\<open>str::replace\<close> of one ASCII character works byte by byte.\<close>

definition replace_byte :: "byte \<Rightarrow> bytes \<Rightarrow> bytes \<Rightarrow> bytes" where
  "replace_byte b r s = concat (map (\<lambda>c. if c = b then r else [c]) s)"

definition numeric_byte :: "byte \<Rightarrow> bool" where
  "numeric_byte b \<longleftrightarrow> 0x30 \<le> b \<and> b \<le> 0x39 \<or> b \<in> {0x2D, 0x2B, 0x2E, 0x65, 0x45}"

definition ch_key_literal :: "bytes \<Rightarrow> u32 \<Rightarrow> bytes result" where
  "ch_key_literal v oid =
     (if \<not> utf8_valid v then Inl (Transfer Non_utf8_key)
      else if oid \<in> set NUMERIC_OIDS then
        if \<not> list_all numeric_byte v then Inl (Transfer (Bad_numeric_key v)) else Inr v
      else if oid = BOOL_OID then Inr [bool_digit v]
      else Inr ([0x27] @ replace_byte 0x27 [0x5C, 0x27] (replace_byte 0x5C [0x5C, 0x5C] v) @ [0x27]))"

text \<open>
  The tests on the lossily decoded text are tests on the bytes: an ASCII byte stands for
  itself there, and the replacement character is not ASCII.
\<close>

definition strip_utc_offset :: "bytes \<Rightarrow> bytes result" where
  "strip_utc_offset v =
     (case strip_suffix (ascii ''+00'') v of
        Some s \<Rightarrow> Inr s
      | None \<Rightarrow>
          (case strip_suffix (ascii ''+00:00'') v of
             Some s \<Rightarrow> Inr s
           | None \<Rightarrow>
               if v = ascii ''infinity'' \<or> v = ascii ''-infinity'' \<or> strip_suffix (ascii '' BC'') v \<noteq> None
               then Inl (Transfer (No_spelling v))
               else Inl (Transfer (No_utc_offset v))))"

definition render_my_value :: "bytes \<Rightarrow> u32 \<Rightarrow> bytes \<Rightarrow> bytes result" where
  "render_my_value v oid out =
     (if oid = BYTEA_OID then and_then (bytea_hex v) (\<lambda>h. Inr (out @ h))
      else if oid = BOOL_OID then Inr (out @ [bool_digit v])
      else if oid = TIMESTAMPTZ_OID \<or> oid = TIMETZ_OID then
        and_then (strip_utc_offset v) (\<lambda>s. Inr (tsv_escape s out))
      else Inr (tsv_escape v out))"

definition my_value_at :: "u32 list \<Rightarrow> nat \<Rightarrow> bytes \<Rightarrow> bytes \<Rightarrow> bytes result" where
  "my_value_at oids i t out = and_then (index_list oids i) (\<lambda>oid. render_my_value t oid out)"

definition render_my_row :: "tuple \<Rightarrow> u32 list \<Rightarrow> bytes \<Rightarrow> bytes result" where
  "render_my_row row oids out = render_row (my_value_at oids) (tuple_view row) (tuple_len row) out"

definition render_my_key :: "bytes list \<Rightarrow> u32 list \<Rightarrow> bytes \<Rightarrow> bytes result" where
  "render_my_key key oids out = render_key (my_value_at oids) key out"

section \<open>The probe is exact\<close>

lemma bit_byte_step: "bit (uint (b :: byte) + 256 * k) n = (if n < 8 then bit (uint b) n else bit k (n - 8))"
proof -
  have "uint b < 2 ^ LENGTH(8)" by (rule unsigned_less)
  then have "take_bit 8 (uint b) = uint b" by (intro take_bit_int_eq_self) simp_all
  then have "uint b + 256 * k = concat_bit 8 (uint b) k"
    by (simp add: concat_bit_eq push_bit_eq_mult)
  then show ?thesis by (simp add: bit_concat_bit_iff)
qed

lemma le_int_xor:
  "length bs = length cs \<Longrightarrow> le_int bs XOR le_int cs = le_int (map2 (XOR) bs cs)"
proof (induction bs cs rule: list_induct2)
  case (Cons b bs c cs)
  have "(uint b + 256 * le_int bs) XOR (uint c + 256 * le_int cs) = uint (b XOR c) + 256 * (le_int bs XOR le_int cs)"
    by (rule bit_eqI) (simp only: bit_xor_iff bit_byte_step, simp add: bit_xor_iff unsigned_xor_eq)
  with Cons show ?case by simp
qed simp

text \<open>
  Below the first zero byte nothing borrows, and at it the high bit of the difference is
  set: over byte strings of any length, the probe's bits say whether a byte is zero.
\<close>

lemma bit7_int: "0 \<le> k \<Longrightarrow> k < 256 \<Longrightarrow> bit (k :: int) 7 \<longleftrightarrow> 128 \<le> k"
proof -
  assume k: "0 \<le> k" "k < 256"
  show ?thesis
  proof (cases "k < 128")
    case True
    then show ?thesis using k by (simp add: bit_iff_odd)
  next
    case False
    have "k div 128 = (k - 128) div 128 + 1" using div_add_self2 [of 128 "k - 128"] by simp
    also have "(k - 128) div 128 = 0" using False k by (simp add: div_pos_pos_trivial)
    finally show ?thesis using False by (simp add: bit_iff_odd)
  qed
qed

lemma byte_bounds: "0 \<le> uint (b :: byte)" "uint b < 256"
  using unsigned_less [of b, where ?'a = int] by simp_all

lemma zero_byte_bits:
  "(\<exists>j < length bs. bit (le_int bs - le_int (replicate (length bs) 1)) (8 * j + 7) \<and> \<not> bit (le_int bs) (8 * j + 7))
     \<longleftrightarrow> 0 \<in> set bs"
proof (induction bs)
  case (Cons b bs)
  let ?X = "le_int bs"
  let ?L = "le_int (replicate (length bs) 1)"
  let ?D = "le_int (b # bs) - le_int (replicate (length (b # bs)) 1)"
  show ?case
  proof (cases "b = 0")
    case True
    have D: "?D = uint (255 :: byte) + 256 * (?X - ?L - 1)" using True by simp
    have "bit ?D 7" unfolding D by (simp only: bit_byte_step) (simp add: bit7_int)
    moreover have "\<not> bit (le_int (b # bs)) 7"
      using True by (simp only: le_int.simps bit_byte_step) simp
    ultimately have "bit ?D 7 \<and> \<not> bit (le_int (b # bs)) 7" ..
    then have "\<exists>j < length (b # bs). bit ?D (8 * j + 7) \<and> \<not> bit (le_int (b # bs)) (8 * j + 7)"
      by (intro exI [of _ 0] conjI) (simp_all only: mult_0_right add_0 length_greater_0_conv list.distinct simp_thms)
    with True show ?thesis by (simp only: list.set_intros simp_thms)
  next
    case False
    then have "uint b \<noteq> 0" by (simp add: unsigned_eq_0_iff)
    then have "1 \<le> uint b" using byte_bounds(1) [of b] by linarith
    then have u: "uint (b - 1) = uint b - 1" by (simp add: uint_sub_if')
    have D: "?D = uint (b - 1) + 256 * (?X - ?L)" using u by simp
    have "bit ?D 7 \<longleftrightarrow> bit (uint (b - 1)) 7" unfolding D by (simp only: bit_byte_step) simp
    moreover have "bit (le_int (b # bs)) 7 \<longleftrightarrow> bit (uint b) 7" by (simp only: le_int.simps bit_byte_step) simp
    ultimately have 0: "\<not> (bit ?D 7 \<and> \<not> bit (le_int (b # bs)) 7)"
      using byte_bounds [of b] u \<open>1 \<le> uint b\<close> by (simp add: bit7_int)
    have S: "bit ?D (8 * Suc j + 7) = bit (?X - ?L) (8 * j + 7)" for j
      unfolding D by (simp only: bit_byte_step) (simp add: add.commute)
    have T: "bit (le_int (b # bs)) (8 * Suc j + 7) = bit ?X (8 * j + 7)" for j
      by (simp only: le_int.simps bit_byte_step) (simp add: add.commute)
    let ?P = "\<lambda>j. bit ?D (8 * j + 7) \<and> \<not> bit (le_int (b # bs)) (8 * j + 7)"
    have "(\<exists>j < Suc (length bs). ?P j) \<longleftrightarrow> ?P 0 \<or> (\<exists>j < length bs. ?P (Suc j))" by (rule Ex_less_Suc2)
    also have "?P 0 \<longleftrightarrow> False" using 0 by (simp only: mult_0_right add_0)
    also have "(\<exists>j < length bs. ?P (Suc j)) \<longleftrightarrow> 0 \<in> set bs" unfolding S T by (rule Cons.IH)
    finally show ?thesis using False by (simp only: list.size list.set insert_iff simp_thms add_Suc_right add_0_right) auto
  qed
qed simp


lemma bit_of_int_u64: "bit (word_of_int k :: u64) n \<longleftrightarrow> n < 64 \<and> bit k n"
  by (simp add: bit_word_of_int_iff)

lemma replicate_8: "replicate 8 x = [x, x, x, x, x, x, x, x]"
  by (simp add: numeral_eq_Suc)

lemma highs_int: "highs = word_of_int (le_int (replicate 8 0x80))" "lows = word_of_int (le_int (replicate 8 1))"
  by (simp_all add: highs_def lows_def replicate_8)

lemma bit_le_int: "bit (le_int bs) (8 * j + k) \<longleftrightarrow> j < length bs \<and> bit (bs ! j) k" if "k < 8"
  using that
proof (induction bs arbitrary: j)
  case (Cons b bs)
  show ?case
  proof (cases j)
    case 0
    with Cons.prems show ?thesis by (simp add: bit_byte_step bit_uint_iff)
  next
    case (Suc i)
    have "bit (le_int (b # bs)) (8 * Suc i + k) = bit (le_int bs) (8 * i + k)"
      unfolding le_int.simps by (simp only: bit_byte_step) (simp add: algebra_simps)
    with Cons Suc show ?thesis by simp
  qed
qed simp

lemma nat_split8: "(\<exists>n < 64. P n) \<longleftrightarrow> (\<exists>j < 8. \<exists>k < 8. P (8 * j + k :: nat))"
proof
  assume "\<exists>n < 64. P n"
  then obtain n where n: "n < 64" "P n" by blast
  then have "n div 8 < 8" "n mod 8 < 8" "P (8 * (n div 8) + n mod 8)" by auto
  then show "\<exists>j < 8. \<exists>k < 8. P (8 * j + k)" by blast
next
  assume "\<exists>j < 8. \<exists>k < 8. P (8 * j + k)"
  then obtain j k where "j < 8" "k < 8" "P (8 * j + k)" by blast
  then show "\<exists>n < 64. P n" by (intro exI [of _ "8 * j + k"]) simp
qed


lemma high_bits: "bit highs (8 * j + k) \<longleftrightarrow> j < 8 \<and> k = 7" if "k < 8"
proof -
  have "bit (0x80 :: byte) k \<longleftrightarrow> k = 7" using that by (auto simp: numeral_eq_Suc less_Suc_eq)
  with that show ?thesis
    by (auto simp: highs_int(1) bit_of_int_u64 bit_le_int simp del: le_int.simps)
qed

text \<open>One needle of the probe finds exactly a word with a zero byte.\<close>

lemma zero_byte_word:
  assumes "length bs = 8"
  shows "(from_le_bytes bs - lows) AND NOT (from_le_bytes bs) AND highs \<noteq> 0 \<longleftrightarrow> 0 \<in> set bs" (is "?w \<noteq> 0 \<longleftrightarrow> _")
proof -
  let ?D = "le_int bs - le_int (replicate 8 1)"
  have sub: "from_le_bytes bs - lows = word_of_int ?D" by (simp add: from_le_bytes_def highs_int(2) del: le_int.simps)
  have "?w \<noteq> 0 \<longleftrightarrow> (\<exists>n < 64. bit ?w n)"
    by (auto simp: bit_eq_iff dest: bit_imp_le_length)
  also have "\<dots> \<longleftrightarrow> (\<exists>j < 8. \<exists>k < 8. bit ?w (8 * j + k))" by (rule nat_split8)
  also have "\<dots> \<longleftrightarrow> (\<exists>j < 8. bit ?D (8 * j + 7) \<and> \<not> bit (le_int bs) (8 * j + 7))"
  proof -
    have w: "bit ?w (8 * j + k) \<longleftrightarrow> k = 7 \<and> bit ?D (8 * j + 7) \<and> \<not> bit (le_int bs) (8 * j + 7)" if "j < 8" "k < 8" for j k
    proof -
      have "bit (from_le_bytes bs - lows) (8 * j + k) \<longleftrightarrow> bit ?D (8 * j + k)"
        unfolding sub bit_of_int_u64 using that by auto
      moreover have "bit (from_le_bytes bs) (8 * j + k) \<longleftrightarrow> bit (le_int bs) (8 * j + k)"
        unfolding from_le_bytes_def bit_of_int_u64 using that by auto
      ultimately show ?thesis using that by (auto simp: bit_and_iff bit_not_iff high_bits)
    qed
    show ?thesis (is "?A \<longleftrightarrow> ?B")
    proof
      assume ?A
      then obtain j k where "j < 8" "k < 8" "bit ?w (8 * j + k)" by blast
      with w [of j k] show ?B by blast
    next
      assume ?B
      then obtain j where "j < 8" "bit ?D (8 * j + 7) \<and> \<not> bit (le_int bs) (8 * j + 7)" by blast
      with w [of j 7] have "bit ?w (8 * j + 7)" by simp
      with \<open>j < 8\<close> show ?A by (intro exI [of _ j] exI [of _ 7] conjI) simp_all
    qed
  qed
  also have "\<dots> \<longleftrightarrow> 0 \<in> set bs" using zero_byte_bits [of bs] assms by simp
  finally show ?thesis .
qed

lemma from_le_bytes_xor:
  assumes "length bs = 8"
  shows "from_le_bytes bs XOR (lows * word_of_int (uint c)) = from_le_bytes (map (\<lambda>b. b XOR c) bs)"
proof -
  have "lows * word_of_int (uint c) = word_of_int (le_int (replicate 8 c))"
    by (simp add: highs_int(2) replicate_8 algebra_simps flip: wi_hom_mult wi_hom_add)
  then have "from_le_bytes bs XOR (lows * word_of_int (uint c)) = word_of_int (le_int bs XOR le_int (replicate 8 c))"
    by (simp only: from_le_bytes_def wi_hom_syms) (simp add: bit_eq_iff bit_xor_iff bit_of_int_u64)
  also have "le_int bs XOR le_int (replicate 8 c) = le_int (map2 (XOR) bs (replicate 8 c))"
    by (rule le_int_xor) (simp add: assms)
  also have "map2 (XOR) bs (replicate 8 c) = map (\<lambda>b. b XOR c) bs"
    by (rule nth_equalityI) (simp_all add: assms)
  finally show ?thesis by (simp only: from_le_bytes_def)
qed


lemma byte_xor_0: "(b :: byte) XOR c = 0 \<longleftrightarrow> b = c"
  by (auto simp: bit_eq_iff bit_xor_iff)

lemma needle_word:
  assumes "length bs = 8" "k = word_of_int (uint c)"
  shows "((from_le_bytes bs XOR (lows * k)) - lows) AND NOT (from_le_bytes bs XOR (lows * k)) AND highs = 0 \<longleftrightarrow> c \<notin> set bs"
proof -
  have "0 \<in> set (map (\<lambda>b. b XOR c) bs) \<longleftrightarrow> c \<in> set bs"
    by (auto simp: byte_xor_0 image_iff)
  with zero_byte_word [of "map (\<lambda>b. b XOR c) bs"] assms show ?thesis
    by (simp only: from_le_bytes_xor length_map) blast
qed

lemma or_and_0: "((x :: u64) OR y) AND h = 0 \<longleftrightarrow> x AND h = 0 \<and> y AND h = 0"
  by (simp add: bit.conj_disj_distrib2 or_eq_0_iff)

lemma word_has_special_bytes:
  assumes "length bs = 8"
  shows "word_has_special (from_le_bytes bs) \<longleftrightarrow> (\<exists>b \<in> set bs. is_special b)"
proof -
  have "\<not> word_has_special (from_le_bytes bs) \<longleftrightarrow> 0x5C \<notin> set bs \<and> 0x09 \<notin> set bs \<and> 0x0A \<notin> set bs \<and> 0x0D \<notin> set bs"
    unfolding word_has_special_def Let_def not_not or_and_0 and.assoc
    using needle_word [OF assms, of "0x5C" "0x5C"] needle_word [OF assms, of "0x09" "0x09"]
      needle_word [OF assms, of "0x0A" "0x0A"] needle_word [OF assms, of "0x0D" "0x0D"]
    by (simp add: and.assoc)
  then show ?thesis by (auto simp: is_special_def)
qed


section \<open>The loops are byte by byte\<close>

lemma skip_bytes_clean:
  assumes "i \<le> length v"
  shows "i \<le> n \<Longrightarrow> n < skip_bytes p v i \<Longrightarrow> \<not> p (v ! n)"
    and "skip_bytes p v i < length v \<Longrightarrow> p (v ! skip_bytes p v i)"
  using assms
proof (induction p v i rule: skip_bytes.induct)
  case (1 p v i)
  { case 1
    then show ?case using "1.IH"(1) skip_bytes.simps [of p v i] by (cases "n = i") (auto split: if_splits)
  next
    case 2
    then show ?case using "1.IH"(2) skip_bytes.simps [of p v i] by (auto split: if_splits)
  }
qed

lemma skip_words_clean:
  "i \<le> length v \<Longrightarrow> \<forall>n. i \<le> n \<longrightarrow> n < skip_words v i \<longrightarrow> \<not> is_special (v ! n)"
proof (induction v i rule: skip_words.induct)
  case (1 v i)
  let ?bs = "take 8 (drop i v)"
  show ?case
  proof (cases "i + 8 \<le> length v \<and> \<not> word_has_special (from_le_bytes ?bs)")
    case True
    then have "length ?bs = 8" by (auto simp: min_def)
    with word_has_special_bytes [OF this] True have clean: "\<forall>b \<in> set ?bs. \<not> is_special b" by simp
    have "\<not> is_special (v ! n)" if "i \<le> n" "n < i + 8" for n
    proof -
      have "?bs ! (n - i) = v ! n" "n - i < length ?bs" using that True by auto
      with clean show ?thesis by (metis nth_mem)
    qed
    with 1 True show ?thesis by (subst skip_words.simps) (simp, meson not_le_imp_less)
  next
    case False
    then have "skip_words v i = i" by (subst skip_words.simps) auto
    then show ?thesis by simp
  qed
qed

text \<open>The reference: each special byte on its own becomes a backslash and its code.\<close>

definition escape_bytes :: "(byte \<Rightarrow> bool) \<Rightarrow> (byte \<Rightarrow> byte) \<Rightarrow> bytes \<Rightarrow> bytes" where
  "escape_bytes special enc v = concat (map (\<lambda>b. if special b then [0x5C, enc b] else [b]) v)"

lemma escape_clean: "\<forall>b \<in> set v. \<not> special b \<Longrightarrow> escape_bytes special enc v = v"
  by (induction v) (auto simp: escape_bytes_def)

lemma escape_append: "escape_bytes special enc (v @ w) = escape_bytes special enc v @ escape_bytes special enc w"
  by (simp add: escape_bytes_def)

text \<open>One turn of an escaping loop: a clean run, then the end or one special byte.\<close>

lemma escape_turn:
  assumes "i \<le> j" "j \<le> length v" "\<And>n. i \<le> n \<Longrightarrow> n < j \<Longrightarrow> \<not> special (v ! n)" "j < length v \<Longrightarrow> special (v ! j)"
  shows "escape_bytes special enc (drop i v) = take (j - i) (drop i v) @
     (if j = length v then [] else [0x5C, enc (v ! j)] @ escape_bytes special enc (drop (j + 1) v))"
proof -
  have split: "drop i v = take (j - i) (drop i v) @ drop j v"
    using assms(1) by (metis append_take_drop_id drop_drop le_add_diff_inverse2)
  have "\<not> special b" if b: "b \<in> set (take (j - i) (drop i v))" for b
  proof -
    from b obtain k where "k < j - i" "k < length v - i" "b = v ! (i + k)"
      by (auto simp: in_set_conv_nth)
    with assms(3) [of "i + k"] show ?thesis by simp
  qed
  then have "escape_bytes special enc (take (j - i) (drop i v)) = take (j - i) (drop i v)"
    by (intro escape_clean) blast
  moreover have "escape_bytes special enc (drop j v) =
      (if j = length v then [] else [0x5C, enc (v ! j)] @ escape_bytes special enc (drop (j + 1) v))"
  proof (cases "j = length v")
    case False
    then have "j < length v" using assms(2) by simp
    with assms(4) Cons_nth_drop_Suc [OF this, symmetric] False show ?thesis by (simp add: escape_bytes_def)
  qed (simp add: escape_bytes_def)
  ultimately show ?thesis by (subst split) (simp only: escape_append)
qed

lemma copy_loop_escapes: "i \<le> length v \<Longrightarrow> copy_loop v i out = out @ escape_bytes is_special copy_code (drop i v)"
proof (induction v i out rule: copy_loop.induct)
  case (1 v i out)
  show ?case
  proof (cases "i < length v")
    case True
    define j where "j = skip_bytes is_special v (skip_words v i)"
    note w = skip_words_bounds [OF "1.prems"] skip_words_clean [OF "1.prems"]
    note b = skip_bytes_bounds [of "skip_words v i" v is_special] skip_bytes_clean [where p = is_special and v = v and i = "skip_words v i"]
    have j: "i \<le> j" "j \<le> length v" using w b by (auto simp: j_def)
    have clean: "\<not> is_special (v ! n)" if "i \<le> n" "n < j" for n
      using that w b by (cases "n < skip_words v i") (auto simp: j_def)
    have "j < length v \<Longrightarrow> is_special (v ! j)" using w b by (auto simp: j_def)
    note turn = escape_turn [where special = is_special and enc = copy_code, OF j clean this]
    have "copy_loop v i out = (if j = length v then out @ take (j - i) (drop i v)
        else copy_loop v (j + 1) ((out @ take (j - i) (drop i v)) @ [0x5C, copy_code (v ! j)]))"
      using True by (subst copy_loop.simps) (simp add: Let_def j_def)
    with "1.IH" [OF True j_def refl] j turn show ?thesis by (cases "j = length v") auto
  next
    case False
    with "1.prems" show ?thesis by (subst copy_loop.simps) (simp add: escape_bytes_def)
  qed
qed

lemma tsv_loop_escapes: "i \<le> length v \<Longrightarrow> tsv_loop v i out = out @ escape_bytes my_special my_code (drop i v)"
proof (induction v i out rule: tsv_loop.induct)
  case (1 v i out)
  show ?case
  proof (cases "i < length v")
    case True
    define j where "j = skip_bytes my_special v i"
    note b = skip_bytes_bounds [OF "1.prems", of my_special] skip_bytes_clean [where p = my_special, OF "1.prems"]
    have j: "i \<le> j" "j \<le> length v" using b by (auto simp: j_def)
    have clean: "\<not> my_special (v ! n)" if "i \<le> n" "n < j" for n using that b by (auto simp: j_def)
    have "j < length v \<Longrightarrow> my_special (v ! j)" using b by (auto simp: j_def)
    note turn = escape_turn [where special = my_special and enc = my_code, OF j clean this]
    have "tsv_loop v i out = (if j = length v then out @ take (j - i) (drop i v)
        else tsv_loop v (j + 1) ((out @ take (j - i) (drop i v)) @ [0x5C, my_code (v ! j)]))"
      using True by (subst tsv_loop.simps) (simp add: Let_def j_def)
    with "1.IH" [OF True j_def refl] j turn show ?thesis by (cases "j = length v") auto
  next
    case False
    with "1.prems" show ?thesis by (subst tsv_loop.simps) (simp add: escape_bytes_def)
  qed
qed

section \<open>The contract of an escaping dialect\<close>

text \<open>
  A dialect escapes the backslash and the two delimiters, and never with a delimiter or with
  the \<^verbatim>\<open>N\<close> of the NULL marker; a reader of it undoes each code.
\<close>

locale escape_alphabet =
  fixes special :: "byte \<Rightarrow> bool" and enc :: "byte \<Rightarrow> byte"
  assumes special_marks: "special 0x5C" "special 0x09" "special 0x0A"
    and enc_clean: "special b \<Longrightarrow> enc b \<noteq> 0x09 \<and> enc b \<noteq> 0x0A \<and> enc b \<noteq> 0x4E"
begin

lemma escaped_no_delimiter: "0x09 \<notin> set (escape_bytes special enc v) \<and> 0x0A \<notin> set (escape_bytes special enc v)"
  using special_marks enc_clean by (induction v) (auto simp: escape_bytes_def split: if_splits)

lemma escaped_not_null: "escape_bytes special enc v \<noteq> [0x5C, 0x4E]"
proof (cases v)
  case (Cons b bs)
  then show ?thesis
    using special_marks(1) enc_clean [of b] by (auto simp: escape_bytes_def split: if_splits)
qed (simp add: escape_bytes_def)

end

locale escape_dialect = escape_alphabet +
  fixes dec :: "byte \<Rightarrow> bytes"
  assumes dec_enc: "special b \<Longrightarrow> dec (enc b) = [b]"
begin

lemma unescape_escaped: "unescape_bytes dec (escape_bytes special enc v @ w) = v @ unescape_bytes dec w"
proof (induction v)
  case (Cons b v)
  show ?case
  proof (cases "special b")
    case True
    with Cons dec_enc [OF True] show ?thesis by (simp add: escape_bytes_def)
  next
    case False
    then have "b \<noteq> 0x5C" using special_marks(1) by auto
    then have "unescape_bytes dec (b # s) = b # unescape_bytes dec s" for s by (cases s) simp_all
    with Cons False show ?thesis by (simp add: escape_bytes_def)
  qed
qed (simp add: escape_bytes_def)

lemma unescape_escape: "unescape_bytes dec (escape_bytes special enc v) = v"
  using unescape_escaped [of v "[]"] by simp

end

interpretation load_data: escape_alphabet my_special my_code
  by unfold_locales (auto simp: my_special_def my_code_def)

interpretation tab_separated: escape_dialect is_special copy_code ch_unescape
  by unfold_locales (auto simp: is_special_def copy_code_def ch_unescape_def)

interpretation copy_text: escape_dialect is_special copy_code "\<lambda>c. [pg_unescape c]"
  by unfold_locales (auto simp: is_special_def copy_code_def pg_unescape_def)

lemma copy_escape_bytes: "copy_escape v out = out @ escape_bytes is_special copy_code v"
  by (simp add: copy_escape_def copy_loop_escapes)

lemma tsv_escape_bytes: "tsv_escape v out = out @ escape_bytes my_special my_code v"
  by (simp add: tsv_escape_def tsv_loop_escapes)

lemma unescape_at_bytes:
  "i \<le> length v \<Longrightarrow> unescape_at v i out = out @ unescape_bytes (\<lambda>c. [pg_unescape c]) (drop i v)"
proof (induction v i out rule: unescape_at.induct)
  case (1 v i out)
  let ?u = "unescape_bytes (\<lambda>c. [pg_unescape c])"
  show ?case
  proof (cases "i < length v")
    case True
    define j where "j = skip_bytes (\<lambda>b. b = 0x5C) v i"
    note b = skip_bytes_bounds [OF "1.prems", of "\<lambda>b. b = 0x5C"]
      skip_bytes_clean [where p = "\<lambda>b. b = 0x5C", OF "1.prems"]
    have j: "i \<le> j" "j \<le> length v" using b by (auto simp: j_def)
    have at: "j < length v \<Longrightarrow> v ! j = 0x5C" using b by (auto simp: j_def)
    have clean: "\<forall>x \<in> set (take (j - i) (drop i v)). x \<noteq> 0x5C"
      using b(2) by (auto simp: in_set_conv_nth j_def)
    have "?u (xs @ ys) = xs @ ?u ys" if "\<forall>x \<in> set xs. x \<noteq> 0x5C" for xs ys
      using that
    proof (induction xs)
      case (Cons x xs)
      then show ?case by (cases "xs @ ys") auto
    qed simp
    from this [OF clean] have run: "?u (take (j - i) (drop i v) @ drop j v) = take (j - i) (drop i v) @ ?u (drop j v)" .
    moreover have "take (j - i) (drop i v) @ drop j v = drop i v"
      using j(1) by (metis append_take_drop_id drop_drop le_add_diff_inverse2)
    ultimately have u: "?u (drop i v) = take (j - i) (drop i v) @ ?u (drop j v)" by simp
    have eq: "unescape_at v i out =
       (let out = out @ take (j - i) (drop i v)
        in if length v \<le> j then out
           else if j + 1 < length v then unescape_at v (j + 2) (out @ [pg_unescape (v ! (j + 1))])
           else unescape_at v (j + 1) (out @ [0x5C]))"
      using True by (subst unescape_at.simps) (simp add: Let_def j_def)
    consider "j = length v" | "j + 1 = length v" | "j + 1 < length v" using j by linarith
    then show ?thesis
    proof cases
      case 1
      then show ?thesis by (simp add: eq u)
    next
      case 2
      then have "drop j v = [0x5C]" using at Cons_nth_drop_Suc [of j v] by simp
      with 2 "1.IH"(2) [OF True j_def refl] show ?thesis by (simp add: eq u)
    next
      case 3
      then have "drop j v = 0x5C # v ! (j + 1) # drop (j + 2) v"
        using at Cons_nth_drop_Suc [of j v] Cons_nth_drop_Suc [of "j + 1" v] by simp
      with 3 "1.IH"(1) [OF True j_def refl] show ?thesis by (simp add: eq u)
    qed
  next
    case False
    with "1.prems" show ?thesis by (subst unescape_at.simps) simp
  qed
qed

text \<open>
  C12: The run-copying escape with its eight-byte probe is the byte-at-a-time one: for every
  value and every output so far, exactly the backslash, tab, newline and carriage return
  bytes are replaced by a backslash and their letter, and every other byte is copied.
\<close>

theorem copy_escape_exact:
  "copy_escape v out = out @ concat (map (\<lambda>b. if is_special b then [0x5C, copy_code b] else [b]) v)"
  by (simp add: copy_escape_bytes escape_bytes_def)

text \<open>
  What the escape writes reads back: neither delimiter occurs in it, it is never the
  NULL marker, and both readers (ClickHouse's output dialect and COPY text) recover the
  value byte for byte; the \<^verbatim>\<open>LOAD DATA\<close> escape keeps the delimiters and the marker out too.
\<close>

lemma escape_roundtrip:
  "tsv_unescape (copy_escape v []) = Some v \<and> unescape_into (copy_escape v []) [] = v \<and>
   0x09 \<notin> set (copy_escape v []) \<and> 0x0A \<notin> set (copy_escape v []) \<and>
   0x09 \<notin> set (tsv_escape v []) \<and> 0x0A \<notin> set (tsv_escape v []) \<and> tsv_escape v [] \<noteq> [0x5C, 0x4E]"
  by (simp add: copy_escape_bytes tsv_escape_bytes tsv_unescape_def unescape_into_def unescape_at_bytes
      tab_separated.unescape_escape copy_text.unescape_escape tab_separated.escaped_no_delimiter
      tab_separated.escaped_not_null load_data.escaped_no_delimiter load_data.escaped_not_null)

section \<open>Lines and fields\<close>

text \<open>Specification vocabulary: fields joined by a delimiter, and a line split at it.\<close>

fun join_fields :: "byte \<Rightarrow> bytes list \<Rightarrow> bytes" where
  "join_fields d [] = []"
| "join_fields d [f] = f"
| "join_fields d (f # g # fs) = f @ d # join_fields d (g # fs)"

fun split_fields :: "byte \<Rightarrow> bytes \<Rightarrow> bytes list" where
  "split_fields d [] = [[]]"
| "split_fields d (b # s) =
     (if b = d then [] # split_fields d s
      else case split_fields d s of [] \<Rightarrow> [[b]] | f # fs \<Rightarrow> (b # f) # fs)"

lemma join_snoc: "join_fields d (fs @ [f]) = (if fs = [] then f else join_fields d fs @ d # f)"
  by (induction d fs rule: join_fields.induct) auto

lemma split_fields_append: "d \<notin> set f \<Longrightarrow> split_fields d (f @ d # s) = f # split_fields d s"
  by (induction f) auto

lemma split_fields_single: "d \<notin> set f \<Longrightarrow> split_fields d f = [f]"
  by (induction f) auto

lemma split_join: "fs \<noteq> [] \<Longrightarrow> \<forall>f \<in> set fs. d \<notin> set f \<Longrightarrow> split_fields d (join_fields d fs) = fs"
  by (induction d fs rule: join_fields.induct) (simp_all add: split_fields_append split_fields_single)

lemma set_join: "set (join_fields d fs) \<subseteq> insert d (\<Union> (set ` set fs))"
  by (induction d fs rule: join_fields.induct) auto

text \<open>A cell's field, for a renderer that spells a value by \<open>sp\<close>, and the value a field stands for.\<close>

definition cell_field :: "(bytes \<Rightarrow> bytes) \<Rightarrow> cell \<Rightarrow> bytes" where
  "cell_field sp c = (case c of Null \<Rightarrow> [0x5C, 0x4E] | Text t \<Rightarrow> sp t | UnchangedToast \<Rightarrow> [])"

definition cell_value :: "cell \<Rightarrow> bytes option" where
  "cell_value c = (case c of Text t \<Rightarrow> Some t | _ \<Rightarrow> None)"

lemma render_row_line:
  assumes "\<And>i. i < n \<Longrightarrow> view i = Inr (cs ! i) \<and> cs ! i \<noteq> UnchangedToast"
    and "\<And>i t out. i < n \<Longrightarrow> cs ! i = Text t \<Longrightarrow> val i t out = Inr (out @ sp i t)"
  shows "render_row val view n out = Inr (out @ join_fields 0x09 (map (\<lambda>i. cell_field (sp i) (cs ! i)) [0..<n]) @ [0x0A])"
proof -
  let ?step = "\<lambda>out i. let out = (if i > 0 then out @ [0x09] else out)
         in and_then (view i) (\<lambda>c. case c of Null \<Rightarrow> Inr (out @ [0x5C, 0x4E]) | Text t \<Rightarrow> val i t out
              | UnchangedToast \<Rightarrow> Inl (Transfer Toast_in_bulk))"
  let ?f = "\<lambda>i. cell_field (sp i) (cs ! i)"
  have step: "?step out i = Inr (out @ (if i > 0 then [0x09] else []) @ ?f i)" if "i < n" for out i
    using assms(1) [OF that] assms(2) [OF that]
    by (cases "cs ! i") (auto simp: cell_field_def Let_def)
  have "fold_results ?step out [0..<k] = Inr (out @ join_fields 0x09 (map ?f [0..<k]))" if "k \<le> n" for k
    using that
  proof (induction k)
    case (Suc k)
    have up: "[0..<Suc k] = [0..<k] @ [k]" by simp
    from Suc have "fold_results ?step out [0..<Suc k] = ?step (out @ join_fields 0x09 (map ?f [0..<k])) k"
      by (simp only: up fold_results_snoc) simp
    also have "\<dots> = Inr (out @ join_fields 0x09 (map ?f [0..<Suc k]))"
      using Suc.prems by (simp only: step up map_append list.map join_snoc) auto
    finally show ?case .
  qed simp
  from this [of n] show ?thesis by (simp add: render_row_def)
qed

text \<open>A line is read back when every field is clean of delimiters.\<close>

lemma line_reads_back:
  assumes "n > 0" "\<And>i. i < n \<Longrightarrow> 0x09 \<notin> set (f i) \<and> 0x0A \<notin> set (f i) \<and> read (f i) = g i"
  shows "0x0A \<notin> set (join_fields 0x09 (map f [0..<n])) \<and> map read (split_fields 0x09 (join_fields 0x09 (map f [0..<n]))) = map g [0..<n]"
proof -
  have "0x0A \<notin> insert 0x09 (\<Union> (set ` set (map f [0..<n])))" using assms(2) by auto
  moreover have "split_fields 0x09 (join_fields 0x09 (map f [0..<n])) = map f [0..<n]"
    using assms by (intro split_join) auto
  ultimately show ?thesis
    using set_join [of "0x09" "map f [0..<n]"] assms(2) by auto
qed

lemma escaped_field_reads:
  assumes "c \<noteq> UnchangedToast"
  shows "0x09 \<notin> set (cell_field (\<lambda>t. copy_escape t []) c) \<and> 0x0A \<notin> set (cell_field (\<lambda>t. copy_escape t []) c)
    \<and> tsv_unescape (cell_field (\<lambda>t. copy_escape t []) c) = cell_value c"
  using assms tab_separated.escaped_no_delimiter
  by (cases c) (simp_all add: cell_field_def cell_value_def copy_escape_bytes tsv_unescape_def
      tab_separated.unescape_escape tab_separated.escaped_not_null)

lemma toast_free_view:
  assumes "tuple_wf row" "\<not> has_toast row" "i < tuple_len row"
  shows "tuple_view row i = Inr (cells_of row ! i) \<and> cells_of row ! i \<noteq> UnchangedToast"
  using assms by (metis has_toast_iff length_cells_of nth_mem tuple_len_def tuple_view_wf)


definition sample_row :: tuple where
  "sample_row = \<lparr>frame = [0x5C, 0x4E, 0x09, 0x61, 0x37], cells = [RText 0 2, RNull, RText 2 2, RText 4 1]\<rparr>"

lemma sample_row_facts:
  "tuple_wf sample_row" "\<not> has_toast sample_row" "tuple_len sample_row = 4"
  "cells_of sample_row = [Text [0x5C, 0x4E], Null, Text [0x09, 0x61], Text [0x37]]"
  by (simp_all add: sample_row_def tuple_wf_def cellr_wf_def has_toast_def tuple_len_def cells_of_def cell_of_def)


definition ch_value :: "u32 \<Rightarrow> cell \<Rightarrow> bytes option" where
  "ch_value oid c = (if oid = BOOL_OID then map_option (\<lambda>t. [bool_digit t]) (cell_value c) else cell_value c)"

definition plain_clean :: "u32 \<Rightarrow> cell \<Rightarrow> bool" where
  "plain_clean oid c = (case c of Text t \<Rightarrow> oid \<in> set plain_oids \<longrightarrow> list_all (\<lambda>b. \<not> is_special b) t | _ \<Rightarrow> True)"

definition ch_spelling :: "u32 \<Rightarrow> bytes \<Rightarrow> bytes" where
  "ch_spelling oid t = (if oid = BOOL_OID then [bool_digit t] else if oid \<in> set plain_oids then t else copy_escape t [])"

lemma render_ch_value_spelling: "render_ch_value t oid out = Inr (out @ ch_spelling oid t)"
  by (simp add: render_ch_value_def ch_spelling_def copy_escape_bytes)

lemma ch_field_reads:
  assumes "c \<noteq> UnchangedToast" "plain_clean oid c"
  shows "0x09 \<notin> set (cell_field (ch_spelling oid) c) \<and> 0x0A \<notin> set (cell_field (ch_spelling oid) c)
    \<and> tsv_unescape (cell_field (ch_spelling oid) c) = ch_value oid c"
proof (cases c)
  case (Text t)
  consider "oid = BOOL_OID" | "oid \<noteq> BOOL_OID" "oid \<in> set plain_oids" | "oid \<noteq> BOOL_OID" "oid \<notin> set plain_oids" by blast
  then show ?thesis
  proof cases
    case 1
    then show ?thesis using Text
      by (simp add: cell_field_def ch_spelling_def bool_digit_def ch_value_def cell_value_def tsv_unescape_def)
  next
    case 2
    then have "escape_bytes is_special copy_code t = t"
      using assms(2) Text by (intro escape_clean) (simp add: plain_clean_def list_all_iff)
    with 2 Text escaped_field_reads [OF assms(1)] show ?thesis
      by (simp add: cell_field_def ch_spelling_def ch_value_def copy_escape_bytes)
  next
    case 3
    with Text escaped_field_reads [OF assms(1)] show ?thesis
      by (simp add: cell_field_def ch_spelling_def ch_value_def)
  qed
qed (use assms in \<open>simp_all add: cell_field_def ch_value_def cell_value_def tsv_unescape_def\<close>)

text \<open>
  A ClickHouse row carries the row as well: where the values of the columns copied
  without scanning (numbers, dates, times, uuids) hold no byte the format escapes, the row
  renders to one line whose fields read back as the cells, booleans as their digit.
\<close>

lemma ch_row_roundtrip:
  assumes "tuple_wf row" "\<not> has_toast row" "tuple_len row > 0" "length oids = tuple_len row"
    and "\<forall>i < tuple_len row. plain_clean (oids ! i) (cells_of row ! i)"
  shows "\<exists>line. render_ch_row row oids out = Inr (out @ line @ [0x0A]) \<and> 0x0A \<notin> set line \<and>
     map tsv_unescape (split_fields 0x09 line) = map2 ch_value oids (cells_of row)"
proof -
  let ?f = "\<lambda>i. cell_field (ch_spelling (oids ! i)) (cells_of row ! i)"
  have "render_ch_row row oids out = Inr (out @ join_fields 0x09 (map ?f [0..<tuple_len row]) @ [0x0A])"
    unfolding render_ch_row_def
    by (rule render_row_line) (simp_all add: toast_free_view assms ch_value_at_def render_ch_value_spelling)
  moreover have "map (\<lambda>i. ch_value (oids ! i) (cells_of row ! i)) [0..<tuple_len row] = map2 ch_value oids (cells_of row)"
    by (rule nth_equalityI) (simp_all add: assms tuple_len_def)
  moreover have "0x0A \<notin> set (join_fields 0x09 (map ?f [0..<tuple_len row])) \<and>
      map tsv_unescape (split_fields 0x09 (join_fields 0x09 (map ?f [0..<tuple_len row]))) =
      map (\<lambda>i. ch_value (oids ! i) (cells_of row ! i)) [0..<tuple_len row]"
  proof (rule line_reads_back)
    fix i assume i: "i < tuple_len row"
    show "0x09 \<notin> set (?f i) \<and> 0x0A \<notin> set (?f i) \<and> tsv_unescape (?f i) = ch_value (oids ! i) (cells_of row ! i)"
      by (rule ch_field_reads) (use i assms(5) toast_free_view [OF assms(1,2)] in auto)
  qed (rule assms(3))
  ultimately show ?thesis by (intro exI [of _ "join_fields 0x09 (map ?f [0..<tuple_len row])"]) simp
qed

section \<open>Key literals\<close>

text \<open>
  A reader of quoted literals, after the opening quote: a backslash takes the next byte
  literally, the first bare quote ends the literal; what follows is left.
\<close>

fun read_literal :: "bytes \<Rightarrow> (bytes \<times> bytes) option" where
  "read_literal [] = None"
| "read_literal [b] = (if b = 0x27 then Some ([], []) else None)"
| "read_literal (b # c # s) =
     (if b = 0x27 then Some ([], c # s)
      else if b = 0x5C then map_option (\<lambda>(v, rest). (c # v, rest)) (read_literal s)
      else map_option (\<lambda>(v, rest). (b # v, rest)) (read_literal (c # s)))"

definition quote_bytes :: "bytes \<Rightarrow> bytes" where
  "quote_bytes v = concat (map (\<lambda>b. if b = 0x5C \<or> b = 0x27 then [0x5C, b] else [b]) v)"

lemma replace_quotes: "replace_byte 0x27 [0x5C, 0x27] (replace_byte 0x5C [0x5C, 0x5C] v) = quote_bytes v"
  by (induction v) (auto simp: replace_byte_def quote_bytes_def)

lemma read_quoted: "read_literal (quote_bytes v @ 0x27 # rest) = Some (v, rest)"
proof (induction v)
  case Nil
  then show ?case by (cases rest) (simp_all add: quote_bytes_def)
next
  case (Cons b v)
  show ?case
  proof (cases "b = 0x5C \<or> b = 0x27")
    case True
    with Cons show ?thesis by (auto simp: quote_bytes_def)
  next
    case False
    then have "read_literal (b # s) = map_option (\<lambda>(v, rest). (b # v, rest)) (read_literal s)" for s
      by (cases s) auto
    with Cons False show ?thesis by (simp add: quote_bytes_def)
  qed
qed



section \<open>Refusals\<close>

lemma render_row_toast:
  assumes "\<And>i. i < n \<Longrightarrow> view i = Inr (cs ! i)" "i < n" "cs ! i = UnchangedToast"
  shows "\<exists>e. render_row val view n out = Inl e"
proof -
  let ?step = "\<lambda>out i. let out = (if i > 0 then out @ [0x09] else out)
         in and_then (view i) (\<lambda>c. case c of Null \<Rightarrow> Inr (out @ [0x5C, 0x4E]) | Text t \<Rightarrow> val i t out
              | UnchangedToast \<Rightarrow> Inl (Transfer Toast_in_bulk))"
  have up: "[0..<n] = [0..<i] @ i # [Suc i..<n]" using assms(2) 
    using upt_add_eq_append [of 0 i "n - i"] by (simp add: upt_conv_Cons)
  have "fold_results ?step out [0..<n] \<noteq> Inr out'" for out'
    using assms by (auto simp: up fold_results_append result_simps Let_def)
  then obtain e where "fold_results ?step out [0..<n] = Inl e"
    by (cases "fold_results ?step out [0..<n]") auto
  then show ?thesis by (simp add: render_row_def)
qed



end
