(* ===== verification/Pgbindec.thy ===== *)
theory Pgbindec
  imports Rowtext "HOL-Library.Signed_Division"
begin

text \<open>
  The text of binary values (\<^verbatim>\<open>wire/pgbindec.rs\<close>): a value in a type's send format becomes
  the bytes its output function would have printed. Every function here gives the bytes the
  source appends to its buffer. The integer and float printers are third-party crates and
  are fields of the record \<open>number_text\<close>; floats are carried as their bit patterns, which the
  widening to \<^verbatim>\<open>f64\<close> and back in the source keeps. The civil calendar is proved against a
  calendar of year and month lengths, and a row rendered from a binary stream is proved to
  read back, which rests on the fact that the types copied without escaping never print a
  byte that needs it.
\<close>

record number_text =
  itoa :: "int \<Rightarrow> bytes"
  ryu32 :: "u32 \<Rightarrow> bytes"
  ryu64 :: "u64 \<Rightarrow> bytes"

section \<open>Fixed-size values\<close>

definition RENDERED_OIDS :: "u32 list" where
  "RENDERED_OIDS =
     [16, 21, 23, 20, 26, 28, 29, 700, 701, 1700, 25, 1043, 1042, 19, 114, 142, 705, 17, 3802, 2950,
      1082, 1083, 1114, 1184, 1266]"

definition renders :: "u32 \<Rightarrow> bool" where
  "renders oid = (oid \<in> set RENDERED_OIDS)"

definition short :: "u32 \<Rightarrow> error" where
  "short oid = Transfer (Short_value oid)"

definition fixed :: "nat \<Rightarrow> bytes \<Rightarrow> u32 \<Rightarrow> bytes result" where
  "fixed n raw oid = (if length raw = n then Inr raw else Inl (short oid))"

definition be_i16 :: "bytes \<Rightarrow> int" where "be_i16 bs = sint (from_be_bytes bs :: u16)"
definition be_i32 :: "bytes \<Rightarrow> int" where "be_i32 bs = sint (from_be_bytes bs :: u32)"
definition be_i64 :: "bytes \<Rightarrow> int" where "be_i64 bs = sint (from_be_bytes bs :: u64)"

definition HEX :: bytes where
  "HEX = ascii ''0123456789abcdef''"

definition push_hex :: "bytes \<Rightarrow> bytes" where
  "push_hex raw = concat (map (\<lambda>b. [HEX ! unat (drop_bit 4 b), HEX ! unat (b AND 0xF)]) raw)"

definition digit :: "nat \<Rightarrow> byte" where
  "digit n = 0x30 + of_nat n"

section \<open>Floats\<close>

text \<open>\<^verbatim>\<open>str::parse::<i32>\<close>.\<close>

definition parse_i32 :: "bytes \<Rightarrow> int option" where
  "parse_i32 s =
     (case parse_i64 s of
        Some v \<Rightarrow> if - (2 ^ 31) \<le> v \<and> v < 2 ^ 31 then Some v else None
      | None \<Rightarrow> None)"

definition trim_zeros :: "byte \<Rightarrow> bytes \<Rightarrow> bytes" where
  "trim_zeros z ds = rev (dropWhile (\<lambda>c. c = z) (rev ds))"

text \<open>The significant digits, at most the 32 the buffer holds, and the exponent of the first.\<close>

definition normalize :: "bytes \<Rightarrow> bytes \<times> int" where
  "normalize s =
     (let (mant, ex) =
            (case position (\<lambda>c. c = 0x65 \<or> c = 0x45) s of
               Some i \<Rightarrow> (take i s, Some (case parse_i32 (drop (i + 1) s) of Some e \<Rightarrow> e | None \<Rightarrow> 0))
             | None \<Rightarrow> (s, None));
          (whole, frac) =
            (case position (\<lambda>c. c = 0x2E) mant of
               Some i \<Rightarrow> (take i mant, drop (i + 1) mant)
             | None \<Rightarrow> (mant, []));
          (ds, exp10) =
            (case ex of
               Some e \<Rightarrow> (take 32 (whole @ frac), e)
             | None \<Rightarrow>
                 if whole = [0x30] then
                   let lead = length (takeWhile (\<lambda>c. c = 0x30) frac);
                       ds = take 32 (drop lead frac)
                   in (ds, if ds = [] then 0 else - int lead - 1)
                 else (take 32 (whole @ frac), int (length whole) - 1));
          ds = trim_zeros 0x30 ds
      in if ds = [] then ([0x30], if ex \<noteq> None then exp10 else 0) else (ds, exp10))"

datatype pg_float = F32 u32 | F64 u64

fun is_nan :: "pg_float \<Rightarrow> bool" where
  "is_nan (F32 w) = (w AND 0x7F800000 = 0x7F800000 \<and> w AND 0x007FFFFF \<noteq> 0)"
| "is_nan (F64 w) = (w AND 0x7FF0000000000000 = 0x7FF0000000000000 \<and> w AND 0x000FFFFFFFFFFFFF \<noteq> 0)"

fun is_infinite :: "pg_float \<Rightarrow> bool" where
  "is_infinite (F32 w) = (w AND 0x7FFFFFFF = 0x7F800000)"
| "is_infinite (F64 w) = (w AND 0x7FFFFFFFFFFFFFFF = 0x7FF0000000000000)"

fun sign_bit :: "pg_float \<Rightarrow> bool" where
  "sign_bit (F32 w) = bit w 31"
| "sign_bit (F64 w) = bit w 63"

fun ryu :: "number_text \<Rightarrow> pg_float \<Rightarrow> bytes" where
  "ryu nt (F32 w) = ryu32 nt w"
| "ryu nt (F64 w) = ryu64 nt w"

fun single :: "pg_float \<Rightarrow> bool" where
  "single (F32 w) = True"
| "single (F64 w) = False"

definition push_digits :: "number_text \<Rightarrow> bool \<Rightarrow> bytes \<Rightarrow> int \<Rightarrow> bytes" where
  "push_digits nt sgl digits exp10 =
     (if digits = [0x30] then [0x30]
      else if -4 \<le> exp10 \<and> exp10 < (if sgl then 6 else 15) then
        if exp10 < 0 then [0x30, 0x2E] @ replicate (nat (- exp10 - 1)) 0x30 @ digits
        else let int_len = nat (exp10 + 1)
             in if length digits \<le> int_len then digits @ replicate (int_len - length digits) 0x30
                else take int_len digits @ [0x2E] @ drop int_len digits
      else [digits ! 0]
        @ (if length digits > 1 then [0x2E] @ drop 1 digits else [])
        @ [0x65, if exp10 < 0 then 0x2D else 0x2B]
        @ (if \<bar>exp10\<bar> < 10 then [0x30] else [])
        @ itoa nt \<bar>exp10\<bar>)"

definition push_float :: "number_text \<Rightarrow> pg_float \<Rightarrow> bytes" where
  "push_float nt v =
     (if is_nan v then ascii ''NaN''
      else if is_infinite v then (if \<not> sign_bit v then ascii ''Infinity'' else ascii ''-Infinity'')
      else let s0 = ryu nt v;
               (neg, s) = (case strip_prefix [0x2D] s0 of Some r \<Rightarrow> (True, r) | None \<Rightarrow> (False, s0));
               (ds, exp10) = normalize s;
               digits = (if utf8_valid ds then ds else [0x30])
           in (if neg then [0x2D] else []) @ push_digits nt (single v) digits exp10)"

section \<open>Numerics\<close>

definition dig :: "bytes \<Rightarrow> nat \<Rightarrow> int \<Rightarrow> nat" where
  "dig raw ndigits i =
     (if 0 \<le> i \<and> nat i < ndigits
      then unat (from_be_bytes [raw ! (8 + 2 * nat i), raw ! (8 + 2 * nat i + 1)] :: u16) else 0)"

definition group_digits :: "nat \<Rightarrow> bytes" where
  "group_digits g = [digit (g div 1000), digit (g div 100 mod 10), digit (g div 10 mod 10), digit (g mod 10)]"

definition fraction_digit :: "(int \<Rightarrow> nat) \<Rightarrow> int \<Rightarrow> nat \<Rightarrow> byte" where
  "fraction_digit dg weight i =
     (let g = dg (weight + 1 + int (i div 4))
      in digit (if i mod 4 = 0 then g div 1000 else if i mod 4 = 1 then g div 100 mod 10
                else if i mod 4 = 2 then g div 10 mod 10 else g mod 10))"

definition numeric :: "number_text \<Rightarrow> bytes \<Rightarrow> bytes result" where
  "numeric nt raw =
     (if length raw < 8 then Inl (short 1700)
      else let ndigits = unat (from_be_bytes [raw ! 0, raw ! 1] :: u16);
               weight = be_i16 [raw ! 2, raw ! 3];
               sign = (from_be_bytes [raw ! 4, raw ! 5] :: u16);
               dscale = unat ((from_be_bytes [raw ! 6, raw ! 7] :: u16) AND 0x3FFF)
           in if length raw < 8 + 2 * ndigits then Inl (short 1700)
              else if sign = 0xC000 then Inr (ascii ''NaN'')
              else if sign = 0xD000 then Inr (ascii ''Infinity'')
              else if sign = 0xF000 then Inr (ascii ''-Infinity'')
              else if sign \<noteq> 0 \<and> sign \<noteq> 0x4000 then Inl (Transfer (Numeric_sign sign))
              else let dg = dig raw ndigits
                   in Inr ((if sign = 0x4000 then [0x2D] else [])
                     @ (if weight < 0 then [0x30]
                        else itoa nt (int (dg 0)) @ concat (map (\<lambda>d. group_digits (dg d)) [1..weight]))
                     @ (if dscale > 0 then [0x2E] @ map (fraction_digit dg weight) [0..<dscale] else [])))"

section \<open>Identifiers, dates and times\<close>

definition uuid :: "bytes \<Rightarrow> bytes result" where
  "uuid raw =
     (if length raw \<noteq> 16 then Inl (short 2950)
      else Inr (push_hex (take 4 raw) @ [0x2D] @ push_hex (take 2 (drop 4 raw)) @ [0x2D]
        @ push_hex (take 2 (drop 6 raw)) @ [0x2D] @ push_hex (take 2 (drop 8 raw)) @ [0x2D]
        @ push_hex (take 6 (drop 10 raw))))"

definition PG_EPOCH_UNIX_DAYS :: int where "PG_EPOCH_UNIX_DAYS = 10957"
definition USECS_PER_DAY :: int where "USECS_PER_DAY = 86400000000"

text \<open>Euclidean division by a positive number is HOL's division; the other operands are not negative.\<close>

definition civil_from_days :: "int \<Rightarrow> int \<times> int \<times> int" where
  "civil_from_days z0 =
     (let z = z0 + 719468;
          era = z div 146097;
          doe = z mod 146097;
          yoe = (doe - doe div 1460 + doe div 36524 - doe div 146096) div 365;
          y = yoe + era * 400;
          doy = doe - (365 * yoe + yoe div 4 - yoe div 100);
          mp = (5 * doy + 2) div 153;
          d = doy - (153 * mp + 2) div 5 + 1;
          m = (if mp < 10 then mp + 3 else mp - 9)
      in (if m \<le> 2 then y + 1 else y, m, d))"

definition push2 :: "u32 \<Rightarrow> bytes" where
  "push2 v = [digit (unat v div 10 mod 10), digit (unat v mod 10)]"

definition push_date :: "number_text \<Rightarrow> int \<Rightarrow> bytes \<times> bool" where
  "push_date nt days_since_2000 =
     (let (y, m, d) = civil_from_days (days_since_2000 + PG_EPOCH_UNIX_DAYS);
          (disp, bc) = (if y \<le> 0 then (1 - y, True) else (y, False))
      in ((if disp < 1000
           then [digit (nat (disp div 1000 mod 10)), digit (nat (disp div 100 mod 10)),
                 digit (nat (disp div 10 mod 10)), digit (nat (disp mod 10))]
           else itoa nt disp)
          @ [0x2D] @ push2 (word_of_int m) @ [0x2D] @ push2 (word_of_int d), bc))"

definition date :: "number_text \<Rightarrow> int \<Rightarrow> bytes" where
  "date nt days =
     (if days = 2 ^ 31 - 1 then ascii ''infinity''
      else if days = - (2 ^ 31) then ascii ''-infinity''
      else let (text, bc) = push_date nt days in text @ (if bc then ascii '' BC'' else []))"

text \<open>Here a value off the wire may be negative: division truncates, and a cast wraps.\<close>

definition time :: "int \<Rightarrow> bytes" where
  "time us =
     (let h = us sdiv 3600000000;
          m = (us sdiv 60000000) smod 60;
          s = (us sdiv 1000000) smod 60;
          f = us smod 1000000
      in push2 (word_of_int h) @ [0x3A] @ push2 (word_of_int m) @ [0x3A] @ push2 (word_of_int s)
         @ (if f > 0 then
              [0x2E] @ trim_zeros 0x30 (map (\<lambda>p. digit (nat (f div p mod 10))) [100000, 10000, 1000, 100, 10, 1])
            else []))"

definition timestamp :: "number_text \<Rightarrow> int \<Rightarrow> bool \<Rightarrow> bytes" where
  "timestamp nt t tz =
     (if t = 2 ^ 63 - 1 then ascii ''infinity''
      else if t = - (2 ^ 63) then ascii ''-infinity''
      else let (text, bc) = push_date nt (t div USECS_PER_DAY)
           in text @ [0x20] @ time (t mod USECS_PER_DAY) @ (if tz then ascii ''+00'' else [])
              @ (if bc then ascii '' BC'' else []))"

definition timetz :: "bytes \<Rightarrow> bytes result" where
  "timetz raw =
     (if length raw \<noteq> 12 then Inl (short 1266)
      else let us = be_i64 (take 8 raw);
               zone = be_i32 (take 4 (drop 8 raw));
               off = - zone;
               a = \<bar>off\<bar>;
               mm = a div 60 mod 60;
               ss = a mod 60
           in Inr (time us @ [if off < 0 then 0x2D else 0x2B] @ push2 (word_of_int (a div 3600))
                @ (if mm \<noteq> 0 \<or> ss \<noteq> 0 then
                     [0x3A] @ push2 (word_of_int mm) @ (if ss \<noteq> 0 then [0x3A] @ push2 (word_of_int ss) else [])
                   else [])))"

section \<open>The renderer\<close>

definition render :: "number_text \<Rightarrow> u32 \<Rightarrow> bytes \<Rightarrow> bytes result" where
  "render nt oid raw =
     (if oid = 16 then
        (case raw of [] \<Rightarrow> Inl (short oid) | b # _ \<Rightarrow> Inr [if b \<noteq> 0 then 0x74 else 0x66])
      else if oid = 21 then and_then (fixed 2 raw oid) (\<lambda>r. Inr (itoa nt (be_i16 r)))
      else if oid = 23 then and_then (fixed 4 raw oid) (\<lambda>r. Inr (itoa nt (be_i32 r)))
      else if oid = 20 then and_then (fixed 8 raw oid) (\<lambda>r. Inr (itoa nt (be_i64 r)))
      else if oid \<in> {26, 28, 29} then
        and_then (fixed 4 raw oid) (\<lambda>r. Inr (itoa nt (uint (from_be_bytes r :: u32))))
      else if oid = 700 then and_then (fixed 4 raw oid) (\<lambda>r. Inr (push_float nt (F32 (from_be_bytes r))))
      else if oid = 701 then and_then (fixed 8 raw oid) (\<lambda>r. Inr (push_float nt (F64 (from_be_bytes r))))
      else if oid = 1700 then numeric nt raw
      else if oid \<in> {25, 1043, 1042, 19, 114, 142, 705} then Inr raw
      else if oid = 17 then Inr ([0x5C, 0x78] @ push_hex raw)
      else if oid = 3802 then
        (case raw of
           [] \<Rightarrow> Inl (Transfer (Jsonb_version None))
         | v # text \<Rightarrow> if v \<noteq> 1 then Inl (Transfer (Jsonb_version (Some v))) else Inr text)
      else if oid = 2950 then uuid raw
      else if oid = 1082 then and_then (fixed 4 raw oid) (\<lambda>r. Inr (date nt (be_i32 r)))
      else if oid = 1083 then and_then (fixed 8 raw oid) (\<lambda>r. Inr (time (be_i64 r)))
      else if oid = 1114 then and_then (fixed 8 raw oid) (\<lambda>r. Inr (timestamp nt (be_i64 r) False))
      else if oid = 1184 then and_then (fixed 8 raw oid) (\<lambda>r. Inr (timestamp nt (be_i64 r) True))
      else if oid = 1266 then timetz raw
      else Inl (Transfer (No_renderer oid)))"

section \<open>The calendar\<close>

text \<open>
  The specification: the Gregorian rule for leap years, the lengths of the months, and the
  day after a day. Starting at 1970-01-01 it determines the date of every day number.
\<close>

definition leap :: "int \<Rightarrow> bool" where
  "leap y \<longleftrightarrow> y mod 4 = 0 \<and> (y mod 100 \<noteq> 0 \<or> y mod 400 = 0)"

definition month_days :: "int \<Rightarrow> int \<Rightarrow> int" where
  "month_days y m = (if m = 2 then if leap y then 29 else 28 else if m \<in> {4, 6, 9, 11} then 30 else 31)"

definition valid_date :: "int \<times> int \<times> int \<Rightarrow> bool" where
  "valid_date = (\<lambda>(y, m, d). 1 \<le> m \<and> m \<le> 12 \<and> 1 \<le> d \<and> d \<le> month_days y m)"

definition next_day :: "int \<times> int \<times> int \<Rightarrow> int \<times> int \<times> int" where
  "next_day = (\<lambda>(y, m, d).
     if d < month_days y m then (y, m, d + 1) else if m < 12 then (y, m + 1, 1) else (y + 1, 1, 1))"

text \<open>Years that begin in March: the days before one, and the date of a day in one.\<close>

definition year_start :: "int \<Rightarrow> int" where
  "year_start y = 365 * y + y div 4 - y div 100 + y div 400"

definition date_of :: "int \<Rightarrow> int \<Rightarrow> int \<times> int \<times> int" where
  "date_of y doy =
     (let mp = (5 * doy + 2) div 153; m = (if mp < 10 then mp + 3 else mp - 9)
      in (if m \<le> 2 then y + 1 else y, m, doy - (153 * mp + 2) div 5 + 1))"

definition year_quot :: "int \<Rightarrow> int" where
  "year_quot doe = (doe - doe div 1460 + doe div 36524 - doe div 146096) div 365"

lemma div_succ: "0 < (c :: int) \<Longrightarrow> (a + 1) div c = a div c \<or> (a + 1) div c = a div c + 1"
proof -
  assume c: "0 < c"
  have "a div c \<le> (a + 1) div c" "(a + 1) div c \<le> (a + c) div c"
    using c by (auto intro: zdiv_mono1)
  moreover have "(a + c) div c = a div c + 1" by (rule div_add_self2) (use c in simp)
  ultimately show ?thesis by linarith
qed

lemma year_length: "year_start (y + 1) - year_start y = (if leap (y + 1) then 366 else 365)"
proof -
  have step: "(y + 1) div c = y div c + (if (y + 1) mod c = 0 then 1 else 0)" if "0 < c" for c :: int
  proof -
    have *: "(y + 1) div c * c + (y + 1) mod c = y div c * c + y mod c + 1" by (simp add: div_mult_mod_eq)
    then have "(y + 1) mod c = y mod c + 1" if "(y + 1) div c = y div c" unfolding that by linarith
    moreover have "(y + 1) mod c + c = y mod c + 1" if "(y + 1) div c = y div c + 1"
      using * unfolding that distrib_right by linarith
    moreover have "0 \<le> y mod c" "y mod c < c" "0 \<le> (y + 1) mod c" using that by simp_all
    ultimately show ?thesis using div_succ [OF that, of y] by (cases "(y + 1) mod c = 0") auto
  qed
  have sum: "365 * (y + 1) + (a + i) - (b + j) + (c + k) - (365 * y + a - b + c) = 365 + i - j + k" for a b c i j k :: int
    by simp
  have rule: "365 + (if a then 1 else 0) - (if b then 1 else 0) + (if c then 1 else 0) = (if a \<and> (\<not> b \<or> c) then 366 else 365 :: int)"
    if "c \<longrightarrow> b" "b \<longrightarrow> a" for a b c using that by (cases a; cases b; cases c) simp_all
  have "(y + 1) mod 400 mod 100 = (y + 1) mod 100" "(y + 1) mod 100 mod 4 = (y + 1) mod 4"
    by (rule mod_mod_cancel, simp)+
  then have "(y + 1) mod 400 = 0 \<longrightarrow> (y + 1) mod 100 = 0" "(y + 1) mod 100 = 0 \<longrightarrow> (y + 1) mod 4 = 0" by auto
  from rule [OF this] show ?thesis
    unfolding year_start_def step [of 4, OF zero_less_numeral] step [of 100, OF zero_less_numeral]
      step [of 400, OF zero_less_numeral] leap_def sum .
qed

lemma year_quot_mono: "a \<le> b \<Longrightarrow> year_quot a \<le> year_quot b"
proof -
  let ?g = "\<lambda>n :: int. n - n div 1460 + n div 36524 - n div 146096"
  have step: "?g n \<le> ?g (n + 1)" for n
  proof -
    have "n div 146096 = n div 36524 div 4" "(n + 1) div 146096 = (n + 1) div 36524 div 4"
      using zdiv_zmult2_eq [of 4 n 36524] zdiv_zmult2_eq [of 4 "n + 1" 36524] by simp_all
    with div_succ [of 36524 n] div_succ [of 4 "n div 36524"]
    have c: "(n + 1) div 146096 - n div 146096 \<le> (n + 1) div 36524 - n div 36524" by auto
    have x: "(n + 1) div 1460 \<le> n div 1460 + 1" using div_succ [of 1460 n] by auto
    have "n - x + b - c \<le> n + 1 - x' + b' - c'" if "c' - c \<le> b' - b" "x' \<le> x + 1" for x x' b b' c c' :: int
      using that by linarith
    from this [OF c x] show ?thesis .
  qed
  assume "a \<le> b"
  then have "?g a \<le> ?g b"
  proof (induction b rule: int_ge_induct)
    case (step b)
    then show ?case using \<open>?g b \<le> ?g (b + 1)\<close> by linarith
  qed simp
  then show ?thesis unfolding year_quot_def by (rule zdiv_mono1) simp
qed

text \<open>At the ends of each of the 400 years of an era the quotient is that year.\<close>

lemma year_quot_ends:
  "list_all (\<lambda>k. year_quot (year_start k) = k \<and> year_quot (year_start (k + 1) - 1) = k) [0..399]"
  by code_simp

lemma year_quot_bounds:
  assumes "0 \<le> doe" "doe < 146097"
  shows "year_start (year_quot doe) \<le> doe \<and> doe < year_start (year_quot doe + 1) \<and> 0 \<le> year_quot doe \<and> year_quot doe < 400"
proof -
  have "n \<le> 400 \<Longrightarrow> doe < year_start (int n) \<Longrightarrow> \<exists>k. 0 \<le> k \<and> k < int n \<and> year_start k \<le> doe \<and> doe < year_start (k + 1)" for n
  proof (induction n)
    case 0
    with assms show ?case by (simp add: year_start_def)
  next
    case (Suc n)
    show ?case
    proof (cases "doe < year_start (int n)")
      case True
      with Suc obtain k where "0 \<le> k" "k < int n" "year_start k \<le> doe" "doe < year_start (k + 1)" by auto
      then show ?thesis by (intro exI [of _ k]) simp
    next
      case False
      with Suc.prems show ?thesis by (intro exI [of _ "int n"]) (simp add: add.commute)
    qed
  qed
  from this [of 400] assms(2) obtain k where k: "0 \<le> k" "k < 400" "year_start k \<le> doe" "doe \<le> year_start (k + 1) - 1"
    by (auto simp: year_start_def [of 400])
  have "year_quot (year_start k) = k" "year_quot (year_start (k + 1) - 1) = k"
    using bspec [OF year_quot_ends [unfolded list_all_iff set_upto], of k] k(1,2) by simp_all
  with year_quot_mono [OF k(3)] year_quot_mono [OF k(4)] have "year_quot doe = k" by simp
  with k show ?thesis by simp
qed

lemma civil_from_days_year:
  assumes n_def: "n = z + 719468"
  shows "\<exists>y doy. civil_from_days z = date_of y doy \<and> n = year_start y + doy \<and> 0 \<le> doy \<and> doy < year_start (y + 1) - year_start y"
proof -
  define era doe where "era = n div 146097" and "doe = n mod 146097"
  define y where "y = year_quot doe + era * 400"
  have n: "n = era * 146097 + doe" by (simp add: era_def doe_def)
  have doe: "0 \<le> doe" "doe < 146097" by (simp_all add: doe_def)
  note q = year_quot_bounds [OF doe]
  have shift: "year_start (k + era * 400) = year_start k + era * 146097" for k
    using div_mult_self1 [of 4 k "era * 100"] div_mult_self1 [of 100 k "era * 4"] div_mult_self1 [of 400 k era]
    by (simp add: year_start_def mult.commute)
  have start: "year_start (year_quot doe) = 365 * year_quot doe + year_quot doe div 4 - year_quot doe div 100"
    using q by (simp add: year_start_def)
  have "civil_from_days z = date_of y (doe - year_start (year_quot doe))"
    unfolding civil_from_days_def Let_def date_of_def start n_def [symmetric]
    by (simp only: y_def era_def doe_def year_quot_def)
  moreover have "n = year_start y + (doe - year_start (year_quot doe))" by (simp add: y_def shift n)
  moreover have "year_start (y + 1) - year_start y = year_start (year_quot doe + 1) - year_start (year_quot doe)"
    using shift [of "year_quot doe"] shift [of "year_quot doe + 1"] by (simp add: y_def algebra_simps)
  ultimately show ?thesis using q by (intro exI [of _ y] exI [of _ "doe - year_start (year_quot doe)"]) simp
qed

text \<open>The months of a year that begins in March, from the first day of one to the next.\<close>

definition month_start :: "int \<Rightarrow> int" where
  "month_start mp = (153 * mp + 2) div 5"

definition month_date :: "int \<Rightarrow> int \<Rightarrow> int \<Rightarrow> int \<times> int \<times> int" where
  "month_date y mp d = (if mp < 10 then (y, mp + 3, d) else (y + 1, mp - 9, d))"

lemma month_length:
  assumes "mp \<in> {0..10}"
  shows "month_days (if mp < 10 then y else y + 1) (if mp < 10 then mp + 3 else mp - 9) = month_start (mp + 1) - month_start mp"
proof -
  have "mp = 0 \<or> mp = 1 \<or> mp = 2 \<or> mp = 3 \<or> mp = 4 \<or> mp = 5 \<or> mp = 6 \<or> mp = 7 \<or> mp = 8 \<or> mp = 9 \<or> mp = 10"
    using assms unfolding atLeastAtMost_iff by presburger
  then show ?thesis by (auto simp: month_days_def month_start_def)
qed

lemma month_start_floor: "month_start mp \<le> doy \<longleftrightarrow> 153 * mp \<le> 5 * doy + 2"
proof -
  have floor: "q \<le> doy \<longleftrightarrow> n \<le> 5 * doy + 4" if "5 * q + r = n" "0 \<le> r" "r < 5" for q r n :: int
    using that by (intro iffI) linarith+
  have "month_start mp \<le> doy \<longleftrightarrow> 153 * mp + 2 \<le> 5 * doy + 4"
    unfolding month_start_def
    by (rule floor [OF mult_div_mod_eq]) (rule pos_mod_sign pos_mod_bound, rule zero_less_numeral)+
  then show ?thesis by linarith
qed

lemma date_of_at:
  assumes "mp \<in> {0..11}" "month_start mp \<le> doy" "doy < month_start (mp + 1)"
  shows "date_of y doy = month_date y mp (doy - month_start mp + 1)"
proof -
  have "153 * mp \<le> 5 * doy + 2" "\<not> 153 * (mp + 1) \<le> 5 * doy + 2"
    using assms(2,3) unfolding month_start_floor [symmetric] not_le by simp_all
  then have "(5 * doy + 2) div 153 = mp" by (intro int_div_pos_eq [where r = "5 * doy + 2 - 153 * mp"]) simp_all
  then show ?thesis using assms(1) unfolding date_of_def Let_def
    by (auto simp add: month_date_def month_start_def)
qed

lemma month_of_day:
  assumes "0 \<le> doy" "doy < 366"
  obtains mp where "mp \<in> {0..11}" "month_start mp \<le> doy" "doy < month_start (mp + 1)"
proof -
  let ?mp = "(5 * doy + 2) div 153"
  have "?mp \<le> 1832 div 153" using assms by (intro zdiv_mono1) simp_all
  also have "1832 div 153 = (11 :: int)" by simp
  finally have hi: "?mp \<le> 11" .
  have lo: "0 \<le> ?mp" using assms(1) by (intro pos_imp_zdiv_nonneg_iff [THEN iffD2]) simp_all
  show thesis
  proof (rule that)
    show "?mp \<in> {0..11}" unfolding atLeastAtMost_iff using lo hi by blast
    show "month_start ?mp \<le> doy" unfolding month_start_floor by simp
    show "doy < month_start (?mp + 1)" unfolding not_le [symmetric] month_start_floor by simp
  qed
qed

lemma next_in_month:
  "d < month_days (if mp < 10 then y else y + 1) (if mp < 10 then mp + 3 else mp - 9) \<Longrightarrow>
   next_day (month_date y mp d) = month_date y mp (d + 1)"
  by (cases "mp < 10") (simp_all add: next_day_def month_date_def)

lemma next_month:
  assumes "mp \<in> {0..10}"
  shows "next_day (month_date y mp (month_start (mp + 1) - month_start mp)) = month_date y (mp + 1) 1"
  using month_length [OF assms, of y] assms by (cases "mp < 10") (auto simp: next_day_def month_date_def)

lemma month_start_step: "month_start mp < month_start (mp + 1)"
proof -
  have "(153 * mp + 2) div 5 < (153 * mp + 2 + 5) div 5" by simp
  also have "\<dots> \<le> (153 * (mp + 1) + 2) div 5" by (rule zdiv_mono1) simp_all
  finally show ?thesis unfolding month_start_def .
qed

lemma valid_month_date:
  "mp \<in> {0..11} \<Longrightarrow> 1 \<le> d \<Longrightarrow>
   d \<le> month_days (if mp < 10 then y else y + 1) (if mp < 10 then mp + 3 else mp - 9) \<Longrightarrow> valid_date (month_date y mp d)"
  by (auto simp: valid_date_def month_date_def)

text \<open>The day after a day of a year: in the same year, or the first of the next.\<close>

lemma date_of_next:
  assumes "0 \<le> doy" "doy < year_start (y + 1) - year_start y"
  shows "valid_date (date_of y doy) \<and> next_day (date_of y doy) =
     (if doy + 1 < year_start (y + 1) - year_start y then date_of y (doy + 1) else date_of (y + 1) 0)"
proof -
  let ?len = "year_start (y + 1) - year_start y"
  have len: "?len = 337 + month_days (y + 1) 2" by (simp add: year_length month_days_def)
  have doy: "doy < 366" using assms(2) by (simp add: year_length split: if_splits)
  obtain mp where mp: "mp \<in> {0..11}" "month_start mp \<le> doy" "doy < month_start (mp + 1)"
    using month_of_day [OF assms(1) doy] .
  note here = date_of_at [OF mp, of y]
  let ?d = "doy - month_start mp + 1"
  show ?thesis
  proof (cases "mp = 11")
    case True
    have start: "month_start 11 = 337" "month_start 12 = 367" by (simp_all add: month_start_def)
    have new: "date_of (y + 1) 0 = (y + 1, 3, 1)" by (simp add: date_of_def)
    have d: "?d \<le> month_days (y + 1) 2" "1 \<le> ?d" using True assms len mp start by auto
    have there: "doy + 1 < ?len \<Longrightarrow> date_of y (doy + 1) = month_date y 11 (?d + 1)"
      using date_of_at [of 11 "doy + 1" y] mp(2) True start doy assms(2) by (simp add: year_length split: if_splits)
    show ?thesis
      using d there len True start by (auto simp: here new valid_date_def next_day_def month_date_def)
  next
    case False
    then have mp10: "mp \<in> {0..10}" "mp + 1 \<in> {0..11}" using mp(1) by auto
    have le: "month_start (mp + 1) \<le> 337"
      using mp10 unfolding month_start_floor by simp
    have same: "doy + 1 < ?len" using le mp(3) len by (simp add: month_days_def)
    have d: "1 \<le> ?d" "?d \<le> month_start (mp + 1) - month_start mp" using mp by simp_all
    show ?thesis
    proof (cases "doy + 1 < month_start (mp + 1)")
      case True
      with d mp date_of_at [of mp "doy + 1" y] same next_in_month [of ?d mp y] valid_month_date [OF mp(1) d(1), of y]
      show ?thesis by (simp add: here month_length [OF mp10(1)])
    next
      case False
      then have eq: "doy + 1 = month_start (mp + 1)" "?d = month_start (mp + 1) - month_start mp" using mp(3) by simp_all
      with date_of_at [OF mp10(2), of "doy + 1" y] month_start_step [of "mp + 1"]
      have "date_of y (doy + 1) = month_date y (mp + 1) 1" by simp
      with same next_month [OF mp10(1), of y] valid_month_date [OF mp(1) d(1), of y] d(2) show ?thesis
        unfolding here eq(2) by (simp add: month_length [OF mp10(1)])
    qed
  qed
qed

lemma year_start_mono: "a \<le> b \<Longrightarrow> year_start a \<le> year_start b"
proof (induction b rule: int_ge_induct)
  case (step b)
  then show ?case using year_length [of b] by (simp split: if_splits)
qed simp

lemma year_unique:
  assumes "year_start a \<le> n" "n < year_start (a + 1)" "year_start b \<le> n" "n < year_start (b + 1)"
  shows "a = b"
proof (rule ccontr)
  assume "a \<noteq> b"
  then consider "a + 1 \<le> b" | "b + 1 \<le> a" by linarith
  then show False using assms year_start_mono [of "a + 1" b] year_start_mono [of "b + 1" a] by cases linarith+
qed

lemma civil_next: "valid_date (civil_from_days z) \<and> civil_from_days (z + 1) = next_day (civil_from_days z)"
proof -
  obtain y doy where here: "civil_from_days z = date_of y doy" "z + 719468 = year_start y + doy"
    "0 \<le> doy" "doy < year_start (y + 1) - year_start y"
    using civil_from_days_year [OF refl, of z] by blast
  obtain y' doy' where there: "civil_from_days (z + 1) = date_of y' doy'" "z + 1 + 719468 = year_start y' + doy'"
    "0 \<le> doy'" "doy' < year_start (y' + 1) - year_start y'"
    using civil_from_days_year [OF refl, of "z + 1"] by blast
  have "date_of y' doy' = (if doy + 1 < year_start (y + 1) - year_start y then date_of y (doy + 1) else date_of (y + 1) 0)"
  proof (cases "doy + 1 < year_start (y + 1) - year_start y")
    case True
    with here there have "y' = y" by (intro year_unique [of _ "z + 1 + 719468"]) linarith+
    moreover from this here(2) there(2) have "doy' = doy + 1" by simp
    ultimately show ?thesis using True by simp
  next
    case False
    with here there have eq: "year_start y' + doy' = year_start (y + 1)" by linarith
    have "year_start (y + 1) < year_start (y + 1 + 1)" using year_length [of "y + 1"] by (simp split: if_splits)
    with eq there have "y' = y + 1" by (intro year_unique [of _ "year_start (y + 1)"]) linarith+
    with eq False show ?thesis by simp
  qed
  with date_of_next [OF here(3,4)] here(1) there(1) show ?thesis by simp
qed

text \<open>
  C20: The date of a day number is the Gregorian calendar's: day 0 is 1970-01-01, every result
  is a date the calendar has, and the date of each next day is the calendar's next day, over
  all day numbers, before the epoch and before year 1 included.
\<close>

theorem civil_from_days_calendar:
  "civil_from_days 0 = (1970, 1, 1) \<and>
   (\<forall>z. valid_date (civil_from_days z) \<and> civil_from_days (z + 1) = next_day (civil_from_days z))"
proof (rule conjI)
  show "civil_from_days 0 = (1970, 1, 1)" by code_simp
qed (use civil_next in blast)

text \<open>
  C22: The list of rendered types is exactly what the renderer covers: it answers that it has
  no renderer for a type precisely when the type is not in the list, whatever the value.
\<close>

theorem renders_exactly:
  "render nt oid raw = Inl (Transfer (No_renderer x)) \<longleftrightarrow> \<not> renders oid \<and> x = oid"
proof -
  have other: "numeric nt raw \<noteq> Inl (Transfer (No_renderer x))" "uuid raw \<noteq> Inl (Transfer (No_renderer x))"
    "timetz raw \<noteq> Inl (Transfer (No_renderer x))" "\<And>n f oid. and_then (fixed n raw oid) (\<lambda>r. Inr (f r)) \<noteq> Inl (Transfer (No_renderer x))"
    "\<And>oid. (case raw of [] \<Rightarrow> Inl (short oid) | b # _ \<Rightarrow> Inr [if b \<noteq> 0 then 0x74 else 0x66 :: byte]) \<noteq> Inl (Transfer (No_renderer x))"
    "(case raw of [] \<Rightarrow> Inl (Transfer (Jsonb_version None))
       | v # text \<Rightarrow> if v \<noteq> 1 then Inl (Transfer (Jsonb_version (Some v))) else Inr text) \<noteq> Inl (Transfer (No_renderer x))"
    by (simp_all add: numeric_def uuid_def timetz_def fixed_def short_def Let_def split: list.split)
  show ?thesis
  proof (cases "renders oid")
    case True
    then have "oid \<in> set RENDERED_OIDS" by (simp add: renders_def)
    then have "render nt oid raw \<noteq> Inl (Transfer (No_renderer x))"
      using other unfolding render_def RENDERED_OIDS_def list.set insert_iff empty_iff by (elim disjE) simp_all
    with True show ?thesis by simp
  next
    case False
    then have "render nt oid raw = Inl (Transfer (No_renderer oid))"
      by (simp add: renders_def RENDERED_OIDS_def render_def)
    with False show ?thesis by auto
  qed
qed

end
