(* ===== verification/Binary_Rows.thy ===== *)
theory Binary_Rows
  imports Pgbindec
begin

text \<open>
  Rows of a binary stream written as text (\<^verbatim>\<open>render_ch_row_binary_as_text\<close>): the values of the
  types that are copied without escaping never print a byte that would need it, so every
  such row reads back as the rendered values of its cells.
\<close>

section \<open>Clean text\<close>

definition clean :: "bytes \<Rightarrow> bool" where
  "clean t = list_all (\<lambda>b. \<not> is_special b) t"

lemma clean_simps [simp]:
  "clean []" "clean (b # t) \<longleftrightarrow> \<not> is_special b \<and> clean t" "clean (t @ u) \<longleftrightarrow> clean t \<and> clean u"
  by (simp_all add: clean_def)

lemma clean_concat: "clean (concat ts) \<longleftrightarrow> (\<forall>t \<in> set ts. clean t)"
  by (induction ts) simp_all

lemma clean_set: "clean t \<longleftrightarrow> (\<forall>b \<in> set t. \<not> is_special b)"
  by (simp add: clean_def list_all_iff)

lemma clean_subset: "clean t \<Longrightarrow> set u \<subseteq> set t \<Longrightarrow> clean u"
  by (auto simp: clean_set)

lemma special_unat: "is_special b \<Longrightarrow> unat b \<in> {92, 9, 10, 13}"
  by (auto simp: is_special_def)

lemma digit_clean: "n < 10 \<Longrightarrow> \<not> is_special (digit n)"
proof
  assume n: "n < 10" and "is_special (digit n)"
  then have "unat (digit n) \<in> {92, 9, 10, 13}" by (simp only: special_unat)
  moreover have "digit n = of_nat (48 + n)" by (simp add: digit_def)
  then have "unat (digit n) = 48 + n" using n by (simp only: unat_of_nat_byte) simp
  ultimately show False using n by simp
qed

lemma digit_char_clean: "d < 10 \<Longrightarrow> \<not> is_special (digit_char d)"
  using special_unat [of "digit_char d"] by (auto simp: unat_digit_char)

lemma show_radix_clean: "clean (show_radix 10 n)"
proof (induction n rule: less_induct)
  case (less n)
  then show ?case
    by (subst show_radix.simps) (simp add: digit_char_clean)
qed

lemma show_int_clean: "clean (show_int i)"
  by (simp add: show_int_def show_radix_clean byte_of_def is_special_def)

lemma HEX_clean: "k < 16 \<Longrightarrow> \<not> is_special (HEX ! k)"
proof -
  assume k: "k < 16"
  have "clean HEX" by (simp add: HEX_def is_special_def)
  moreover have "HEX ! k \<in> set HEX" using k by (intro nth_mem) (simp add: HEX_def)
  ultimately show ?thesis by (simp add: clean_set)
qed

lemma push_hex_clean: "clean (push_hex raw)"
proof -
  have "unat (b AND 0xF) < 16" for b :: byte
    using word_and_le1 [of b "0xF"] by (simp add: word_le_nat_alt)
  moreover have "unat (drop_bit 4 b) < 16" for b :: byte
    using unsigned_less [of b, where ?'a = nat]
    by (simp add: drop_bit_eq_div unat_div less_mult_imp_div_less)
  ultimately show ?thesis by (simp add: push_hex_def clean_concat HEX_clean)
qed

lemma push2_clean: "clean (push2 v)"
  by (simp add: push2_def digit_clean)

lemma trim_zeros_clean: "clean ds \<Longrightarrow> clean (trim_zeros z ds)"
  by (erule clean_subset) (auto simp: trim_zeros_def dest: set_dropWhileD)

lemma time_clean: "clean (time us)"
proof -
  have "nat (f div p mod 10) < 10" for f p :: int by (simp add: nat_less_iff)
  then show ?thesis
    by (simp add: time_def Let_def push2_clean is_special_def) (simp add: trim_zeros_clean digit_clean)
qed

section \<open>The printers\<close>

text \<open>
  What the two third-party printers document: decimal integers, and floats over digits, a
  point, signs and an exponent letter.
\<close>

definition float_byte :: "byte \<Rightarrow> bool" where
  "float_byte b \<longleftrightarrow> 0x30 \<le> b \<and> b \<le> 0x39 \<or> b \<in> {0x2D, 0x2B, 0x2E, 0x65, 0x45}"

definition printers_ok :: "number_text \<Rightarrow> bool" where
  "printers_ok nt \<longleftrightarrow> (\<forall>v. itoa nt v = show_int v) \<and>
     (\<forall>w. list_all float_byte (ryu32 nt w)) \<and> (\<forall>w. list_all float_byte (ryu64 nt w))"

lemma itoa_clean: "printers_ok nt \<Longrightarrow> clean (itoa nt v)"
  by (simp add: printers_ok_def show_int_clean)

lemma float_byte_clean: "float_byte b \<Longrightarrow> \<not> is_special b"
  by (auto simp: float_byte_def is_special_def)

lemma ryu_clean: "printers_ok nt \<Longrightarrow> clean (ryu nt v)"
  by (cases v) (use float_byte_clean in \<open>auto simp: printers_ok_def clean_def list_all_iff\<close>)

lemma normalize_set: "normalize s = (ds, e) \<Longrightarrow> set ds \<subseteq> insert 0x30 (set s)"
  unfolding normalize_def trim_zeros_def
  by (auto simp: Let_def split: option.splits if_splits prod.splits
      dest!: set_dropWhileD in_set_takeD in_set_dropD)

lemma normalize_ne: "normalize s = (ds, e) \<Longrightarrow> ds \<noteq> []"
  unfolding normalize_def by (auto simp: Let_def split: option.splits if_splits prod.splits)

lemma push_digits_clean:
  assumes "printers_ok nt" "clean ds" "ds \<noteq> []"
  shows "clean (push_digits nt sgl ds e)"
proof -
  have zero: "\<not> is_special 0x30" "\<not> is_special 0x2E" "\<not> is_special 0x65" "\<not> is_special 0x2D" "\<not> is_special 0x2B"
    by (simp_all add: is_special_def)
  have "clean (replicate k 0x30)" for k using zero by (simp add: clean_set)
  moreover have "clean (take k ds)" "clean (drop k ds)" for k
    using assms(2) by (auto intro: clean_subset [OF _ set_take_subset] clean_subset [OF _ set_drop_subset])
  moreover have "\<not> is_special (ds ! 0)" using assms(2,3) by (cases ds) auto
  ultimately show ?thesis
    using assms zero itoa_clean [OF assms(1), of "\<bar>e\<bar>"] by (simp add: push_digits_def Let_def)
qed

lemma push_float_clean: "printers_ok nt \<Longrightarrow> clean (push_float nt v)"
proof -
  assume nt: "printers_ok nt"
  have zero: "\<not> is_special 0x30" "\<not> is_special 0x2D" by (simp_all add: is_special_def)
  have digits: "clean (push_digits nt sgl (if utf8_valid ds then ds else [0x30]) e)"
    if "normalize s = (ds, e)" "clean s" for s ds e sgl
  proof -
    have "clean ds"
      using normalize_set [OF that(1)] that(2) zero(1) unfolding clean_set by blast
    then show ?thesis
      using normalize_ne [OF that(1)] zero(1) by (intro push_digits_clean [OF nt]) simp_all
  qed
  have number: "clean (let (ds, e) = normalize s; digits = (if utf8_valid ds then ds else [0x30])
      in (if neg then [0x2D] else []) @ push_digits nt sgl digits e)" if "clean s" for s neg sgl
    using digits [OF _ that] zero by (cases "normalize s") (simp add: Let_def)
  have words: "clean (ascii ''NaN'')" "clean (ascii ''Infinity'')" "clean (ascii ''-Infinity'')"
    by (simp_all add: is_special_def)
  show ?thesis
  proof (cases "strip_prefix [0x2D] (ryu nt v)")
    case None
    then show ?thesis
      using words number [OF ryu_clean [OF nt, of v], of False "single v"]
      unfolding push_float_def Let_def option.case prod.case by (simp del: ascii_Cons)
  next
    case (Some s)
    then have "clean s"
      using ryu_clean [OF nt, of v] by (auto simp: strip_prefix_def clean_set dest: in_set_dropD split: if_splits)
    from words number [OF this, of True "single v"] Some show ?thesis
      unfolding push_float_def Let_def option.case prod.case by (simp del: ascii_Cons)
  qed
qed

section \<open>Numerics and dates\<close>

text \<open>The digit groups a server sends are below ten thousand.\<close>

definition decimal_groups :: "bytes \<Rightarrow> bool" where
  "decimal_groups raw =
     (let nd = unat (from_be_bytes [raw ! 0, raw ! 1] :: u16) in list_all (\<lambda>j. dig raw nd (int j) < 10000) [0..<nd])"

lemma decimal_dig:
  assumes "decimal_groups raw"
  shows "dig raw (unat (from_be_bytes [raw ! 0, raw ! 1] :: u16)) i < 10000"
proof (cases "0 \<le> i \<and> nat i < unat (from_be_bytes [raw ! 0, raw ! 1] :: u16)")
  case True
  then obtain j where "i = int j" "j < unat (from_be_bytes [raw ! 0, raw ! 1] :: u16)"
    by (metis int_nat_eq)
  with assms show ?thesis by (simp add: decimal_groups_def Let_def list_all_iff)
qed (auto simp: dig_def)

lemma group_clean: "g < 10000 \<Longrightarrow> clean (group_digits g)"
  by (simp add: group_digits_def digit_clean less_mult_imp_div_less)

lemma fraction_digit_clean: "(\<And>i. dg i < 10000) \<Longrightarrow> \<not> is_special (fraction_digit dg w i)"
  by (auto simp: fraction_digit_def Let_def intro!: digit_clean less_mult_imp_div_less)

lemma numeric_clean:
  assumes "printers_ok nt" "decimal_groups raw" "numeric nt raw = Inr t"
  shows "clean t"
proof -
  have sp: "\<not> is_special 0x30" "\<not> is_special 0x2E" "\<not> is_special 0x2D"
    "clean (ascii ''NaN'')" "clean (ascii ''Infinity'')" "clean (ascii ''-Infinity'')"
    by (simp_all add: is_special_def)
  have "clean (map (fraction_digit (dig raw (unat (from_be_bytes [raw ! 0, raw ! 1] :: u16))) w) is)" for w "is"
    using fraction_digit_clean [OF decimal_dig [OF assms(2)]] by (auto simp: clean_set)
  moreover have "clean (concat (map (\<lambda>d. group_digits (dig raw (unat (from_be_bytes [raw ! 0, raw ! 1] :: u16)) d)) ds))" for ds
    using group_clean [OF decimal_dig [OF assms(2)]] by (auto simp: clean_concat)
  ultimately show ?thesis
    using assms(3) sp itoa_clean [OF assms(1)]
    by (auto simp: numeric_def Let_def simp del: ascii_Cons split: if_splits)
qed

lemma digit_mod_clean: "\<not> is_special (digit (nat (x mod 10)))"
  by (rule digit_clean) (simp add: nat_less_iff)

lemma push_date_clean: "printers_ok nt \<Longrightarrow> clean (fst (push_date nt d))"
proof -
  assume nt: "printers_ok nt"
  obtain y m e where "civil_from_days (d + PG_EPOCH_UNIX_DAYS) = (y, m, e)" by (rule prod_cases3)
  moreover have "clean (if disp < 1000
           then [digit (nat (disp div 1000 mod 10)), digit (nat (disp div 100 mod 10)),
                 digit (nat (disp div 10 mod 10)), digit (nat (disp mod 10))]
           else itoa nt disp)" for disp
    by (simp only: clean_simps digit_mod_clean itoa_clean [OF nt] split: if_split) simp
  moreover have "\<not> is_special 0x2D" by (simp add: is_special_def)
  ultimately show ?thesis
    by (cases "y \<le> 0") (simp_all only: push_date_def Let_def prod.case fst_conv if_True if_False clean_simps push2_clean simp_thms)
qed

lemma plain_render_clean:
  assumes "printers_ok nt" "oid \<in> set plain_oids" "oid = 1700 \<longrightarrow> decimal_groups raw" "render nt oid raw = Inr t"
  shows "clean t"
proof -
  have words: "clean (ascii ''infinity'')" "clean (ascii ''-infinity'')" "clean (ascii '' BC'')" "clean (ascii ''+00'')"
    by (simp_all add: is_special_def)
  have uuid: "clean t" if "uuid raw = Inr t"
    using that by (auto simp: uuid_def push_hex_clean is_special_def split: if_splits)
  have timetz: "clean t" if "timetz raw = Inr t"
    using that by (auto simp: timetz_def Let_def push2_clean time_clean is_special_def split: if_splits)
  have date: "clean (date nt d)" for d
    using push_date_clean [OF assms(1), of d] words
    by (cases "push_date nt d") (simp add: date_def Let_def del: ascii_Cons)
  have timestamp: "clean (timestamp nt d tz)" for d tz
    using push_date_clean [OF assms(1), of "d div USECS_PER_DAY"] words
    by (cases "push_date nt (d div USECS_PER_DAY)") (simp add: timestamp_def Let_def time_clean is_special_def del: ascii_Cons)
  note parts = itoa_clean [OF assms(1)] push_float_clean [OF assms(1)] numeric_clean [OF assms(1)] uuid timetz date timestamp time_clean
  from assms(2) show ?thesis
    using assms(3,4) parts unfolding plain_oids_def list.set insert_iff empty_iff
    by (elim disjE) (auto simp: render_def result_simps)
qed

section \<open>Rows\<close>

text \<open>The text cell that a binary cell stands for.\<close>

definition binary_cell :: "number_text \<Rightarrow> u32 \<Rightarrow> cell \<Rightarrow> cell result" where
  "binary_cell nt oid c =
     (case c of
        Null \<Rightarrow> Inr Null
      | Text t \<Rightarrow> and_then (render nt oid t) (\<lambda>x. Inr (Text x))
      | UnchangedToast \<Rightarrow> Inl (Transfer Toast_in_bulk))"

definition groups_ok :: "u32 \<Rightarrow> cell \<Rightarrow> bool" where
  "groups_ok oid c = (case c of Text t \<Rightarrow> oid = 1700 \<longrightarrow> decimal_groups t | _ \<Rightarrow> True)"

lemma binary_cell_plain:
  assumes "printers_ok nt" "binary_cell nt oid c = Inr d" "groups_ok oid c"
  shows "plain_clean oid d \<and> d \<noteq> UnchangedToast"
proof (cases c)
  case (Text t)
  with assms(2) obtain x where x: "render nt oid t = Inr x" "d = Text x" by (auto simp: binary_cell_def result_simps)
  with plain_render_clean [OF assms(1) _ _ x(1)] assms(3) Text show ?thesis
    by (simp add: plain_clean_def clean_def groups_ok_def)
qed (use assms in \<open>auto simp: binary_cell_def plain_clean_def\<close>)

text \<open>
  C21: A row of a binary stream written as ClickHouse text carries the row: with printers that
  print as documented and decimal digit groups in the numerics, whenever the renderer has
  text for every cell the row renders to one line whose fields read back as those texts
  (booleans as their digit), although numbers, dates, times and uuids are never escaped.
\<close>

theorem binary_row_roundtrip:
  assumes "printers_ok nt" "tuple_wf row" "tuple_len row > 0" "length oids = tuple_len row" "length texts = tuple_len row"
    and "\<forall>i < tuple_len row. binary_cell nt (oids ! i) (cells_of row ! i) = Inr (texts ! i) \<and> groups_ok (oids ! i) (cells_of row ! i)"
  shows "\<exists>line. render_ch_row_binary_as_text (render nt) row oids out = Inr (out @ line @ [0x0A]) \<and> 0x0A \<notin> set line \<and>
     map tsv_unescape (split_fields 0x09 line) = map2 ch_value oids texts"
proof -
  let ?n = "tuple_len row"
  let ?f = "\<lambda>i. cell_field (ch_spelling (oids ! i)) (texts ! i)"
  let ?sp = "\<lambda>i t. case render nt (oids ! i) t of Inr x \<Rightarrow> ch_spelling (oids ! i) x | Inl _ \<Rightarrow> []"
  have cell: "plain_clean (oids ! i) (texts ! i) \<and> texts ! i \<noteq> UnchangedToast" if "i < ?n" for i
    by (rule binary_cell_plain [OF assms(1)]) (use assms(6) that in auto)
  have view: "tuple_view row i = Inr (cells_of row ! i) \<and> cells_of row ! i \<noteq> UnchangedToast" if "i < ?n" for i
    using assms(2,6) that by (auto simp: tuple_view_wf tuple_len_def binary_cell_def)
  have val: "ch_binary_at (render nt) oids i t out = Inr (out @ ?sp i t)" if "i < ?n" "cells_of row ! i = Text t" for i t out
  proof -
    from assms(6) that obtain x where "render nt (oids ! i) t = Inr x"
      by (auto simp: binary_cell_def result_simps dest!: spec [of _ i])
    with assms(4) that show ?thesis by (simp add: ch_binary_at_def render_ch_value_spelling)
  qed
  have "render_ch_row_binary_as_text (render nt) row oids out =
      Inr (out @ join_fields 0x09 (map (\<lambda>i. cell_field (?sp i) (cells_of row ! i)) [0..<?n]) @ [0x0A])"
    unfolding render_ch_row_binary_as_text_def by (rule render_row_line [OF view val])
  moreover have "map (\<lambda>i. cell_field (?sp i) (cells_of row ! i)) [0..<?n] = map ?f [0..<?n]"
  proof (rule map_cong [OF refl])
    fix i assume "i \<in> set [0..<?n]"
    with assms(6) have "binary_cell nt (oids ! i) (cells_of row ! i) = Inr (texts ! i)" by simp
    then show "cell_field (?sp i) (cells_of row ! i) = ?f i"
      by (cases "cells_of row ! i") (auto simp: binary_cell_def cell_field_def result_simps eq_commute [of _ "texts ! i"])
  qed
  moreover have "map (\<lambda>i. ch_value (oids ! i) (texts ! i)) [0..<?n] = map2 ch_value oids texts"
    by (rule nth_equalityI) (simp_all add: assms)
  moreover have "0x0A \<notin> set (join_fields 0x09 (map ?f [0..<?n])) \<and>
      map tsv_unescape (split_fields 0x09 (join_fields 0x09 (map ?f [0..<?n]))) = map (\<lambda>i. ch_value (oids ! i) (texts ! i)) [0..<?n]"
  proof (rule line_reads_back)
    fix i assume "i < ?n"
    with cell show "0x09 \<notin> set (?f i) \<and> 0x0A \<notin> set (?f i) \<and> tsv_unescape (?f i) = ch_value (oids ! i) (texts ! i)"
      by (intro ch_field_reads) auto
  qed (rule assms(3))
  ultimately show ?thesis by (intro exI [of _ "join_fields 0x09 (map ?f [0..<?n])"]) simp
qed

definition sample_printers :: number_text where
  "sample_printers = \<lparr>itoa = show_int, ryu32 = \<lambda>_. ascii ''0.0'', ryu64 = \<lambda>_. ascii ''0.0''\<rparr>"

definition sample_binary_row :: tuple where
  "sample_binary_row = \<lparr>frame = [0, 0, 0, 7, 0x09, 0x61], cells = [RText 0 4, RText 4 2]\<rparr>"

lemma sample_binary_facts:
  "printers_ok sample_printers" "tuple_wf sample_binary_row" "tuple_len sample_binary_row = 2"
  "cells_of sample_binary_row = [Text [0, 0, 0, 7], Text [0x09, 0x61]]"
  "binary_cell sample_printers 23 (Text [0, 0, 0, 7]) = Inr (Text [0x37])"
  "binary_cell sample_printers 25 (Text [0x09, 0x61]) = Inr (Text [0x09, 0x61])"
  by (simp_all add: printers_ok_def sample_printers_def float_byte_def sample_binary_row_def tuple_wf_def
      cellr_wf_def tuple_len_def cells_of_def cell_of_def binary_cell_def render_def fixed_def be_i32_def
      from_be_bytes_def be_nat_def show_int_def show_radix.simps digit_char_def)

theorem binary_row_roundtrip_witness:
  "\<exists>line. render_ch_row_binary_as_text (render sample_printers) sample_binary_row [23, 25] [] = Inr (line @ [0x0A]) \<and>
     map tsv_unescape (split_fields 0x09 line) = [Some [0x37], Some [0x09, 0x61]]"
proof -
  have "\<forall>i < tuple_len sample_binary_row. binary_cell sample_printers ([23, 25] ! i) (cells_of sample_binary_row ! i) =
      Inr ([Text [0x37], Text [0x09, 0x61]] ! i) \<and> groups_ok ([23, 25] ! i) (cells_of sample_binary_row ! i)"
  proof (intro allI impI)
    fix i assume "i < tuple_len sample_binary_row"
    then consider "i = 0" | "i = 1" unfolding sample_binary_facts by linarith
    then show "binary_cell sample_printers ([23, 25] ! i) (cells_of sample_binary_row ! i) =
      Inr ([Text [0x37], Text [0x09, 0x61]] ! i) \<and> groups_ok ([23, 25] ! i) (cells_of sample_binary_row ! i)"
      by cases (simp_all add: sample_binary_facts groups_ok_def)
  qed
  from binary_row_roundtrip [OF sample_binary_facts(1,2) _ _ _ this, of "[]"] show ?thesis
    by (auto simp: sample_binary_facts(3) ch_value_def cell_value_def BOOL_OID_def)
qed

end
