(* ===== verification/Pgcopy.thy ===== *)
theory Pgcopy
  imports Pgbindec
begin

text \<open>
  PostgreSQL's binary COPY format (\<^verbatim>\<open>wire/pgcopy.rs\<close>): the framing and field encoders, the
  encoder of decimal text as \<^verbatim>\<open>numeric\<close>, the decoder of \<^verbatim>\<open>numeric\<close> to a scaled \<^verbatim>\<open>i128\<close> with
  its fast path, and the stripper that relays the body of one span. Encoders give the bytes
  the source appends. The fast path is proved equal to the general decoder on decimal digit
  groups, encoding is proved to decode to the number of the text, and the stripper is proved
  to be independent of how its input is cut.
\<close>

section \<open>Framing\<close>

definition PG_EPOCH_DAYS :: int where "PG_EPOCH_DAYS = 10957"
definition PG_EPOCH_MICROS :: int where "PG_EPOCH_MICROS = 946684800000000"

definition copy_signature :: bytes where
  "copy_signature = [0x50, 0x47, 0x43, 0x4F, 0x50, 0x59, 0x0A, 0xFF, 0x0D, 0x0A, 0x00]"

definition header :: bytes where
  "header = copy_signature @ replicate 8 0"

definition trailer :: bytes where
  "trailer = to_be_bytes (-1 :: u16)"

definition tuple_start :: "nat \<Rightarrow> bytes" where
  "tuple_start ncols = to_be_bytes (of_nat ncols :: u16)"

definition null_field :: bytes where
  "null_field = to_be_bytes (-1 :: u32)"

definition field :: "bytes \<Rightarrow> bytes" where
  "field payload = to_be_bytes (of_nat (length payload) :: u32) @ payload"

definition jsonb_field :: "bytes \<Rightarrow> bytes" where
  "jsonb_field json_text = to_be_bytes (of_nat (length json_text + 1) :: u32) @ [1] @ json_text"

definition bad :: "string \<Rightarrow> error" where
  "bad what = Transfer (Bad_field (ascii what))"

section \<open>Decimal text to numeric\<close>

definition is_digit :: "byte \<Rightarrow> bool" where
  "is_digit b \<longleftrightarrow> 0x30 \<le> b \<and> b \<le> 0x39"

text \<open>One turn of the two grouping loops: a digit joins the group, and the fourth closes it.\<close>

fun group_step :: "nat list \<times> nat \<times> nat \<Rightarrow> nat \<Rightarrow> nat list \<times> nat \<times> nat" where
  "group_step (groups, acc, n) d =
     (let acc = acc * 10 + d; n = n + 1
      in if n = 4 then (groups @ [acc], 0, 0) else (groups, acc, n))"

definition digit_of :: "byte \<Rightarrow> nat" where
  "digit_of b = unat (b - 0x30)"

definition int_groups :: "bytes \<Rightarrow> nat list" where
  "int_groups int_part =
     (let pad = (4 - length int_part mod 4) mod 4
      in fst (fold (\<lambda>i s. group_step s (if i < pad then 0 else digit_of (int_part ! (i - pad))))
           [0..<pad + length int_part] ([], 0, 0)))"

definition frac_groups :: "bytes \<Rightarrow> nat list" where
  "frac_groups frac_part =
     fst (fold (\<lambda>i s. group_step s (if i < length frac_part then digit_of (frac_part ! i) else 0))
       [0..<(length frac_part + 3) div 4 * 4] ([], 0, 0))"

text \<open>The groups go to a stack array of 32; a group past it would panic.\<close>

definition numeric_field_from_str :: "bytes \<Rightarrow> bytes result" where
  "numeric_field_from_str s =
     (let (neg, rest) =
            (case strip_prefix [0x2D] s of
               Some r \<Rightarrow> (True, r)
             | None \<Rightarrow> (False, case strip_prefix [0x2B] s of Some r \<Rightarrow> r | None \<Rightarrow> s));
          (int_part, frac_part) = (case split_once 0x2E rest of Some p \<Rightarrow> p | None \<Rightarrow> (rest, []))
      in if int_part = [] \<and> frac_part = [] then Inl (Transfer (Malformed_decimal s))
         else if \<not> list_all is_digit int_part \<or> \<not> list_all is_digit frac_part then Inl (Transfer (Malformed_decimal s))
         else if length int_part + length frac_part > 100 then Inl (Transfer (Malformed_decimal s))
         else
           let dscale = length frac_part;
               ig = int_groups int_part;
               groups = ig @ frac_groups frac_part
           in if length groups > 32 then Inl Panic
              else
                let lead = length (takeWhile (\<lambda>g. g = 0) groups);
                    kept = rev (dropWhile (\<lambda>g. g = 0) (rev (drop lead groups)));
                    ndigits = length kept;
                    weight = (if kept = [] then 0 else int (length ig) - 1 - int lead);
                    sign = (if neg \<and> ndigits > 0 then 0x4000 else 0)
                in Inr (to_be_bytes (of_nat (8 + ndigits * 2) :: u32) @ to_be_bytes (of_nat ndigits :: u16)
                     @ to_be_bytes (word_of_int weight :: u16) @ to_be_bytes (sign :: u16)
                     @ to_be_bytes (of_nat dscale :: u16)
                     @ concat (map (\<lambda>g. to_be_bytes (of_nat g :: u16)) kept)))"

section \<open>Numeric to a scaled integer\<close>

text \<open>Checked \<^verbatim>\<open>i128\<close> arithmetic, and what the unchecked operations of a release build give.\<close>

definition checked_i128 :: "int \<Rightarrow> int option" where
  "checked_i128 v = (if - (2 ^ 127) \<le> v \<and> v < 2 ^ 127 then Some v else None)"

definition wrap_i128 :: "int \<Rightarrow> int" where
  "wrap_i128 v = signed_take_bit 127 v"

definition checked_pow10 :: "nat \<Rightarrow> int option" where
  "checked_pow10 k = checked_i128 (10 ^ k)"

definition group_at :: "bytes \<Rightarrow> nat \<Rightarrow> int" where
  "group_at f i = uint (from_be_bytes [f ! (8 + 2 * i), f ! (9 + 2 * i)] :: u16)"

text \<open>The loops of the general decoder: the groups, then the decimal shift up or down.\<close>

definition acc_step :: "bytes \<Rightarrow> int \<Rightarrow> nat \<Rightarrow> int result" where
  "acc_step f acc i =
     (case checked_i128 (acc * 10000) of
        None \<Rightarrow> Inl (bad ''numeric overflow'')
      | Some a \<Rightarrow> ok_or (bad ''numeric overflow'') (checked_i128 (a + group_at f i)))"

fun shift_up :: "nat \<Rightarrow> int \<Rightarrow> int result" where
  "shift_up 0 acc = Inr acc"
| "shift_up (Suc k) acc = and_then (ok_or (bad ''numeric overflow'') (checked_i128 (acc * 10))) (shift_up k)"

fun shift_down :: "nat \<Rightarrow> int \<Rightarrow> int" where
  "shift_down 0 acc = acc"
| "shift_down (Suc k) acc = shift_down k (acc sdiv 10)"

definition numeric_to_scaled_i128_raw_general :: "bytes \<Rightarrow> (int \<times> int) result" where
  "numeric_to_scaled_i128_raw_general f =
     (if length f < 8 then Inl (bad ''numeric'')
      else let ndigits = be_i16 (take 2 f) in
        if ndigits < 0 then Inl (bad ''numeric negative ndigits'')
        else let weight = be_i16 (take 2 (drop 2 f));
                 sign = (from_be_bytes (take 2 (drop 4 f)) :: u16);
                 dscale = uint (from_be_bytes (take 2 (drop 6 f)) :: u16)
             in if sign = 0xC000 then Inl (bad ''numeric NaN'')
                else if sign = 0xD000 \<or> sign = 0xF000 then Inl (bad ''numeric Infinity'')
                else if sign \<noteq> 0 \<and> sign \<noteq> 0x4000 then Inl (bad ''numeric sign'')
                else if length f < 8 + nat ndigits * 2 then Inl (bad ''numeric digits'')
                else and_then (fold_results (acc_step f) 0 [0..<nat ndigits]) (\<lambda>acc.
                  let exp10 = (weight - ndigits + 1) * 4 + dscale
                  in and_then (shift_up (nat exp10) acc) (\<lambda>acc.
                       let acc = shift_down (nat (- exp10)) acc
                       in Inr (if sign = 0x4000 then - acc else acc, dscale))))"

definition POW10 :: "nat \<Rightarrow> int" where
  "POW10 k = 10 ^ k"

text \<open>
  The fast path: the header in one 64-bit load, its fields by shifts; the accumulator is a
  \<^verbatim>\<open>u64\<close> that three groups cannot overflow; the product by the table entry is unchecked.
  Where a condition fails the general decoder runs.
\<close>

definition fast_groups :: "bytes \<Rightarrow> nat \<Rightarrow> int" where
  "fast_groups f nd = fold (\<lambda>i acc. acc * 10000 + group_at f i) [0..<nd] 0"

definition numeric_fast :: "bytes \<Rightarrow> (int \<times> int) option" where
  "numeric_fast f =
     (if length f < 8 then None
      else let hdr = (from_be_bytes (take 8 f) :: u64);
               ndigits = (ucast (drop_bit 48 hdr) :: u16);
               sign = (ucast (drop_bit 16 hdr) :: u16)
           in if ndigits \<le> 3 \<and> (sign = 0 \<or> sign = 0x4000) then
                let nd = unat ndigits in
                if 8 + nd * 2 \<le> length f then
                  let dscale = uint (hdr AND 0xFFFF) in
                  if nd = 0 then Some (0, dscale)
                  else
                    let weight = sint (ucast (drop_bit 32 hdr) :: u16);
                        acc = fast_groups f nd;
                        exp10 = (weight - int nd + 1) * 4 + dscale
                    in if -26 \<le> exp10 \<and> exp10 \<le> 26 then
                         let v = (if exp10 \<ge> 0 then wrap_i128 (acc * POW10 (nat exp10)) else acc div POW10 (nat (- exp10)))
                         in Some (if sign = 0x4000 then wrap_i128 (- v) else v, dscale)
                       else None
                else None
              else None)"

definition numeric_to_scaled_i128_raw :: "bytes \<Rightarrow> (int \<times> int) result" where
  "numeric_to_scaled_i128_raw f =
     (case numeric_fast f of Some r \<Rightarrow> Inr r | None \<Rightarrow> numeric_to_scaled_i128_raw_general f)"

definition numeric_to_scaled_i128 :: "bytes \<Rightarrow> u32 \<Rightarrow> int result" where
  "numeric_to_scaled_i128 f scale =
     and_then (numeric_to_scaled_i128_raw f) (\<lambda>(v, dscale).
       let diff = signed_take_bit 31 (sint scale - dscale)
       in if diff = 0 then Inr v
          else if diff > 0 then
            and_then (ok_or (bad ''numeric overflow'') (checked_pow10 (nat diff))) (\<lambda>mul.
              ok_or (bad ''numeric overflow'') (checked_i128 (v * mul)))
          else (case checked_pow10 (nat (- diff)) of Some d \<Rightarrow> Inr (v sdiv d) | None \<Rightarrow> Inr 0))"

section \<open>The span stripper\<close>

record span_strip =
  ss_hdr :: bytes
  ss_skip :: nat
  ss_pending :: bytes

definition span_strip_new :: span_strip where
  "span_strip_new = \<lparr>ss_hdr = [], ss_skip = 0, ss_pending = []\<rparr>"

text \<open>The body relay, with the last two bytes held back.\<close>

definition relay :: "span_strip \<Rightarrow> bytes \<Rightarrow> bytes \<Rightarrow> span_strip \<times> bytes" where
  "relay s b out =
     (if b = [] then (s, out)
      else if length b = 1 then
        if length (ss_pending s) = 2
        then (s\<lparr>ss_pending := [ss_pending s ! 1, b ! 0]\<rparr>, out @ [ss_pending s ! 0])
        else (s\<lparr>ss_pending := ss_pending s @ [b ! 0]\<rparr>, out)
      else (s\<lparr>ss_pending := drop (length b - 2) b\<rparr>, out @ ss_pending s @ take (length b - 2) b))"

definition skip_ext :: "span_strip \<Rightarrow> bytes \<Rightarrow> bytes \<Rightarrow> span_strip \<times> bytes" where
  "skip_ext s b out =
     (if ss_skip s > 0 then
        let t = min (ss_skip s) (length b) in relay (s\<lparr>ss_skip := ss_skip s - t\<rparr>) (drop t b) out
      else relay s b out)"

definition span_push :: "span_strip \<Rightarrow> bytes \<Rightarrow> bytes \<Rightarrow> (span_strip \<times> bytes) result" where
  "span_push s b out =
     (if length (ss_hdr s) < 19 then
        let t = min (19 - length (ss_hdr s)) (length b);
            s = s\<lparr>ss_hdr := ss_hdr s @ take t b\<rparr>;
            b = drop t b
        in if length (ss_hdr s) < 19 then Inr (s, out)
           else if take 11 (ss_hdr s) \<noteq> copy_signature then Inl (Transfer Bad_copy_header)
           else Inr (skip_ext (s\<lparr>ss_skip := unat (from_be_bytes (take 4 (drop 15 (ss_hdr s))) :: u32)\<rparr>) b out)
      else Inr (skip_ext s b out))"

definition span_finished :: "span_strip \<Rightarrow> bool" where
  "span_finished s \<longleftrightarrow> length (ss_hdr s) = 19 \<and> ss_skip s = 0 \<and> ss_pending s = [0xFF, 0xFF]"

section \<open>The header in one load\<close>

lemma be_nat_append: "be_nat (xs @ ys) = be_nat xs * 256 ^ length ys + be_nat ys"
proof (induction ys rule: rev_induct)
  case (snoc y ys)
  then show ?case by (simp add: append_assoc [symmetric] algebra_simps del: append_assoc)
qed simp

lemma be_nat_bound: "be_nat bs < 256 ^ length bs"
proof (induction bs rule: rev_induct)
  case (snoc b bs)
  have "unat b < 256" using unsigned_less [of b, where ?'a = nat] by simp
  with snoc show ?case by simp
qed simp

lemma hdr_field:
  assumes "length xs + length ys + length zs = 8" "length ys = 2"
  shows "ucast (drop_bit (8 * length zs) (from_be_bytes (xs @ ys @ zs) :: u64)) = (from_be_bytes ys :: u16)"
proof -
  have "be_nat (xs @ ys @ zs) < 256 ^ 8" using be_nat_bound [of "xs @ ys @ zs"] assms by simp
  then have u: "unat (from_be_bytes (xs @ ys @ zs) :: u64) = be_nat (xs @ ys @ zs)"
    by (simp add: from_be_bytes_def unat_of_nat take_bit_nat_eq_self)
  have "unat (drop_bit (8 * length zs) (from_be_bytes (xs @ ys @ zs) :: u64)) = be_nat (xs @ ys @ zs) div 256 ^ length zs"
    unfolding unat_drop_bit_eq u by (simp add: drop_bit_eq_div power_mult)
  also have "\<dots> = be_nat (xs @ ys)"
    using be_nat_append [of "xs @ ys" zs] be_nat_bound [of zs] by simp
  also have "\<dots> = be_nat xs * 65536 + be_nat ys" using assms(2) by (simp add: be_nat_append)
  finally have "unat (drop_bit (8 * length zs) (from_be_bytes (xs @ ys @ zs) :: u64)) = be_nat xs * 65536 + be_nat ys" .
  then have "(ucast (drop_bit (8 * length zs) (from_be_bytes (xs @ ys @ zs) :: u64)) :: u16) = of_nat (be_nat xs * 65536 + be_nat ys)"
    by (metis of_nat_unat)
  moreover have "(of_nat (be_nat xs * 65536) :: u16) = 0" by (simp only: word_of_nat_eq_0_iff) simp
  ultimately show ?thesis by (simp only: from_be_bytes_def of_nat_add add_0_left)
qed

lemma hdr_fields:
  assumes "8 \<le> length f"
  defines "hdr \<equiv> (from_be_bytes (take 8 f) :: u64)"
  shows "(ucast (drop_bit 48 hdr) :: u16) = from_be_bytes (take 2 f)"
    and "(ucast (drop_bit 32 hdr) :: u16) = from_be_bytes (take 2 (drop 2 f))"
    and "(ucast (drop_bit 16 hdr) :: u16) = from_be_bytes (take 2 (drop 4 f))"
    and "uint (hdr AND 0xFFFF) = uint (from_be_bytes (take 2 (drop 6 f)) :: u16)"
proof -
  have cut: "take 8 f = take k f @ take 2 (drop k f) @ take (6 - k) (drop (k + 2) f)" if "k \<le> 6" for k
  proof -
    have e: "k + (8 - k) = 8" "2 + (6 - k) = 8 - k" using that by simp_all
    have "take 8 f = take k f @ take (8 - k) (drop k f)" using take_add [of k "8 - k" f] unfolding e .
    also have "take (8 - k) (drop k f) = take 2 (drop k f) @ take (6 - k) (drop (k + 2) f)"
      using take_add [of 2 "6 - k" "drop k f"] unfolding e by (simp add: add.commute)
    finally show ?thesis .
  qed
  have field: "(ucast (drop_bit (8 * (6 - k)) hdr) :: u16) = from_be_bytes (take 2 (drop k f))" if "k \<le> 6" for k
    using hdr_field [of "take k f" "take 2 (drop k f)" "take (6 - k) (drop (k + 2) f)"] that assms(1)
    unfolding hdr_def cut [OF that] by simp
  from field [of 0] field [of 2] field [of 4] show "(ucast (drop_bit 48 hdr) :: u16) = from_be_bytes (take 2 f)"
    "(ucast (drop_bit 32 hdr) :: u16) = from_be_bytes (take 2 (drop 2 f))"
    "(ucast (drop_bit 16 hdr) :: u16) = from_be_bytes (take 2 (drop 4 f))" by simp_all
  have "hdr AND 0xFFFF = take_bit 16 hdr" by (simp add: take_bit_eq_mask mask_eq_exp_minus_1)
  then have "uint (hdr AND 0xFFFF) = uint (ucast hdr :: u16)" by (simp add: unsigned_ucast_eq unsigned_take_bit_eq)
  also have "\<dots> = uint (from_be_bytes (take 2 (drop 6 f)) :: u16)" using field [of 6] by simp
  finally show "uint (hdr AND 0xFFFF) = uint (from_be_bytes (take 2 (drop 6 f)) :: u16)" .
qed

section \<open>The fast path\<close>

lemma fast_groups_Suc: "fast_groups f (Suc n) = fast_groups f n * 10000 + group_at f n"
  by (simp add: fast_groups_def)

lemma checked_i128_ok: "0 \<le> v \<Longrightarrow> v < 2 ^ 127 \<Longrightarrow> checked_i128 v = Some v"
  by (simp add: checked_i128_def)

lemma acc_groups:
  assumes "\<forall>i < n. group_at f i < 10000" "n \<le> 9"
  shows "fold_results (acc_step f) 0 [0..<n] = Inr (fast_groups f n) \<and> 0 \<le> fast_groups f n \<and> fast_groups f n < 10000 ^ n"
  using assms
proof (induction n)
  case 0
  then show ?case by (simp add: fast_groups_def)
next
  case (Suc n)
  then have IH: "fold_results (acc_step f) 0 [0..<n] = Inr (fast_groups f n)" "0 \<le> fast_groups f n" "fast_groups f n < 10000 ^ n"
    by auto
  have g: "0 \<le> group_at f n" "group_at f n < 10000" using Suc.prems by (simp_all add: group_at_def)
  have "(10000 :: int) ^ Suc n \<le> 10000 ^ 9" using Suc.prems(2) by (intro power_increasing) simp_all
  moreover have up: "fast_groups f n * 10000 + group_at f n < 10000 ^ Suc n" using IH(3) g by simp
  ultimately have "fast_groups f n * 10000 + group_at f n < 2 ^ 127" by simp
  then have "acc_step f (fast_groups f n) n = Inr (fast_groups f (Suc n))"
    using IH(2) g by (simp add: acc_step_def checked_i128_ok fast_groups_Suc)
  with IH g up show ?case by (simp add: fold_results_snoc fast_groups_Suc)
qed

lemma shift_up_mult: "0 \<le> acc \<Longrightarrow> acc * 10 ^ k < 2 ^ 127 \<Longrightarrow> shift_up k acc = Inr (acc * 10 ^ k)"
proof (induction k arbitrary: acc)
  case (Suc k)
  have "acc * 10 \<le> acc * 10 ^ Suc k" using Suc.prems(1) by (intro mult_left_mono) simp_all
  with Suc show ?case by (simp add: checked_i128_ok ac_simps)
qed simp

lemma shift_down_div: "0 \<le> acc \<Longrightarrow> shift_down k acc = acc div 10 ^ k"
proof (induction k arbitrary: acc)
  case (Suc k)
  have "acc sdiv 10 = acc div 10" using Suc.prems by (cases "acc = 0") (simp_all add: signed_divide_int_def)
  with Suc show ?case by (simp add: zdiv_zmult2_eq pos_imp_zdiv_nonneg_iff)
qed simp

lemma shift_zero: "shift_up k 0 = Inr 0" "shift_down k 0 = 0"
  by (simp_all add: shift_up_mult shift_down_div)

lemma wrap_i128_id: "- (2 ^ 127) \<le> v \<Longrightarrow> v < 2 ^ 127 \<Longrightarrow> wrap_i128 v = v"
  by (simp add: wrap_i128_def signed_take_bit_int_eq_self)

lemma wrap_i128_nonneg: "0 \<le> v \<Longrightarrow> v < 2 ^ 127 \<Longrightarrow> wrap_i128 v = v \<and> wrap_i128 (- v) = - v"
  using wrap_i128_id [of v] wrap_i128_id [of "- v"] by simp

definition groups_below :: "bytes \<Rightarrow> bool" where
  "groups_below f = list_all (\<lambda>i. group_at f i < 10000) [0..<nat (be_i16 (take 2 f))]"

lemma fast_small:
  assumes "(w :: u16) \<le> 3"
  shows "sint w = uint w" "unat w \<le> 3"
proof -
  have "unat w \<le> unat (3 :: u16)" using assms by (simp only: word_le_nat_alt)
  then show le: "unat w \<le> 3" by simp
  have "uint w = int (unat w)" by (simp add: of_nat_unat)
  with le have "uint w \<le> 3" by linarith
  moreover have "0 \<le> uint w" by simp
  ultimately have "- 32768 \<le> uint w" "uint w < 32768" by linarith+
  then show "sint w = uint w" unfolding sint_uint by (intro signed_take_bit_int_eq_self) simp_all
qed

text \<open>One shape of the fast path: its value is the general decoder's.\<close>

lemma numeric_fast_general:
  assumes "groups_below f" "numeric_fast f = Some r"
  shows "numeric_to_scaled_i128_raw_general f = Inr r"
proof -
  define N where "N = (from_be_bytes (take 2 f) :: u16)"
  define weight where "weight = be_i16 (take 2 (drop 2 f))"
  define sgn where "sgn = (from_be_bytes (take 2 (drop 4 f)) :: u16)"
  define dscale where "dscale = uint (from_be_bytes (take 2 (drop 6 f)) :: u16)"
  from assms(2) have len: "8 \<le> length f" by (auto simp: numeric_fast_def split: if_splits)
  note fields = hdr_fields [OF len, folded N_def sgn_def dscale_def]
  have weight': "sint (ucast (drop_bit 32 (from_be_bytes (take 8 f) :: u64)) :: u16) = weight"
    by (simp add: fields weight_def be_i16_def)
  let ?nd = "unat N"
  define ex where "ex = (weight - int ?nd + 1) * 4 + dscale"
  define v where "v = (if ex \<ge> 0 then wrap_i128 (fast_groups f ?nd * POW10 (nat ex)) else fast_groups f ?nd div POW10 (nat (- ex)))"
  have "numeric_fast f =
     (if N \<le> 3 \<and> (sgn = 0 \<or> sgn = 0x4000) then
        if 8 + ?nd * 2 \<le> length f then
          if ?nd = 0 then Some (0, dscale)
          else if -26 \<le> ex \<and> ex \<le> 26 then Some (if sgn = 0x4000 then wrap_i128 (- v) else v, dscale) else None
        else None
      else None)"
    unfolding numeric_fast_def Let_def fields(1,3,4) weight' ex_def v_def using len by (simp only: not_less [symmetric] if_False)
  from assms(2) [unfolded this] have cond: "N \<le> 3" "sgn = 0 \<or> sgn = 0x4000" "8 + ?nd * 2 \<le> length f"
    and res: "if ?nd = 0 then r = (0, dscale)
       else -26 \<le> ex \<and> ex \<le> 26 \<and> r = (if sgn = 0x4000 then wrap_i128 (- v) else v, dscale)"
    by (simp_all only: option.distinct option.inject split: if_split_asm) (simp_all only: if_True if_False simp_thms)
  note small = fast_small [OF cond(1)]
  have nd: "be_i16 (take 2 f) = int ?nd" using small(1) by (simp only: be_i16_def N_def [symmetric] of_nat_unat)
  have below: "\<forall>i < ?nd. group_at f i < 10000" using assms(1) by (simp add: groups_below_def nd list_all_iff)
  note acc = acc_groups [OF below, OF le_trans [OF small(2)]]
  have general: "numeric_to_scaled_i128_raw_general f =
      and_then (shift_up (nat ex) (fast_groups f ?nd)) (\<lambda>a. let a = shift_down (nat (- ex)) a
        in Inr (if sgn = 0x4000 then - a else a, dscale))"
  proof -
    have "sgn \<noteq> 0xC000" "sgn \<noteq> 0xD000" "sgn \<noteq> 0xF000" using cond(2) by auto
    with len cond acc show ?thesis
      unfolding numeric_to_scaled_i128_raw_general_def nd Let_def weight_def [symmetric] sgn_def [symmetric] dscale_def [symmetric]
        ex_def [symmetric] by (simp, blast)
  qed
  show ?thesis
  proof (cases "?nd = 0")
    case True
    with res show ?thesis by (simp add: general fast_groups_def shift_zero)
  next
    case False
    then have r: "-26 \<le> ex" "ex \<le> 26" "r = (if sgn = 0x4000 then wrap_i128 (- v) else v, dscale)" using res by simp_all
    have "(10000 :: int) ^ ?nd \<le> 10000 ^ 3" using small(2) by (intro power_increasing) simp_all
    then have a: "0 \<le> fast_groups f ?nd" "fast_groups f ?nd < 10 ^ 12" using acc by simp_all
    show ?thesis
    proof (cases "ex \<ge> 0")
      case True
      then have "(10 :: int) ^ nat ex \<le> 10 ^ 26" using r(2) by (intro power_increasing) simp_all
      then have "fast_groups f ?nd * 10 ^ nat ex \<le> 10 ^ 12 * 10 ^ 26" using a by (intro mult_mono) simp_all
      also have "\<dots> < (2 :: int) ^ 127" by simp
      finally have lt: "fast_groups f ?nd * 10 ^ nat ex < 2 ^ 127" .
      moreover have "0 \<le> fast_groups f ?nd * 10 ^ nat ex" using a by simp
      ultimately show ?thesis
        using True r(3) a wrap_i128_nonneg [of "fast_groups f ?nd * 10 ^ nat ex"]
        by (simp add: general shift_up_mult POW10_def v_def)
    next
      case False
      have "0 \<le> fast_groups f ?nd div 10 ^ nat (- ex)" using a by (simp add: pos_imp_zdiv_nonneg_iff)
      moreover have "fast_groups f ?nd div 10 ^ nat (- ex) \<le> fast_groups f ?nd" using a zdiv_mono2 [of "fast_groups f ?nd" 1 "10 ^ nat (- ex)"] by simp
      ultimately show ?thesis
        using False r(3) a wrap_i128_nonneg [of "fast_groups f ?nd div 10 ^ nat (- ex)"]
        by (simp add: general shift_down_div POW10_def v_def)
    qed
  qed
qed

lemma numeric_raw_general:
  "groups_below f \<Longrightarrow> numeric_to_scaled_i128_raw f = numeric_to_scaled_i128_raw_general f"
  using numeric_fast_general [of f] by (simp add: numeric_to_scaled_i128_raw_def split: option.split)

text \<open>
  C18: The fast path of the numeric decoder changes nothing: on a value whose digit groups are
  decimal, as the server writes them, the decoder with its one-load header, table of powers
  and unchecked product returns what the general decoder returns, value and error alike.
\<close>

theorem numeric_fast_path:
  assumes "groups_below f"
  shows "numeric_to_scaled_i128_raw f = numeric_to_scaled_i128_raw_general f"
  by (rule numeric_raw_general [OF assms])

theorem numeric_fast_path_witness:
  "numeric_to_scaled_i128_raw [0, 2, 0, 0, 0x40, 0, 0, 4, 0x04, 0xD2, 0x16, 0x2E] =
   numeric_to_scaled_i128_raw_general [0, 2, 0, 0, 0x40, 0, 0, 4, 0x04, 0xD2, 0x16, 0x2E]"
  by (rule numeric_fast_path)
    (simp add: groups_below_def be_i16_def from_be_bytes_def be_nat_def group_at_def upt_rec)

lemma shift_up_numeral:
  "shift_up (numeral k) acc = and_then (ok_or (bad ''numeric overflow'') (checked_i128 (acc * 10))) (shift_up (pred_numeral k))"
  by (simp add: numeral_eq_Suc)


section \<open>Digits and groups\<close>

text \<open>The number of a digit list in a base, most significant first.\<close>

definition number :: "nat \<Rightarrow> nat list \<Rightarrow> nat" where
  "number b ds = foldl (\<lambda>a d. a * b + d) 0 ds"

lemma number_snoc: "number b (ds @ [d]) = number b ds * b + d"
  by (simp add: number_def)

lemma number_append: "number b (xs @ ys) = number b xs * b ^ length ys + number b ys"
proof (induction ys rule: rev_induct)
  case (snoc y ys)
  then show ?case by (simp add: number_snoc append_assoc [symmetric] algebra_simps del: append_assoc)
qed (simp add: number_def)

lemma number_zeros: "number b (replicate n 0) = 0"
  by (induction n) (simp_all add: number_def)

lemma group_steps:
  assumes "\<forall>d \<in> set ds. d < 10" "fold (\<lambda>d s. group_step s d) ds ([], 0, 0) = (gs, acc, n)"
  shows "n < 4 \<and> acc < 10 ^ n \<and> length ds = 4 * length gs + n \<and> (\<forall>g \<in> set gs. g < 10000) \<and>
    number 10 ds = number 10000 gs * 10 ^ n + acc"
  using assms
proof (induction ds arbitrary: gs acc n rule: rev_induct)
  case Nil
  then show ?case by (simp add: number_def)
next
  case (snoc d ds)
  obtain gs0 acc0 n0 where st: "fold (\<lambda>d s. group_step s d) ds ([], 0, 0) = (gs0, acc0, n0)" by (rule prod_cases3)
  have d: "d < 10" using snoc.prems(1) by simp
  note IH = snoc.IH [OF _ st]
  from IH snoc.prems(1) have inv: "n0 < 4" "acc0 < 10 ^ n0" "length ds = 4 * length gs0 + n0" "\<forall>g \<in> set gs0. g < 10000"
    "number 10 ds = number 10000 gs0 * 10 ^ n0 + acc0" by auto
  have up: "acc0 * 10 + d < 10 ^ Suc n0" using inv(2) d by simp
  show ?case
  proof (cases "n0 = 3")
    case True
    with snoc.prems(2) st have "gs = gs0 @ [acc0 * 10 + d]" "acc = 0" "n = 0" by (auto simp: Let_def)
    with True inv up show ?thesis by (simp add: number_snoc algebra_simps)
  next
    case False
    with snoc.prems(2) st have "gs = gs0" "acc = acc0 * 10 + d" "n = Suc n0" by (auto simp: Let_def split: if_splits)
    with False inv up show ?thesis by (simp add: number_snoc algebra_simps)
  qed
qed

lemma group_all:
  assumes "\<forall>d \<in> set ds. d < 10" "length ds mod 4 = 0"
  shows "number 10000 (fst (fold (\<lambda>d s. group_step s d) ds ([], 0, 0))) = number 10 ds \<and>
    length (fst (fold (\<lambda>d s. group_step s d) ds ([], 0, 0))) = length ds div 4 \<and>
    (\<forall>g \<in> set (fst (fold (\<lambda>d s. group_step s d) ds ([], 0, 0))). g < 10000)"
proof -
  obtain gs acc n where st: "fold (\<lambda>d s. group_step s d) ds ([], 0, 0) = (gs, acc, n)" by (rule prod_cases3)
  note inv = group_steps [OF assms(1) st]
  with assms(2) have "n = 0" by auto
  with inv st show ?thesis by simp
qed

lemma digit_of_less: "is_digit b \<Longrightarrow> digit_of b < 10"
proof -
  assume "is_digit b"
  then have "0x30 \<le> b" "unat b \<le> 57" unfolding is_digit_def word_le_nat_alt by simp_all
  then show ?thesis by (simp add: digit_of_def unat_sub)
qed

lemma pad_left: "map (\<lambda>i. if i < p then 0 else digit_of (ip ! (i - p))) [0..<p + length ip] = replicate p 0 @ map digit_of ip"
  by (rule nth_equalityI) (auto simp: nth_append)

lemma pad_right:
  "length fp \<le> n \<Longrightarrow> map (\<lambda>i. if i < length fp then digit_of (fp ! i) else 0) [0..<n] = map digit_of fp @ replicate (n - length fp) 0"
  by (rule nth_equalityI) (auto simp: nth_append)

lemma pad_length: "((4 - n mod 4) mod 4 + n) mod 4 = 0 \<and> ((4 - n mod 4) mod 4 + n) div 4 = (n + 3) div (4 :: nat)"
proof -
  obtain q r where n: "n = 4 * q + r" "r < 4" by (metis mod_less_divisor mult_div_mod_eq zero_less_numeral)
  then consider "r = 0" | "r = 1" | "r = 2" | "r = 3" by linarith
  moreover have "n mod 4 = r" using n by simp
  ultimately show ?thesis by cases (simp_all add: n(1))
qed

lemma int_groups_number:
  assumes "list_all is_digit ip"
  shows "number 10000 (int_groups ip) = number 10 (map digit_of ip)" "length (int_groups ip) = (length ip + 3) div 4"
    "\<forall>g \<in> set (int_groups ip). g < 10000"
proof -
  let ?pad = "(4 - length ip mod 4) mod 4"
  let ?ds = "replicate ?pad 0 @ map digit_of ip"
  have eq: "int_groups ip = fst (fold (\<lambda>d s. group_step s d) ?ds ([], 0, 0))"
    unfolding int_groups_def Let_def pad_left [symmetric] fold_map comp_def ..
  have len: "length ?ds mod 4 = 0" using pad_length [of "length ip"] by (simp only: length_append length_replicate length_map)
  have dig: "\<forall>d \<in> set ?ds. d < 10" using assms by (auto simp: list_all_iff digit_of_less)
  note all = group_all [OF dig len]
  from all show "number 10000 (int_groups ip) = number 10 (map digit_of ip)"
    by (simp add: eq number_append number_zeros)
  from all have "length (int_groups ip) = (?pad + length ip) div 4" by (simp add: eq)
  then show "length (int_groups ip) = (length ip + 3) div 4" using pad_length [of "length ip"] by (simp only:)
  from all show "\<forall>g \<in> set (int_groups ip). g < 10000" by (simp add: eq)
qed

lemma frac_groups_number:
  assumes "list_all is_digit fp"
  shows "number 10000 (frac_groups fp) = number 10 (map digit_of fp) * 10 ^ ((length fp + 3) div 4 * 4 - length fp)"
    "length (frac_groups fp) = (length fp + 3) div 4" "\<forall>g \<in> set (frac_groups fp). g < 10000"
proof -
  let ?n = "(length fp + 3) div 4 * 4"
  let ?ds = "map digit_of fp @ replicate (?n - length fp) 0"
  have n: "length fp \<le> ?n" by presburger
  have eq: "frac_groups fp = fst (fold (\<lambda>d s. group_step s d) ?ds ([], 0, 0))"
    unfolding frac_groups_def pad_right [OF n, symmetric] fold_map comp_def ..
  have "length ?ds = ?n" using n by simp
  then have len: "length ?ds mod 4 = 0" "length ?ds div 4 = (length fp + 3) div 4" by (simp_all only: mod_mult_self2_is_0 div_mult_self_is_m zero_less_numeral)
  have dig: "\<forall>d \<in> set ?ds. d < 10" using assms by (auto simp: list_all_iff digit_of_less)
  note all = group_all [OF dig len(1)]
  from all show "number 10000 (frac_groups fp) = number 10 (map digit_of fp) * 10 ^ (?n - length fp)"
    by (simp add: eq number_append number_zeros)
  from all show "length (frac_groups fp) = (length fp + 3) div 4" by (simp only: eq len(2))
  from all show "\<forall>g \<in> set (frac_groups fp). g < 10000" by (simp add: eq)
qed

section \<open>Encoding and decoding\<close>

lemma acc_groups_fit:
  assumes "fast_groups f n < 2 ^ 127"
  shows "fold_results (acc_step f) 0 [0..<n] = Inr (fast_groups f n) \<and> 0 \<le> fast_groups f n"
  using assms
proof (induction n)
  case 0
  then show ?case by (simp add: fast_groups_def)
next
  case (Suc n)
  have g: "0 \<le> group_at f n" by (simp add: group_at_def)
  have nonneg: "0 \<le> fast_groups f k" for k
    by (induction k) (simp_all add: fast_groups_Suc group_at_def fast_groups_def [of _ 0])
  have le: "fast_groups f n \<le> fast_groups f n * 10000" using nonneg [of n] by simp
  have fit: "fast_groups f n * 10000 + group_at f n < 2 ^ 127" using Suc.prems by (simp only: fast_groups_Suc)
  then have "fold_results (acc_step f) 0 [0..<n] = Inr (fast_groups f n)" using Suc.IH le g by linarith
  moreover have "acc_step f (fast_groups f n) n = Inr (fast_groups f (Suc n))"
    using fit g nonneg [of n] by (simp add: acc_step_def checked_i128_ok fast_groups_Suc)
  ultimately show ?case using nonneg [of "Suc n"] by (simp add: fold_results_snoc)
qed

definition numeric_payload :: "nat list \<Rightarrow> int \<Rightarrow> u16 \<Rightarrow> nat \<Rightarrow> bytes" where
  "numeric_payload gs weight sign dscale =
     to_be_bytes (of_nat (length gs) :: u16) @ to_be_bytes (word_of_int weight :: u16) @ to_be_bytes sign
     @ to_be_bytes (of_nat dscale :: u16) @ concat (map (\<lambda>g. to_be_bytes (of_nat g :: u16)) gs)"

lemma two_bytes: "[xs ! k, xs ! Suc k] = take 2 (drop k xs)" if "Suc k < length xs"
  using that by (metis Cons_nth_drop_Suc Suc_lessD numeral_2_eq_2 take_Suc_Cons take0)

lemma concat_group:
  "i < length gs \<Longrightarrow> take 2 (drop (2 * i) (concat (map (\<lambda>g. to_be_bytes (of_nat g :: u16)) gs))) = to_be_bytes (of_nat (gs ! i) :: u16)"
proof (induction gs arbitrary: i)
  case (Cons g gs)
  then show ?case by (cases i) simp_all
qed simp

lemma length_payload: "length (numeric_payload gs w s d) = 8 + 2 * length gs"
proof -
  have "length (concat (map (\<lambda>g. to_be_bytes (of_nat g :: u16)) gs)) = 2 * length gs" by (induction gs) simp_all
  then show ?thesis by (simp add: numeric_payload_def)
qed

lemma payload_group:
  assumes "i < length gs" "gs ! i < 10000"
  shows "group_at (numeric_payload gs w s d) i = int (gs ! i)"
proof -
  have "[numeric_payload gs w s d ! (8 + 2 * i), numeric_payload gs w s d ! (9 + 2 * i)] = take 2 (drop (8 + 2 * i) (numeric_payload gs w s d))"
    using two_bytes [of "8 + 2 * i" "numeric_payload gs w s d"] assms(1) by (simp add: length_payload)
  also have "drop (8 + 2 * i) (numeric_payload gs w s d) = drop (2 * i) (concat (map (\<lambda>g. to_be_bytes (of_nat g :: u16)) gs))"
    by (simp add: numeric_payload_def)
  also have "take 2 \<dots> = to_be_bytes (of_nat (gs ! i) :: u16)" by (rule concat_group [OF assms(1)])
  finally have "group_at (numeric_payload gs w s d) i = uint (from_be_bytes (to_be_bytes (of_nat (gs ! i) :: u16)) :: u16)"
    by (simp only: group_at_def)
  with assms(2) show ?thesis by (simp add: from_to_be_bytes unsigned_of_nat take_bit_nat_eq_self)
qed

lemma payload_fields:
  "take 2 (numeric_payload gs w s d) = to_be_bytes (of_nat (length gs) :: u16)"
  "take 2 (drop 2 (numeric_payload gs w s d)) = to_be_bytes (word_of_int w :: u16)"
  "take 2 (drop 4 (numeric_payload gs w s d)) = to_be_bytes s"
  "take 2 (drop 6 (numeric_payload gs w s d)) = to_be_bytes (of_nat d :: u16)"
  by (simp_all add: numeric_payload_def)

lemma payload_number:
  assumes "\<forall>g \<in> set gs. g < 10000"
  shows "fast_groups (numeric_payload gs w s d) (length gs) = int (number 10000 gs)"
proof -
  have "fast_groups (numeric_payload gs w s d) k = int (number 10000 (take k gs))" if "k \<le> length gs" for k
    using that
  proof (induction k)
    case 0
    then show ?case by (simp add: fast_groups_def number_def)
  next
    case (Suc k)
    then have k: "k < length gs" "gs ! k < 10000" using assms by simp_all
    with Suc show ?case by (simp add: fast_groups_Suc payload_group take_Suc_conv_app_nth number_snoc)
  qed
  from this [of "length gs"] show ?thesis by simp
qed

lemma sint_small: "- 32768 \<le> k \<Longrightarrow> k < 32768 \<Longrightarrow> sint (word_of_int k :: u16) = k"
  by (simp only: sint_uint uint_word_of_int_eq signed_take_bit_take_bit) (simp add: signed_take_bit_int_eq_self)

text \<open>The decoder on an encoded payload, whose digits are at most its digit count apart from the scale.\<close>

lemma decode_payload:
  assumes "\<forall>g \<in> set gs. g < 10000" "length gs < 32768" "- 32768 \<le> w" "w < 32768" "d < 65536" "s = 0 \<or> s = 0x4000"
    and "int (number 10000 gs) < 2 ^ 127"
    and "(w - int (length gs) + 1) * 4 + int d = e" "int (number 10000 gs) * 10 ^ nat e < 2 ^ 127"
  shows "numeric_to_scaled_i128_raw (numeric_payload gs w s d) =
    Inr (let v = int (number 10000 gs) * 10 ^ nat e div 10 ^ nat (- e) in if s = 0x4000 then - v else v, int d)"
proof -
  let ?f = "numeric_payload gs w s d"
  have nd: "be_i16 (take 2 ?f) = int (length gs)"
    using sint_small [of "int (length gs)"] assms(2) by (simp add: payload_fields from_to_be_bytes be_i16_def)
  have weight: "be_i16 (take 2 (drop 2 ?f)) = w"
    using assms(3,4) by (simp add: payload_fields from_to_be_bytes be_i16_def sint_small)
  have sgn: "(from_be_bytes (take 2 (drop 4 ?f)) :: u16) = s" by (simp add: payload_fields from_to_be_bytes)
  have dscale: "uint (from_be_bytes (take 2 (drop 6 ?f)) :: u16) = int d"
    using assms(5) by (simp add: payload_fields from_to_be_bytes unsigned_of_nat take_bit_nat_eq_self)
  have "groups_below ?f" using assms(1) by (auto simp: groups_below_def nd list_all_iff payload_group)
  then have "numeric_to_scaled_i128_raw ?f = numeric_to_scaled_i128_raw_general ?f" by (rule numeric_raw_general)
  also have "\<dots> = Inr (let v = int (number 10000 gs) * 10 ^ nat e div 10 ^ nat (- e) in if s = 0x4000 then - v else v, int d)"
    using acc_groups_fit [of ?f "length gs"] assms(6-9)
    unfolding numeric_to_scaled_i128_raw_general_def nd weight sgn dscale Let_def payload_number [OF assms(1)] assms(8)
    by (auto simp: length_payload shift_up_mult shift_down_div)
  finally show ?thesis .
qed

lemma trim_groups:
  defines "lead gs \<equiv> length (takeWhile (\<lambda>g. g = 0) gs)"
  defines "kept gs \<equiv> rev (dropWhile (\<lambda>g. g = (0 :: nat)) (rev (drop (lead gs) gs)))"
  obtains tail where "gs = replicate (lead gs) 0 @ kept gs @ replicate tail 0"
proof -
  have zeros: "takeWhile (\<lambda>g. g = 0) xs = replicate (length (takeWhile (\<lambda>g. g = 0) xs)) 0" for xs :: "nat list"
    by (rule replicate_length_same [symmetric]) (auto dest: set_takeWhileD)
  have "gs = takeWhile (\<lambda>g. g = 0) gs @ drop (lead gs) gs" by (simp add: lead_def dropWhile_eq_drop [symmetric])
  also have "takeWhile (\<lambda>g. g = 0) gs = replicate (lead gs) 0" unfolding lead_def by (rule zeros)
  also have "drop (lead gs) gs = kept gs @ rev (takeWhile (\<lambda>g. g = 0) (rev (drop (lead gs) gs)))"
    unfolding kept_def by (metis rev_append rev_rev_ident takeWhile_dropWhile_id)
  also have "rev (takeWhile (\<lambda>g. g = 0) (rev (drop (lead gs) gs))) = replicate (length (takeWhile (\<lambda>g. g = 0) (rev (drop (lead gs) gs)))) 0"
    by (subst zeros) simp
  finally show thesis by (rule that)
qed

text \<open>The text of a decimal: a sign, integer digits, and a point before fraction digits.\<close>

definition decimal_text :: "bool \<Rightarrow> bytes \<Rightarrow> bytes \<Rightarrow> bytes" where
  "decimal_text neg ip fp = (if neg then [0x2D] else []) @ ip @ (if fp = [] then [] else [0x2E] @ fp)"

lemma digit_not_mark: "is_digit b \<Longrightarrow> b \<noteq> 0x2D \<and> b \<noteq> 0x2B \<and> b \<noteq> 0x2E"
  by (auto simp: is_digit_def)

lemma decimal_text_parts:
  assumes "list_all is_digit ip" "list_all is_digit fp" "ip @ fp \<noteq> []" "length ip + length fp \<le> 100"
  defines "gs \<equiv> int_groups ip @ frac_groups fp"
  defines "lead \<equiv> length (takeWhile (\<lambda>g. g = 0) gs)"
  defines "kept \<equiv> rev (dropWhile (\<lambda>g. g = 0) (rev (drop lead gs)))"
  shows "numeric_field_from_str (decimal_text neg ip fp) = Inr (field (numeric_payload kept
     (if kept = [] then 0 else int (length (int_groups ip)) - 1 - int lead) (if neg \<and> kept \<noteq> [] then 0x4000 else 0) (length fp)))"
proof -
  let ?rest = "ip @ (if fp = [] then [] else [0x2E] @ fp)"
  have ip: "\<forall>b \<in> set ip. b \<noteq> 0x2D \<and> b \<noteq> 0x2B \<and> b \<noteq> 0x2E" using assms(1) digit_not_mark by (auto simp: list_all_iff)
  then have "strip_prefix [0x2D] ?rest = None" "strip_prefix [0x2B] ?rest = None"
    using assms(3) by (cases ip; simp add: strip_prefix_def)+
  then have sign: "(case strip_prefix [0x2D] (decimal_text neg ip fp) of Some r \<Rightarrow> (True, r)
       | None \<Rightarrow> (False, case strip_prefix [0x2B] (decimal_text neg ip fp) of Some r \<Rightarrow> r | None \<Rightarrow> decimal_text neg ip fp)) = (neg, ?rest)"
    by (cases neg) (simp_all add: decimal_text_def strip_prefix_def)
  have split: "(case split_once 0x2E ?rest of Some p \<Rightarrow> p | None \<Rightarrow> (?rest, [])) = (ip, fp)"
    using ip position_None [of "\<lambda>b. b = 0x2E" ip] position_skip [of ip "\<lambda>b. b = 0x2E" "0x2E" fp] by (simp add: split_once_def)
  have "length gs = (length ip + 3) div 4 + (length fp + 3) div 4"
    using int_groups_number(2) [OF assms(1)] frac_groups_number(2) [OF assms(2)] by (simp add: gs_def)
  also have "\<dots> \<le> 32" using assms(4) by linarith
  finally have fit: "length gs \<le> 32" .
  show ?thesis
    unfolding numeric_field_from_str_def sign prod.case split Let_def gs_def [symmetric] lead_def [symmetric] kept_def [symmetric]
    using assms(1-4) fit by (simp add: field_def length_payload mult.commute) (simp add: numeric_payload_def)
qed

text \<open>
  C17: Writing a decimal as a binary numeric keeps its value: for every decimal text of digits
  with an optional sign and fraction, whose digits are a number below 10 to the 35, the
  encoder produces a field, and decoding its payload gives that number, negated for a
  leading minus, with the number of fraction digits as its scale.
\<close>

theorem numeric_text_roundtrip:
  assumes "list_all is_digit ip" "list_all is_digit fp" "ip @ fp \<noteq> []" "length ip + length fp \<le> 100"
    and "number 10 (map digit_of (ip @ fp)) < 10 ^ 35"
  shows "\<exists>payload. numeric_field_from_str (decimal_text neg ip fp) = Inr (field payload) \<and>
    numeric_to_scaled_i128_raw payload =
      Inr ((if neg then - 1 else 1) * int (number 10 (map digit_of (ip @ fp))), int (length fp))"
proof -
  define gs where "gs = int_groups ip @ frac_groups fp"
  define lead where "lead = length (takeWhile (\<lambda>g. g = 0) gs)"
  define kept where "kept = rev (dropWhile (\<lambda>g. g = 0) (rev (drop lead gs)))"
  define N where "N = number 10 (map digit_of (ip @ fp))"
  define p where "p = (length fp + 3) div 4 * 4 - length fp"
  obtain tail where gs: "gs = replicate lead 0 @ kept @ replicate tail 0"
    using trim_groups [of gs] unfolding lead_def kept_def by blast
  note ig = int_groups_number [OF assms(1)] and fg = frac_groups_number [OF assms(2), folded p_def]
  have fl: "4 * length (frac_groups fp) = length fp + p" "p \<le> 3" unfolding fg(2) p_def by linarith+
  have "number 10000 gs = number 10 (map digit_of ip) * 10 ^ (length fp + p) + number 10 (map digit_of fp) * 10 ^ p"
    unfolding gs_def number_append ig fg(1) fl(1) [symmetric] by (simp add: power_mult)
  also have "\<dots> = N * 10 ^ p" by (simp add: N_def number_append power_add algebra_simps)
  finally have val: "number 10000 kept * 10 ^ (4 * tail) = N * 10 ^ p"
    by (simp add: gs number_append number_zeros power_mult)
  have below: "\<forall>g \<in> set kept. g < 10000"
  proof -
    have "set kept \<subseteq> set gs" by (subst gs) auto
    then show ?thesis using ig(3) fg(3) by (auto simp: gs_def)
  qed
  have lens: "lead + length kept + tail = length (int_groups ip) + length (frac_groups fp)"
    using arg_cong [OF gs, of length] by (simp add: gs_def)
  have small: "length (int_groups ip) + length (frac_groups fp) \<le> 32" unfolding ig(2) fg(2) using assms(4) by linarith
  have "number 10000 kept \<le> number 10000 kept * 10 ^ (4 * tail)" by simp
  also have "\<dots> < 10 ^ 35 * 10 ^ 3"
    unfolding val using assms(5) power_increasing [OF fl(2), of "10 :: nat"] by (intro mult_less_le_imp_less) (simp_all add: N_def)
  finally have bound: "number 10000 kept < 10 ^ 38" by simp
  let ?w = "if kept = [] then 0 else int (length (int_groups ip)) - 1 - int lead"
  let ?s = "(if neg \<and> kept \<noteq> [] then 0x4000 else 0 :: u16)"
  define e where "e = (?w - int (length kept) + 1) * 4 + int (length fp)"
  have scaled: "int (number 10000 kept) * 10 ^ nat e < 2 ^ 127 \<and> int (number 10000 kept) * 10 ^ nat e div 10 ^ nat (- e) = int N"
  proof (cases "kept = []")
    case True
    then have "N = 0" using val by (simp add: number_def)
    with True show ?thesis by (simp add: number_def)
  next
    case False
    then have e: "e = 4 * int tail - int p" unfolding e_def using lens fl(1) by simp
    show ?thesis
    proof (cases "tail = 0")
      case True
      then have n: "nat e = 0" "nat (- e) = p" using e by simp_all
      from val True have "number 10000 kept = N * 10 ^ p" by simp
      then have "int (number 10000 kept) = int N * 10 ^ p" by simp
      then have "int (number 10000 kept) div 10 ^ p = int N" by simp
      moreover have "int (number 10000 kept) < int (10 ^ 38)" using bound by (simp only: of_nat_less_iff)
      then have "int (number 10000 kept) < 2 ^ 127" by simp
      ultimately show ?thesis unfolding n by simp
    next
      case False
      then have "nat e = 4 * tail - p" "nat (- e) = 0" "p \<le> 4 * tail" using e fl(2) by simp_all
      moreover from this have "number 10000 kept * 10 ^ (4 * tail - p) * 10 ^ p = N * 10 ^ p"
        using val by (simp add: mult.assoc flip: power_add)
      then have N: "number 10000 kept * 10 ^ (4 * tail - p) = N" by simp
      then have "int (number 10000 kept) * 10 ^ (4 * tail - p) = int N" by (metis of_nat_mult of_nat_power of_nat_numeral)
      moreover have "int N < 2 ^ 127" using assms(5) by (simp add: N_def)
      ultimately show ?thesis by simp
    qed
  qed
  have "numeric_to_scaled_i128_raw (numeric_payload kept ?w ?s (length fp)) =
      Inr (let v = int (number 10000 kept) * 10 ^ nat e div 10 ^ nat (- e) in if ?s = 0x4000 then - v else v, int (length fp))"
    using below lens small assms(4) bound scaled by (intro decode_payload [OF _ _ _ _ _ _ _ e_def [symmetric]]) auto
  moreover have "N = 0" if "kept = []" using val that by (simp add: number_def)
  ultimately have "numeric_to_scaled_i128_raw (numeric_payload kept ?w ?s (length fp)) = Inr ((if neg then - 1 else 1) * int N, int (length fp))"
    using scaled by (auto simp: Let_def)
  with decimal_text_parts [OF assms(1-4), of neg] show ?thesis
    unfolding N_def gs_def [symmetric] lead_def [symmetric] kept_def [symmetric] by blast
qed

theorem numeric_text_roundtrip_witness:
  "\<exists>payload. numeric_field_from_str [0x2D, 0x31, 0x32, 0x2E, 0x35] = Inr (field payload) \<and>
    numeric_to_scaled_i128_raw payload = Inr (- 125, 1)"
proof -
  have "decimal_text True [0x31, 0x32] [0x35] = [0x2D, 0x31, 0x32, 0x2E, 0x35]" by (simp add: decimal_text_def)
  moreover have "number 10 (map digit_of ([0x31, 0x32] @ [0x35])) = 125" by (simp add: number_def digit_of_def)
  moreover have "list_all is_digit [0x31, 0x32]" "list_all is_digit [0x35]" by (simp_all add: is_digit_def)
  ultimately show ?thesis using numeric_text_roundtrip [of "[0x31, 0x32]" "[0x35]" True] by simp
qed

section \<open>Any cut of the span\<close>

text \<open>
  The reference: what the stripper has after a whole prefix of the span. The header's
  extension length says how much to skip; of the body all but the last two bytes are out.
\<close>

definition ext_len :: "bytes \<Rightarrow> nat" where
  "ext_len hdr = unat (from_be_bytes (take 4 (drop 15 hdr)) :: u32)"

definition held_back :: "bytes \<Rightarrow> bytes" where
  "held_back body = drop (length body - 2) body"

definition relayed :: "bytes \<Rightarrow> bytes" where
  "relayed body = take (length body - 2) body"

definition after_header :: "bytes \<Rightarrow> bytes \<Rightarrow> span_strip \<times> bytes" where
  "after_header hdr x =
     (\<lparr>ss_hdr = hdr, ss_skip = ext_len hdr - length x, ss_pending = held_back (drop (ext_len hdr) x)\<rparr>,
      relayed (drop (ext_len hdr) x))"

definition stripped :: "bytes \<Rightarrow> (span_strip \<times> bytes) result" where
  "stripped b =
     (if length b < 19 then Inr (\<lparr>ss_hdr = b, ss_skip = 0, ss_pending = []\<rparr>, [])
      else if take 11 b \<noteq> copy_signature then Inl (Transfer Bad_copy_header)
      else Inr (after_header (take 19 b) (drop 19 b)))"

lemma relay_held:
  "relay (s\<lparr>ss_pending := drop (length x - 2) x\<rparr>) b (out @ take (length x - 2) x) =
   (s\<lparr>ss_pending := drop (length (x @ b) - 2) (x @ b)\<rparr>, out @ take (length (x @ b) - 2) (x @ b))"
proof -
  consider "b = []" | c where "b = [c]" | "length b \<ge> 2" by (cases b; cases "tl b") auto
  then show ?thesis
  proof cases
    case 1
    then show ?thesis by (simp add: relay_def)
  next
    case (2 c)
    show ?thesis
    proof (cases "length x \<ge> 2")
      case True
      then obtain v u y where "rev x = v # u # y" by (cases "rev x"; cases "tl (rev x)") auto
      then have "x = rev y @ [u, v]" by (metis append.assoc append_Cons append_Nil rev.simps(2) rev_rev_ident)
      then show ?thesis using 2 by (simp add: relay_def)
    next
      case False
      then have "x = [] \<or> (\<exists>u. x = [u])" by (cases x; cases "tl x") auto
      then show ?thesis using 2 by (auto simp: relay_def)
    qed
  next
    case 3
    then have "relay (s\<lparr>ss_pending := drop (length x - 2) x\<rparr>) b (out @ take (length x - 2) x) =
      (s\<lparr>ss_pending := drop (length b - 2) b\<rparr>, (out @ take (length x - 2) x) @ drop (length x - 2) x @ take (length b - 2) b)"
      by (auto simp: relay_def)
    with 3 show ?thesis by simp
  qed
qed

lemma skip_ext_after:
  "skip_ext (fst (after_header hdr x)) c (snd (after_header hdr x)) = after_header hdr (x @ c)"
proof -
  let ?n = "ext_len hdr"
  have relay: "relay \<lparr>ss_hdr = hdr, ss_skip = k, ss_pending = held_back y\<rparr> d (relayed y) =
      (\<lparr>ss_hdr = hdr, ss_skip = k, ss_pending = held_back (y @ d)\<rparr>, relayed (y @ d))" for k y d
    using relay_held [where s = "\<lparr>ss_hdr = hdr, ss_skip = k, ss_pending = []\<rparr>" and x = y and b = d and out = "[]"] by (simp add: held_back_def relayed_def)
  show ?thesis
  proof (cases "length x < ?n")
    case True
    then have t: "drop ?n x = []" "?n - length x - min (?n - length x) (length c) = ?n - length (x @ c)"
      "drop (min (?n - length x) (length c)) c = drop ?n (x @ c)" by (auto simp: min_def)
    have "skip_ext (fst (after_header hdr x)) c (snd (after_header hdr x)) =
        relay \<lparr>ss_hdr = hdr, ss_skip = ?n - length (x @ c), ss_pending = held_back []\<rparr> (drop ?n (x @ c)) (relayed [])"
      using True unfolding skip_ext_def after_header_def Let_def t(1) by (simp add: t(2) [simplified] t(3) [simplified])
    then show ?thesis unfolding relay by (simp add: after_header_def)
  next
    case False
    then have "skip_ext (fst (after_header hdr x)) c (snd (after_header hdr x)) =
        relay \<lparr>ss_hdr = hdr, ss_skip = 0, ss_pending = held_back (drop ?n x)\<rparr> c (relayed (drop ?n x))"
      by (simp add: skip_ext_def after_header_def)
    then show ?thesis unfolding relay using False by (simp add: after_header_def)
  qed
qed

lemma span_push_stripped:
  assumes "stripped b = Inr (s, out)"
  shows "span_push s c out = stripped (b @ c)"
proof (cases "length b < 19")
  case True
  with assms have s: "s = \<lparr>ss_hdr = b, ss_skip = 0, ss_pending = []\<rparr>" "out = []" by (auto simp: stripped_def)
  let ?t = "min (19 - length b) (length c)"
  show ?thesis
  proof (cases "length (b @ c) < 19")
    case True
    with s show ?thesis by (simp add: span_push_def stripped_def min_def)
  next
    case False
    then have t: "b @ take ?t c = take 19 (b @ c)" "drop ?t c = drop 19 (b @ c)" "length (take 19 (b @ c)) = 19"
      using True by (auto simp: min_def)
    let ?h = "take 19 (b @ c)"
    have new: "fst (after_header ?h []) = \<lparr>ss_hdr = ?h, ss_skip = ext_len ?h, ss_pending = []\<rparr>" "snd (after_header ?h []) = []"
      by (simp_all add: after_header_def held_back_def relayed_def)
    have "span_push s c out = (if take 11 ?h \<noteq> copy_signature then Inl (Transfer Bad_copy_header)
       else Inr (skip_ext (fst (after_header ?h [])) (drop 19 (b @ c)) (snd (after_header ?h []))))"
      unfolding span_push_def s Let_def new ext_len_def
      by (simp only: True t span_strip.simps if_True if_False less_irrefl simp_thms)
    also have "\<dots> = stripped (b @ c)"
      unfolding skip_ext_after using False by (simp add: stripped_def min_def del: take_append drop_append)
    finally show ?thesis .
  qed
next
  case False
  with assms have s: "(s, out) = after_header (take 19 b) (drop 19 b)" "take 11 b = copy_signature"
    by (auto simp: stripped_def split: if_splits)
  then have "length (ss_hdr s) = 19" using False by (auto simp: after_header_def)
  then have "span_push s c out = Inr (skip_ext (fst (after_header (take 19 b) (drop 19 b))) c (snd (after_header (take 19 b) (drop 19 b))))"
    by (simp add: span_push_def flip: s(1))
  with False s(2) show ?thesis unfolding skip_ext_after by (simp add: stripped_def)
qed

lemma stripped_finished:
  "(case stripped b of Inr (s, _) \<Rightarrow> span_finished s | Inl _ \<Rightarrow> False) =
     (19 \<le> length b \<and> take 11 b = copy_signature \<and> held_back (drop (19 + ext_len (take 19 b)) b) = [0xFF, 0xFF])"
proof (cases "length b < 19 \<or> take 11 b \<noteq> copy_signature")
  case True
  then show ?thesis by (auto simp: stripped_def span_finished_def)
next
  case False
  have "ext_len (take 19 b) - (length b - 19) = 0" if "held_back (drop (19 + ext_len (take 19 b)) b) = [0xFF, 0xFF]"
    using that by (cases "drop (19 + ext_len (take 19 b)) b = []") (simp_all add: held_back_def)
  with False show ?thesis by (auto simp: stripped_def span_finished_def after_header_def add.commute)
qed

lemma span_pieces:
  "fold_results (\<lambda>(s, out) piece. span_push s piece out) (span_strip_new, []) pieces = stripped (concat pieces)"
proof (induction pieces rule: rev_induct)
  case Nil
  then show ?case by (simp add: span_strip_new_def stripped_def)
next
  case (snoc piece pieces)
  show ?case
  proof (cases "stripped (concat pieces)")
    case (Inl e)
    then have "stripped (concat (pieces @ [piece])) = Inl e" by (auto simp: stripped_def split: if_splits)
    with Inl snoc show ?thesis by (simp add: fold_results_snoc)
  next
    case (Inr p)
    then obtain s out where p: "stripped (concat pieces) = Inr (s, out)" by (cases p) simp
    with snoc span_push_stripped [OF p, of piece] show ?thesis by (simp add: fold_results_snoc)
  qed
qed

text \<open>
  C19: Stripping a span does not depend on how its bytes are cut: fed any sequence of pieces,
  empty ones included, the stripper ends as on the whole: it refuses a wrong signature as
  soon as the header is complete, drops the header and its extension, has relayed all of the
  body but the last two bytes, and reports a finished span exactly when these are the trailer.
\<close>

theorem span_strip_any_cut:
  "fold_results (\<lambda>(s, out) piece. span_push s piece out) (span_strip_new, []) pieces = stripped (concat pieces) \<and>
   (case stripped b of Inr (s, _) \<Rightarrow> span_finished s | Inl _ \<Rightarrow> False) =
     (19 \<le> length b \<and> take 11 b = copy_signature \<and> held_back (drop (19 + ext_len (take 19 b)) b) = [0xFF, 0xFF])"
  using span_pieces stripped_finished by blast

end
