(* ===== verification/Rowbinary.thy ===== *)
theory Rowbinary
  imports Pgcopy
begin

text \<open>
  Binary COPY to ClickHouse RowBinary (\<^verbatim>\<open>wire/rowbinary.rs\<close>): the choice of a transcoding per
  column, the field transcoder, the streaming transcoder with its carry buffer, and the
  RowBinary rows and keys of the change stream (\<^verbatim>\<open>logbased/rowtext.rs\<close>). The division that
  turns an unconstrained numeric into a float is a parameter (\<open>to_f64\<close>): the standard library
  leaves its precision open. The stream is proved to be transcoded in the same way however it
  is cut into pieces.
\<close>

section \<open>Column types\<close>

datatype rb_type =
    Swap nat
  | RbBool
  | Date32
  | Ts64
  | RbDecimal nat u32
  | NumericF64
  | RbString
  | JsonB
  | RbUuid

text \<open>\<^verbatim>\<open>plan.rs\<close>: the shape a declared precision and scale need.\<close>

definition decimal_shape :: "int \<Rightarrow> int \<Rightarrow> int \<times> int" where
  "decimal_shape p s = (if s < 0 then (p - s, 0) else (max p s, s))"

definition decimal_width :: "int \<Rightarrow> nat" where
  "decimal_width p = (if p \<le> 9 then 4 else if p \<le> 18 then 8 else 16)"

definition rb_numeric :: "int option \<Rightarrow> int option \<Rightarrow> rb_type option" where
  "rb_numeric precision scale =
     (case (precision, scale) of
        (Some p, Some s) \<Rightarrow>
          let (p', s') = decimal_shape p s
          in if p' \<le> 38 then Some (RbDecimal (decimal_width p') (word_of_int s')) else None
      | (Some p, None) \<Rightarrow> if p > 38 then None else Some NumericF64
      | (None, _) \<Rightarrow> Some NumericF64)"

definition rb_type_of :: "bytes \<Rightarrow> int option \<Rightarrow> int option \<Rightarrow> rb_type option" where
  "rb_type_of udt precision scale =
     (if udt = ascii ''int2'' then Some (Swap 2)
      else if udt = ascii ''int4'' then Some (Swap 4)
      else if udt = ascii ''int8'' then Some (Swap 8)
      else if udt = ascii ''float4'' then Some (Swap 4)
      else if udt = ascii ''float8'' then Some (Swap 8)
      else if udt = ascii ''bool'' then Some RbBool
      else if udt = ascii ''date'' then Some Date32
      else if udt = ascii ''timestamp'' \<or> udt = ascii ''timestamptz'' then Some Ts64
      else if udt = ascii ''numeric'' then rb_numeric precision scale
      else if udt \<in> {ascii ''varchar'', ascii ''bpchar'', ascii ''text'', ascii ''name'', ascii ''json''} then Some RbString
      else if udt = ascii ''jsonb'' then Some JsonB
      else if udt = ascii ''uuid'' then Some RbUuid
      else None)"

text \<open>\<^verbatim>\<open>str::parse::<u32>\<close>.\<close>

definition parse_u32 :: "bytes \<Rightarrow> u32 option" where
  "parse_u32 s =
     (case parse_u64_radix 10 s of
        Some v \<Rightarrow> if unat v < 2 ^ 32 then Some (ucast v) else None
      | None \<Rightarrow> None)"

definition parse_ch_decimal :: "bytes \<Rightarrow> (u32 \<times> u32) option" where
  "parse_ch_decimal s =
     Option.bind (strip_prefix (ascii ''Decimal('') s) (\<lambda>s.
     Option.bind (strip_suffix (ascii '')'') s) (\<lambda>inner.
     Option.bind (split_once (byte_of CHR '','') inner) (\<lambda>(p, sc).
     Option.bind (parse_u32 (trim_str p)) (\<lambda>p.
     Option.bind (parse_u32 (trim_str sc)) (\<lambda>sc. Some (p, sc))))))"

text \<open>The type inside \<^verbatim>\<open>Nullable(...)\<close>, and whether it was there.\<close>

definition ch_inner :: "bytes \<Rightarrow> bytes \<times> bool" where
  "ch_inner ch =
     (case Option.bind (strip_prefix (ascii ''Nullable('') ch) (strip_suffix (ascii '')'')) of
        Some i \<Rightarrow> (i, True)
      | None \<Rightarrow> (ch, False))"

definition rb_inner :: "bytes \<Rightarrow> rb_type option" where
  "rb_inner inner =
     (if inner \<in> {ascii ''Bool'', ascii ''UInt8'', ascii ''Int8''} then Some RbBool
      else if inner \<in> {ascii ''Int16'', ascii ''UInt16''} then Some (Swap 2)
      else if inner \<in> {ascii ''Int32'', ascii ''UInt32''} then Some (Swap 4)
      else if inner \<in> {ascii ''Int64'', ascii ''UInt64''} then Some (Swap 8)
      else if inner = ascii ''Float32'' then Some (Swap 4)
      else if inner = ascii ''Float64'' then Some (Swap 8)
      else if inner = ascii ''Date32'' then Some Date32
      else if strip_prefix (ascii ''DateTime64(6'') inner \<noteq> None then Some Ts64
      else if inner = ascii ''String'' then Some RbString
      else if inner = ascii ''UUID'' then Some RbUuid
      else if inner = ascii ''JSON'' then Some JsonB
      else if strip_prefix (ascii ''Decimal('') inner \<noteq> None then
        Option.bind (parse_ch_decimal inner) (\<lambda>(p, sc).
          if p > 38 then None else Some (RbDecimal (decimal_width (uint p)) sc))
      else None)"

definition rb_type_from_ch :: "bytes \<Rightarrow> (rb_type \<times> bool) option" where
  "rb_type_from_ch ch = (let (inner, nullable) = ch_inner ch in map_option (\<lambda>ty. (ty, nullable)) (rb_inner inner))"

fun is_decimal :: "rb_type \<Rightarrow> bool" where
  "is_decimal (RbDecimal w s) = True"
| "is_decimal NumericF64 = True"
| "is_decimal _ = False"

definition rb_type_for_cdc :: "u32 \<Rightarrow> rb_type \<Rightarrow> bytes \<Rightarrow> rb_type option" where
  "rb_type_for_cdc oid ch ch_name =
     (let inner = fst (ch_inner ch_name);
          exact = (\<lambda>want. if inner = want then Some ch else None)
      in if oid = 16 then (if ch = RbBool then Some ch else None)
         else if oid = 20 then exact (ascii ''Int64'')
         else if oid = 21 then exact (ascii ''Int16'')
         else if oid = 23 then exact (ascii ''Int32'')
         else if oid = 700 then exact (ascii ''Float32'')
         else if oid = 701 then exact (ascii ''Float64'')
         else if oid = 1082 then (if ch = Date32 then Some ch else None)
         else if oid = 1114 \<or> oid = 1184 then (if ch = Ts64 then Some ch else None)
         else if oid = 1700 then (if is_decimal ch then Some ch else None)
         else if oid = 2950 then (if ch = RbUuid then Some ch else None)
         else if oid \<in> {25, 1043, 1042, 19, 114} then (if ch = RbString then Some ch else None)
         else if oid = 3802 then (if ch = RbString then Some JsonB else None)
         else None)"

section \<open>Fields\<close>

definition to_le_bytes :: "'a::len word \<Rightarrow> bytes" where
  "to_le_bytes w = rev (to_be_bytes w)"

function varint :: "u64 \<Rightarrow> bytes" where
  "varint v =
     (let byte = (ucast (v AND 0x7F) :: byte); v' = drop_bit 7 v
      in if v' = 0 then [byte] else (byte OR 0x80) # varint v')"
  by auto
termination
proof (relation "measure unat")
  fix v x v' :: u64
  assume v: "v' = drop_bit 7 v" "v' \<noteq> 0"
  have "unat v' = unat v div 128" unfolding v(1) by (simp add: drop_bit_eq_div unat_div)
  moreover have "unat v' \<noteq> 0" using v(2) by (simp only: unsigned_eq_0_iff not_False_eq_True)
  ultimately show "(v', v) \<in> measure unat" by (cases "unat v = 0") simp_all
qed simp

declare varint.simps [simp del]

definition in_range :: "nat \<Rightarrow> int \<Rightarrow> bool" where
  "in_range bits v \<longleftrightarrow> - (2 ^ (bits - 1)) \<le> v \<and> v < 2 ^ (bits - 1)"

fun transcode_field :: "(int \<Rightarrow> int \<Rightarrow> u64) \<Rightarrow> rb_type \<Rightarrow> bytes \<Rightarrow> bytes result" where
  "transcode_field to_f64 (Swap w) f =
     (if (w = 2 \<or> w = 4 \<or> w = 8) \<and> length f = w then Inr (rev f) else Inl (Transfer (Field_width (length f) w)))"
| "transcode_field to_f64 RbBool f = (case f of [] \<Rightarrow> Inl (bad ''bool'') | b # _ \<Rightarrow> Inr [b])"
| "transcode_field to_f64 Date32 f =
     (if length f \<noteq> 4 then Inl (bad ''date'')
      else let d = be_i32 f in
        if d = 2 ^ 31 - 1 \<or> d = - (2 ^ 31) then Inl (Transfer (Infinite_value (ascii ''date'')))
        else if in_range 32 (d + PG_EPOCH_DAYS) then Inr (to_le_bytes (word_of_int (d + PG_EPOCH_DAYS) :: u32))
        else Inl (bad ''date''))"
| "transcode_field to_f64 Ts64 f =
     (if length f \<noteq> 8 then Inl (bad ''timestamp'')
      else let t = be_i64 f in
        if t = 2 ^ 63 - 1 \<or> t = - (2 ^ 63) then Inl (Transfer (Infinite_value (ascii ''timestamp'')))
        else if in_range 64 (t + PG_EPOCH_MICROS) then Inr (to_le_bytes (word_of_int (t + PG_EPOCH_MICROS) :: u64))
        else Inl (bad ''timestamp''))"
| "transcode_field to_f64 (RbDecimal width scale) f =
     and_then (numeric_to_scaled_i128 f scale) (\<lambda>v.
       if width = 4 then
         if in_range 32 v then Inr (to_le_bytes (word_of_int v :: u32)) else Inl (bad ''decimal'')
       else if width = 8 then
         if in_range 64 v then Inr (to_le_bytes (word_of_int v :: u64)) else Inl (bad ''decimal'')
       else Inr (to_le_bytes (word_of_int v :: 128 word)))"
| "transcode_field to_f64 NumericF64 f =
     and_then (numeric_to_scaled_i128_raw f) (\<lambda>(v, dscale). Inr (to_le_bytes (to_f64 v dscale)))"
| "transcode_field to_f64 RbString f = Inr (varint (of_nat (length f)) @ f)"
| "transcode_field to_f64 JsonB f =
     (case f of
        [] \<Rightarrow> Inl (bad ''jsonb version'')
      | v # text \<Rightarrow> if v \<noteq> 1 then Inl (bad ''jsonb version'') else Inr (varint (of_nat (length text)) @ text))"
| "transcode_field to_f64 RbUuid f =
     (if length f \<noteq> 16 then Inl (bad ''uuid'') else Inr (rev (take 8 f) @ rev (drop 8 f)))"

section \<open>One tuple\<close>

text \<open>
  The fields of a tuple from offset \<open>off\<close> on; \<open>None\<close> when the bytes end inside it. On every
  other way out the source truncates its output to where the tuple began or fails.
\<close>

fun tuple_fields :: "(int \<Rightarrow> int \<Rightarrow> u64) \<Rightarrow> nat \<Rightarrow> bytes \<Rightarrow> (rb_type \<times> bool) list \<Rightarrow> nat \<Rightarrow> bytes \<Rightarrow> (nat \<times> bytes) option result" where
  "tuple_fields to_f64 max_field b [] off out = Inr (Some (off, out))"
| "tuple_fields to_f64 max_field b ((ty, nullable) # cols) off out =
     (if length b < off + 4 then Inr None
      else let len = be_i32 (take 4 (drop off b)); off = off + 4 in
        if len = -1 then
          if \<not> nullable then Inl (Transfer Null_not_nullable)
          else tuple_fields to_f64 max_field b cols off (out @ [1])
        else if len < 0 then Inl (Transfer (Negative_length len))
        else if nat len > max_field then Inl (Transfer (Field_too_big (nat len) max_field))
        else if length b < off + nat len then Inr None
        else and_then (transcode_field to_f64 ty (take (nat len) (drop off b))) (\<lambda>bs.
          tuple_fields to_f64 max_field b cols (off + nat len) (out @ (if nullable then [0] else []) @ bs)))"

text \<open>The bytes consumed, whether the trailer was reached, and what was appended.\<close>

definition try_tuple_at :: "(int \<Rightarrow> int \<Rightarrow> u64) \<Rightarrow> (rb_type \<times> bool) list \<Rightarrow> nat \<Rightarrow> bytes \<Rightarrow> (nat \<times> bool \<times> bytes) option result" where
  "try_tuple_at to_f64 cols max_field b =
     (if length b < 2 then Inr None
      else let ncols = be_i16 (take 2 b) in
        if ncols = -1 then Inr (Some (2, True, []))
        else if ncols < 0 \<or> nat ncols \<noteq> length cols then Inl (Transfer (Tuple_fields ncols (length cols)))
        else and_then (tuple_fields to_f64 max_field b cols 2 []) (\<lambda>r.
          Inr (map_option (\<lambda>(off, out). (off, False, out)) r)))"

section \<open>The streaming transcoder\<close>

record transcoder =
  t_cols :: "(rb_type \<times> bool) list"
  t_buf :: bytes
  t_pos :: nat
  t_header_done :: bool
  t_finished :: bool
  t_rows :: nat
  t_max_field :: nat

definition transcoder_new :: "nat \<Rightarrow> (rb_type \<times> bool) list \<Rightarrow> transcoder" where
  "transcoder_new max_field cols =
     \<lparr>t_cols = cols, t_buf = [], t_pos = 0, t_header_done = False, t_finished = False, t_rows = 0,
      t_max_field = max_field\<rparr>"

lemma tuple_fields_forward:
  "tuple_fields to_f64 m b cols off out = Inr (Some (off', out')) \<Longrightarrow> off \<le> off' \<and> (off \<le> length b \<longrightarrow> off' \<le> length b)"
proof (induction cols arbitrary: off out)
  case (Cons c cols)
  obtain ty nullable where c: "c = (ty, nullable)" by (cases c)
  let ?len = "be_i32 (take 4 (drop off b))"
  from Cons.prems have enough: "off + 4 \<le> length b" by (simp add: c split: if_splits)
  from Cons.prems consider
      "tuple_fields to_f64 m b cols (off + 4) (out @ [1]) = Inr (Some (off', out'))"
    | bs where "off + 4 + nat ?len \<le> length b"
        "tuple_fields to_f64 m b cols (off + 4 + nat ?len) (out @ (if nullable then [0] else []) @ bs) = Inr (Some (off', out'))"
    by (auto simp: c Let_def result_simps not_less split: if_split_asm)
  then show ?case using Cons.IH enough by cases fastforce+
qed auto

lemma try_tuple_forward:
  "try_tuple_at to_f64 cols m b = Inr (Some (n, fin, out)) \<Longrightarrow> 2 \<le> n \<and> n \<le> length b"
  by (auto simp: try_tuple_at_def Let_def result_simps split: if_splits dest!: tuple_fields_forward)

text \<open>
  The loop over complete tuples, from offset \<open>off\<close>: the offset reached, the rows, whether the
  trailer ended it, and the output.
\<close>

function tuple_loop :: "(int \<Rightarrow> int \<Rightarrow> u64) \<Rightarrow> (rb_type \<times> bool) list \<Rightarrow> nat \<Rightarrow> bytes \<Rightarrow> nat \<Rightarrow> nat \<Rightarrow> bytes \<Rightarrow> (nat \<times> nat \<times> bool \<times> bytes) result" where
  "tuple_loop to_f64 cols m b off rows out =
     (case try_tuple_at to_f64 cols m (drop off b) of
        Inl e \<Rightarrow> Inl e
      | Inr None \<Rightarrow> Inr (off, rows, False, out)
      | Inr (Some (consumed, fin, bs)) \<Rightarrow>
          if fin then Inr (off + consumed, rows, True, out @ bs)
          else tuple_loop to_f64 cols m b (off + consumed) (rows + 1) (out @ bs))"
  by auto
termination
proof (relation "measure (\<lambda>(_, _, _, b, off, _, _). length b - off)")
  fix to_f64 cols m and b :: bytes and off rows out r x consumed y fin bs
  assume "try_tuple_at to_f64 cols m (drop off b) = Inr r" "r = Some x" "(consumed, y) = x" "(fin, bs) = y"
  then have "2 \<le> consumed" "consumed \<le> length b - off" using try_tuple_forward [of to_f64 cols m "drop off b"] by auto
  then show "((to_f64, cols, m, b, off + consumed, rows + 1, out @ bs), to_f64, cols, m, b, off, rows, out)
      \<in> measure (\<lambda>(_, _, _, b, off, _, _). length b - off)" by simp
qed simp

declare tuple_loop.simps [simp del]

text \<open>The slices of the pending path: 4 KiB, doubling, at most 1 MiB.\<close>

definition step_size :: "nat \<Rightarrow> nat" where
  "step_size k = min (4096 * 2 ^ k) 1048576"

lemma step_size_pos: "0 < step_size k"
  by (simp add: step_size_def)

text \<open>The header, once enough of it is there; \<open>None\<close> while it is not.\<close>

definition header_step :: "transcoder \<Rightarrow> transcoder option result" where
  "header_step s =
     (if t_header_done s then Inr (Some s)
      else if length (t_buf s) - t_pos s < 19 then Inr None
      else if take 11 (drop (t_pos s) (t_buf s)) \<noteq> copy_signature then Inl (Transfer Bad_copy_header)
      else let ext = unat (from_be_bytes (take 4 (drop (t_pos s + 15) (t_buf s))) :: u32)
           in if length (t_buf s) - t_pos s < 19 + ext then Inr None
              else Inr (Some (s\<lparr>t_pos := t_pos s + (19 + ext), t_header_done := True\<rparr>)))"

text \<open>The tuples of the carry buffer; then the buffer is emptied, or cut where it has grown.\<close>

definition drain_buf :: "(int \<Rightarrow> int \<Rightarrow> u64) \<Rightarrow> transcoder \<Rightarrow> bytes \<Rightarrow> (transcoder \<times> bytes) result" where
  "drain_buf to_f64 s out =
     (if t_finished s then Inr (s, out)
      else and_then (tuple_loop to_f64 (t_cols s) (t_max_field s) (t_buf s) (t_pos s) (t_rows s) out) (\<lambda>(pos, rows, fin, out).
        Inr (s\<lparr>t_pos := pos, t_rows := rows, t_finished := fin\<rparr>, out)))"

definition settle_buf :: "transcoder \<Rightarrow> transcoder" where
  "settle_buf s =
     (if t_pos s = length (t_buf s) then s\<lparr>t_buf := [], t_pos := 0\<rparr>
      else if t_pos s > 1048576 then s\<lparr>t_buf := drop (t_pos s) (t_buf s), t_pos := 0\<rparr>
      else s)"

text \<open>The pending path: the state, the input left, the output, and whether \<^verbatim>\<open>push\<close> returned.\<close>

function pending_loop :: "(int \<Rightarrow> int \<Rightarrow> u64) \<Rightarrow> transcoder \<Rightarrow> bytes \<Rightarrow> nat \<Rightarrow> bytes \<Rightarrow> (transcoder \<times> bytes \<times> bytes \<times> bool) result" where
  "pending_loop to_f64 s inp k out =
     (if inp \<noteq> [] \<and> \<not> (t_header_done s \<and> t_buf s = []) then
        let n = min (step_size k) (length inp);
            s = s\<lparr>t_buf := t_buf s @ take n inp\<rparr>;
            inp = drop n inp
        in and_then (header_step s) (\<lambda>h.
             case h of
               None \<Rightarrow> pending_loop to_f64 s inp (k + 1) out
             | Some s \<Rightarrow>
                 and_then (drain_buf to_f64 s out) (\<lambda>(s, out).
                   if t_finished s then Inr (s, inp, out, True)
                   else pending_loop to_f64 (settle_buf s) inp (k + 1) out))
      else Inr (s, inp, out, False))"
  by auto
termination
  by (relation "measure (\<lambda>(_, _, inp, _, _). length inp)") (auto simp: step_size_pos)

declare pending_loop.simps [simp del]

definition compact :: "transcoder \<Rightarrow> transcoder" where
  "compact s = (if t_pos s > 0 \<and> t_pos s = length (t_buf s) then s\<lparr>t_buf := [], t_pos := 0\<rparr> else s)"

definition transcoder_push :: "(int \<Rightarrow> int \<Rightarrow> u64) \<Rightarrow> transcoder \<Rightarrow> bytes \<Rightarrow> bytes \<Rightarrow> (transcoder \<times> bytes) result" where
  "transcoder_push to_f64 s input out =
     and_then (pending_loop to_f64 (compact s) input 0 out) (\<lambda>(s, inp, out, returned).
       if returned then Inr (s, out)
       else
         and_then (if t_finished s then Inr (0, t_rows s, True, out)
                   else tuple_loop to_f64 (t_cols s) (t_max_field s) inp 0 (t_rows s) out) (\<lambda>(off, rows, fin, out).
           let s = s\<lparr>t_rows := rows, t_finished := fin\<rparr>
           in if off < length inp \<and> \<not> fin then Inr (s\<lparr>t_buf := t_buf s @ drop off inp\<rparr>, out)
              else Inr (s, out)))"

definition take_rows :: "transcoder \<Rightarrow> nat \<times> transcoder" where
  "take_rows s = (t_rows s, s\<lparr>t_rows := 0\<rparr>)"

section \<open>Rows of the change stream\<close>

text \<open>One cell of a RowBinary row: the null flag of a nullable column, then the value.\<close>

definition rb_cell :: "(int \<Rightarrow> int \<Rightarrow> u64) \<Rightarrow> rb_type \<times> bool \<Rightarrow> cell \<Rightarrow> bytes \<Rightarrow> bytes result" where
  "rb_cell to_f64 col c out =
     (let (ty, nullable) = col
      in case c of
           Null \<Rightarrow> if \<not> nullable then Inl (Transfer Null_not_nullable) else Inr (out @ [1])
         | Text t \<Rightarrow> and_then (transcode_field to_f64 ty t) (\<lambda>bs. Inr (out @ (if nullable then [0] else []) @ bs))
         | UnchangedToast \<Rightarrow> Inl (Transfer Toast_in_bulk))"

definition render_ch_row_rb :: "(int \<Rightarrow> int \<Rightarrow> u64) \<Rightarrow> tuple \<Rightarrow> (rb_type \<times> bool) list \<Rightarrow> bytes \<Rightarrow> bytes result" where
  "render_ch_row_rb to_f64 row types out =
     (if tuple_len row \<noteq> length types then Inl (Transfer (Declared_width (tuple_len row) (length types)))
      else fold_results (\<lambda>out i. and_then (tuple_view row i) (\<lambda>c.
             and_then (index_list types i) (\<lambda>col. rb_cell to_f64 col c out))) out [0..<tuple_len row])"

definition render_ch_key_rb :: "(int \<Rightarrow> int \<Rightarrow> u64) \<Rightarrow> bytes list \<Rightarrow> (rb_type \<times> bool) list \<Rightarrow> bytes \<Rightarrow> bytes result" where
  "render_ch_key_rb to_f64 key types out =
     fold_results (\<lambda>out i. and_then (index_list key i) (\<lambda>k.
       and_then (index_list types i) (\<lambda>(ty, nullable).
         and_then (transcode_field to_f64 ty k) (\<lambda>bs. Inr (out @ (if nullable then [0] else []) @ bs))))) out [0..<length key]"

end
