(* ===== verification/Transcoder.thy ===== *)
theory Transcoder
  imports Rowbinary
begin

text \<open>
  The streaming transcoder against its reference: the rows and the output depend on the bytes
  of the stream, never on how they are cut into pieces.
\<close>

section \<open>More bytes change no verdict\<close>

lemma take_drop_extend: "n + k \<le> length b \<Longrightarrow> take k (drop n (b @ c)) = take k (drop n b)"
  by simp

lemma tuple_fields_extend:
  assumes "tuple_fields to_f64 m b cols off out = r" "r \<noteq> Inr None"
  shows "tuple_fields to_f64 m (b @ c) cols off out = r"
  using assms
proof (induction cols arbitrary: off out)
  case (Cons col cols)
  obtain ty nullable where col: "col = (ty, nullable)" by (cases col)
  from Cons.prems have enough: "off + 4 \<le> length b" by (auto simp: col split: if_splits)
  let ?len = "be_i32 (take 4 (drop off b))"
  have len: "be_i32 (take 4 (drop off (b @ c))) = ?len" using enough by (simp only: take_drop_extend)
  show ?case
  proof (cases "?len = -1 \<or> ?len < 0 \<or> m < nat ?len")
    case True
    with Cons.prems Cons.IH [of "off + 4" "out @ [1]"] enough show ?thesis
      by (simp add: col Let_def len del: take_append drop_append split: if_split_asm)
  next
    case False
    with Cons.prems enough have fits: "off + 4 + nat ?len \<le> length b"
      by (auto simp: col Let_def split: if_splits)
    then have f: "take (nat ?len) (drop (off + 4) (b @ c)) = take (nat ?len) (drop (off + 4) b)" by (simp only: take_drop_extend)
    show ?thesis
    proof (cases "transcode_field to_f64 ty (take (nat ?len) (drop (off + 4) b))")
      case (Inl e)
      with Cons.prems False enough fits show ?thesis
        by (simp add: col Let_def len f del: take_append drop_append)
    next
      case (Inr bs)
      with Cons.prems Cons.IH [of "off + 4 + nat ?len" "out @ (if nullable then [0] else []) @ bs"] False enough fits show ?thesis
        by (simp add: col Let_def len f del: take_append drop_append)
    qed
  qed
qed simp

lemma try_tuple_extend:
  assumes "try_tuple_at to_f64 cols m b = r" "r \<noteq> Inr None"
  shows "try_tuple_at to_f64 cols m (b @ c) = r"
proof -
  from assms have two: "2 \<le> length b" by (auto simp: try_tuple_at_def split: if_splits)
  then have n: "be_i16 (take 2 (b @ c)) = be_i16 (take 2 b)" by simp
  show ?thesis
  proof (cases "tuple_fields to_f64 m b cols 2 [] = Inr None")
    case True
    with assms two n show ?thesis by (auto simp: try_tuple_at_def Let_def)
  next
    case False
    from tuple_fields_extend [OF refl False, of c] assms two n show ?thesis by (auto simp: try_tuple_at_def Let_def)
  qed
qed

section \<open>The reference\<close>

text \<open>All complete tuples of a byte string: what is left, the rows, the output, the trailer.\<close>

function run_tuples :: "(int \<Rightarrow> int \<Rightarrow> u64) \<Rightarrow> (rb_type \<times> bool) list \<Rightarrow> nat \<Rightarrow> bytes \<Rightarrow> (bytes \<times> nat \<times> bytes \<times> bool) result" where
  "run_tuples to_f64 cols m b =
     (case try_tuple_at to_f64 cols m b of
        Inl e \<Rightarrow> Inl e
      | Inr None \<Rightarrow> Inr (b, 0, [], False)
      | Inr (Some (n, fin, bs)) \<Rightarrow>
          if fin then Inr (drop n b, 0, bs, True)
          else and_then (run_tuples to_f64 cols m (drop n b)) (\<lambda>(l, k, o', f). Inr (l, k + 1, bs @ o', f)))"
  by auto
termination
proof (relation "measure (\<lambda>(_, _, _, b). length b)")
  fix to_f64 cols m and b :: bytes and r x n y fin bs
  assume "try_tuple_at to_f64 cols m b = Inr r" "r = Some x" "(n, y) = x" "(fin, bs) = y"
  then have "2 \<le> n" "n \<le> length b" using try_tuple_forward [of to_f64 cols m b] by auto
  then show "((to_f64, cols, m, drop n b), to_f64, cols, m, b) \<in> measure (\<lambda>(_, _, _, b). length b)" by simp
qed simp

declare run_tuples.simps [simp del]

lemma run_left: "run_tuples to_f64 cols m b = Inr (l, k, o', f) \<Longrightarrow> \<exists>p. b = p @ l"
proof (induction to_f64 cols m b arbitrary: l k o' f rule: run_tuples.induct)
  case (1 to_f64 cols m b)
  show ?case
  proof (cases "try_tuple_at to_f64 cols m b")
    case (Inr r)
    show ?thesis
    proof (cases r)
      case None
      with 1(2) Inr show ?thesis by (simp add: run_tuples.simps [of to_f64 cols m b])
    next
      case (Some x)
      obtain n fin bs where x: "x = (n, fin, bs)" by (cases x)
      show ?thesis
      proof (cases fin)
        case True
        with 1(2) Inr Some x show ?thesis by (simp add: run_tuples.simps [of to_f64 cols m b]) (metis append_take_drop_id)
      next
        case False
        with 1(2) Inr Some x obtain k' o'' where "run_tuples to_f64 cols m (drop n b) = Inr (l, k', o'', f)"
          by (auto simp: run_tuples.simps [of to_f64 cols m b] result_simps)
        from 1(1) [OF Inr Some x [symmetric] refl False this] obtain p where "drop n b = p @ l" by blast
        then have "b = (take n b @ p) @ l" by (metis append.assoc append_take_drop_id)
        then show ?thesis by blast
      qed
    qed
  qed (use 1(2) in \<open>simp add: run_tuples.simps [of to_f64 cols m b]\<close>)
qed

text \<open>A finished or refused run is the run on any longer string; an open one goes on where it stopped.\<close>

definition resume :: "nat \<Rightarrow> bytes \<Rightarrow> (bytes \<times> nat \<times> bytes \<times> bool) result \<Rightarrow> (bytes \<times> nat \<times> bytes \<times> bool) result" where
  "resume k out r = and_then r (\<lambda>(l, k', o', f). Inr (l, k + k', out @ o', f))"

lemma resume_resume: "resume k out (resume k' out' r) = resume (k + k') (out @ out') r"
  by (cases r) (auto simp: resume_def)

lemma run_step:
  assumes "try_tuple_at to_f64 cols m b = Inr (Some (n, False, bs))"
  shows "run_tuples to_f64 cols m b = resume 1 bs (run_tuples to_f64 cols m (drop n b))"
  using assms by (subst run_tuples.simps) (simp add: resume_def)

lemma run_extend:
  "(case run_tuples to_f64 cols m b of
      Inl e \<Rightarrow> run_tuples to_f64 cols m (b @ c) = Inl e
    | Inr (l, k, out, True) \<Rightarrow> run_tuples to_f64 cols m (b @ c) = Inr (l @ c, k, out, True)
    | Inr (l, k, out, False) \<Rightarrow> run_tuples to_f64 cols m (b @ c) = resume k out (run_tuples to_f64 cols m (l @ c)))"
proof (induction to_f64 cols m b rule: run_tuples.induct)
  case (1 to_f64 cols m b)
  show ?case
  proof (cases "try_tuple_at to_f64 cols m b")
    case (Inl e)
    with try_tuple_extend [OF Inl, of c] show ?thesis
      by (simp add: run_tuples.simps [of to_f64 cols m b] run_tuples.simps [of to_f64 cols m "b @ c"])
  next
    case (Inr r)
    show ?thesis
    proof (cases r)
      case None
      with Inr show ?thesis by (cases "run_tuples to_f64 cols m (b @ c)") (auto simp: run_tuples.simps [of to_f64 cols m b] resume_def)
    next
      case (Some x)
      obtain n fin bs where x: "x = (n, fin, bs)" by (cases x)
      have tried: "try_tuple_at to_f64 cols m b = Inr (Some (n, fin, bs))" using Inr Some x by simp
      have ext: "try_tuple_at to_f64 cols m (b @ c) = Inr (Some (n, fin, bs))" by (rule try_tuple_extend [OF tried]) simp
      have n: "n \<le> length b" using try_tuple_forward [OF tried] by simp
      show ?thesis
      proof (cases fin)
        case True
        with tried ext n show ?thesis
          by (simp add: run_tuples.simps [of to_f64 cols m b] run_tuples.simps [of to_f64 cols m "b @ c"])
      next
        case False
        note IH = 1 [OF Inr Some x [symmetric] refl False]
        have b: "run_tuples to_f64 cols m b = resume 1 bs (run_tuples to_f64 cols m (drop n b))"
          "run_tuples to_f64 cols m (b @ c) = resume 1 bs (run_tuples to_f64 cols m (drop n b @ c))"
          using run_step tried ext False n by simp_all
        show ?thesis
        proof (cases "run_tuples to_f64 cols m (drop n b)")
          case (Inl e)
          with IH b show ?thesis by (simp add: resume_def)
        next
          case (Inr q)
          obtain l k out f where q: "q = (l, k, out, f)" by (cases q)
          from IH b Inr q show ?thesis by (cases f) (simp_all add: resume_resume, simp_all add: resume_def)
        qed
      qed
    qed
  qed
qed

lemma tuple_loop_run:
  "off \<le> length b \<Longrightarrow> tuple_loop to_f64 cols m b off rows out =
    and_then (run_tuples to_f64 cols m (drop off b)) (\<lambda>(l, k, bs, fin). Inr (length b - length l, rows + k, fin, out @ bs))"
proof (induction to_f64 cols m b off rows out rule: tuple_loop.induct)
  case (1 to_f64 cols m b off rows out)
  show ?case
  proof (cases "try_tuple_at to_f64 cols m (drop off b)")
    case (Inl e)
    then show ?thesis by (subst tuple_loop.simps, subst run_tuples.simps) simp
  next
    case (Inr r)
    show ?thesis
    proof (cases r)
      case None
      with Inr 1(2) show ?thesis by (subst tuple_loop.simps, subst run_tuples.simps) simp
    next
      case (Some x)
      obtain n fin bs where x: "x = (n, fin, bs)" by (cases x)
      have tried: "try_tuple_at to_f64 cols m (drop off b) = Inr (Some (n, fin, bs))" using Inr Some x by simp
      have n: "off + n \<le> length b" using try_tuple_forward [OF tried] 1(2) by auto
      show ?thesis
      proof (cases fin)
        case True
        with tried n show ?thesis by (subst tuple_loop.simps, subst run_tuples.simps) simp
      next
        case False
        have "tuple_loop to_f64 cols m b off rows out = tuple_loop to_f64 cols m b (off + n) (rows + 1) (out @ bs)"
          using tried False by (subst tuple_loop.simps) simp
        also have "\<dots> = and_then (run_tuples to_f64 cols m (drop (off + n) b))
            (\<lambda>(l, k, bs', fin). Inr (length b - length l, rows + 1 + k, fin, (out @ bs) @ bs'))"
          using 1(1) [OF Inr Some x [symmetric] refl False n] .
        also have "\<dots> = and_then (run_tuples to_f64 cols m (drop off b)) (\<lambda>(l, k, bs, fin). Inr (length b - length l, rows + k, fin, out @ bs))"
          using run_step [of to_f64 cols m "drop off b" n bs] tried False
          by (cases "run_tuples to_f64 cols m (drop (off + n) b)") (auto simp: resume_def add.commute)
        finally show ?thesis .
      qed
    qed
  qed
qed

section \<open>What a stream stands for\<close>

text \<open>
  The rows, the output and whether the trailer was reached, of the bytes received so far: a
  header with its extension, then tuples.
\<close>

definition body_start :: "bytes \<Rightarrow> nat" where
  "body_start b = 19 + ext_len (take 19 b)"

definition header_whole :: "bytes \<Rightarrow> bool" where
  "header_whole b \<longleftrightarrow> 19 \<le> length b \<and> body_start b \<le> length b"

definition transcoded :: "(int \<Rightarrow> int \<Rightarrow> u64) \<Rightarrow> (rb_type \<times> bool) list \<Rightarrow> nat \<Rightarrow> bytes \<Rightarrow> (nat \<times> bytes \<times> bool) result" where
  "transcoded to_f64 cols m b =
     (if 19 \<le> length b \<and> take 11 b \<noteq> copy_signature then Inl (Transfer Bad_copy_header)
      else if \<not> header_whole b then Inr (0, [], False)
      else and_then (run_tuples to_f64 cols m (drop (body_start b) b)) (\<lambda>(l, k, out, fin). Inr (k, out, fin)))"

lemma header_extend:
  "19 \<le> length b \<Longrightarrow> take 11 (b @ c) = take 11 b \<and> body_start (b @ c) = body_start b"
  "header_whole b \<Longrightarrow> header_whole (b @ c) \<and> drop (body_start b) (b @ c) = drop (body_start b) b @ c"
  by (auto simp: body_start_def header_whole_def)

lemma transcoded_refused: "transcoded to_f64 cols m b = Inl e \<Longrightarrow> transcoded to_f64 cols m (b @ c) = Inl e"
proof -
  assume err: "transcoded to_f64 cols m b = Inl e"
  then have len: "19 \<le> length b" by (auto simp: transcoded_def header_whole_def split: if_splits)
  note h = header_extend(1) [OF len, of c]
  show ?thesis
  proof (cases "take 11 b \<noteq> copy_signature")
    case True
    with err len h show ?thesis by (simp add: transcoded_def)
  next
    case False
    with err have "header_whole b" "run_tuples to_f64 cols m (drop (body_start b) b) = Inl e"
      by (auto simp: transcoded_def and_then_eq_Inl split: if_splits)
    with header_extend(2) [of b c] run_extend [of to_f64 cols m "drop (body_start b) b" c] h False show ?thesis
      by (simp add: transcoded_def)
  qed
qed

section \<open>The state carries the stream\<close>

definition carries :: "(int \<Rightarrow> int \<Rightarrow> u64) \<Rightarrow> (rb_type \<times> bool) list \<Rightarrow> nat \<Rightarrow> transcoder \<Rightarrow> bytes \<Rightarrow> bytes \<Rightarrow> bool" where
  "carries to_f64 cols m s b out \<longleftrightarrow> t_cols s = cols \<and> t_max_field s = m \<and>
     (if t_header_done s then
        header_whole b \<and> take 11 b = copy_signature \<and>
        (\<exists>l. run_tuples to_f64 cols m (drop (body_start b) b) = Inr (l, t_rows s, out, t_finished s) \<and>
           (\<not> t_finished s \<longrightarrow> t_pos s \<le> length (t_buf s) \<and> drop (t_pos s) (t_buf s) = l))
      else t_pos s = 0 \<and> t_buf s = b \<and> out = [] \<and> t_rows s = 0 \<and> \<not> t_finished s \<and> \<not> header_whole b \<and>
        (19 \<le> length b \<longrightarrow> take 11 b = copy_signature))"

lemma carries_result: "carries to_f64 cols m s b out \<Longrightarrow> transcoded to_f64 cols m b = Inr (t_rows s, out, t_finished s)"
  by (auto simp: carries_def transcoded_def split: if_splits)

lemma carries_new: "carries to_f64 cols m (transcoder_new m cols) [] []"
  by (simp add: carries_def transcoder_new_def header_whole_def)

lemma carries_finished: "carries to_f64 cols m s b out \<Longrightarrow> t_finished s \<Longrightarrow> carries to_f64 cols m s (b @ c) out"
  using header_extend [of b c] run_extend [of to_f64 cols m "drop (body_start b) b" c]
  by (auto simp: carries_def header_whole_def split: if_splits)

lemma carries_compact: "carries to_f64 cols m s b out \<Longrightarrow> carries to_f64 cols m (compact s) b out"
  by (auto simp: carries_def compact_def split: if_splits)

lemma carries_settle: "carries to_f64 cols m s b out \<Longrightarrow> t_header_done s \<Longrightarrow> carries to_f64 cols m (settle_buf s) b out"
  by (auto simp: carries_def settle_buf_def split: if_splits)

text \<open>Between the arrival of bytes and the run over them: what the buffer still has to give.\<close>

definition holds :: "(int \<Rightarrow> int \<Rightarrow> u64) \<Rightarrow> (rb_type \<times> bool) list \<Rightarrow> nat \<Rightarrow> transcoder \<Rightarrow> bytes \<Rightarrow> bytes \<Rightarrow> bool" where
  "holds to_f64 cols m s b out \<longleftrightarrow> t_cols s = cols \<and> t_max_field s = m \<and> t_header_done s \<and>
     header_whole b \<and> take 11 b = copy_signature \<and> \<not> t_finished s \<and> t_pos s \<le> length (t_buf s) \<and>
     run_tuples to_f64 cols m (drop (body_start b) b) =
       resume (t_rows s) out (run_tuples to_f64 cols m (drop (t_pos s) (t_buf s)))"

lemma carries_open:
  assumes "carries to_f64 cols m s b out" "t_header_done s" "\<not> t_finished s"
  shows "header_whole (b @ c) \<and> take 11 (b @ c) = copy_signature \<and>
    run_tuples to_f64 cols m (drop (body_start (b @ c)) (b @ c)) =
      resume (t_rows s) out (run_tuples to_f64 cols m (drop (t_pos s) (t_buf s) @ c))"
proof -
  from assms obtain l where h: "header_whole b" "take 11 b = copy_signature"
    and run: "run_tuples to_f64 cols m (drop (body_start b) b) = Inr (l, t_rows s, out, False)" "drop (t_pos s) (t_buf s) = l"
    by (auto simp: carries_def)
  have "19 \<le> length b" using h(1) by (simp add: header_whole_def)
  with h run header_extend [of b c] run_extend [of to_f64 cols m "drop (body_start b) b" c] show ?thesis by simp
qed

lemma header_step_holds:
  assumes "carries to_f64 cols m s b out" "\<not> t_finished s" and s'_def: "s' = s\<lparr>t_buf := t_buf s @ c\<rparr>"
  shows "(case header_step s' of
      Inl e \<Rightarrow> transcoded to_f64 cols m (b @ c) = Inl e
    | Inr None \<Rightarrow> carries to_f64 cols m s' (b @ c) out
    | Inr (Some s'') \<Rightarrow> holds to_f64 cols m s'' (b @ c) out)"
proof (cases "t_header_done s")
  case True
  with carries_open [OF assms(1) True assms(2), of c] assms show ?thesis
    by (auto simp: header_step_def holds_def carries_def)
next
  case False
  with assms(1) have st: "t_pos s = 0" "t_buf s = b" "out = []" "t_rows s = 0" "t_cols s = cols" "t_max_field s = m"
    by (auto simp: carries_def)
  have ext: "unat (from_be_bytes (take 4 (drop 15 (b @ c))) :: u32) = ext_len (take 19 (b @ c))" if "19 \<le> length (b @ c)"
    by (simp add: ext_len_def drop_take del: take_append drop_append)
  show ?thesis
  proof (cases "length (b @ c) < 19 \<or> take 11 (b @ c) \<noteq> copy_signature \<or> \<not> header_whole (b @ c)")
    case True
    with False st ext show ?thesis
      by (auto simp: header_step_def s'_def transcoded_def carries_def header_whole_def body_start_def Let_def assms(2)
          simp del: take_append drop_append)
  next
    case whole: False
    let ?s = "s'\<lparr>t_pos := body_start (b @ c), t_header_done := True\<rparr>"
    have "header_step s' = Inr (Some ?s)"
      using whole False st ext by (simp add: header_step_def s'_def header_whole_def body_start_def Let_def del: take_append drop_append)
    moreover have "resume 0 [] r = r" for r by (cases r) (auto simp: resume_def)
    ultimately show ?thesis
      using whole st assms(2) by (simp add: holds_def s'_def header_whole_def del: take_append drop_append)
  qed
qed

lemma drain_buf_carries:
  assumes "holds to_f64 cols m s b out"
  shows "(case drain_buf to_f64 s out of
      Inl e \<Rightarrow> transcoded to_f64 cols m b = Inl e
    | Inr (s', out') \<Rightarrow> carries to_f64 cols m s' b out' \<and> t_header_done s')"
proof -
  from assms have h: "t_cols s = cols" "t_max_field s = m" "\<not> t_finished s" "t_header_done s" "header_whole b" "take 11 b = copy_signature"
    "t_pos s \<le> length (t_buf s)"
    and run: "run_tuples to_f64 cols m (drop (body_start b) b) = resume (t_rows s) out (run_tuples to_f64 cols m (drop (t_pos s) (t_buf s)))"
    by (auto simp: holds_def)
  note loop = tuple_loop_run [OF h(7), of to_f64 cols m "t_rows s" out]
  show ?thesis
  proof (cases "run_tuples to_f64 cols m (drop (t_pos s) (t_buf s))")
    case (Inl e)
    with h run loop show ?thesis by (simp add: drain_buf_def transcoded_def resume_def)
  next
    case (Inr q)
    obtain l k bs fin where q: "q = (l, k, bs, fin)" by (cases q)
    from run_left [of to_f64 cols m "drop (t_pos s) (t_buf s)" l k bs fin] Inr q obtain p where p: "drop (t_pos s) (t_buf s) = p @ l" by auto
    then have buf: "t_buf s = take (t_pos s) (t_buf s) @ p @ l" by (metis append_take_drop_id)
    have "drop (length (t_buf s) - length l) (t_buf s) = l" by (subst (2) buf, subst buf) simp
    with Inr q h run loop show ?thesis by (auto simp: drain_buf_def carries_def resume_def)
  qed
qed

text \<open>What the slow path owes after part of the input went through it.\<close>

lemma pending_shift:
  assumes "case r of
      Inl e \<Rightarrow> transcoded to_f64 cols m ((b @ take n inp) @ drop n inp) = Inl e
    | Inr (s', inp', out', ret) \<Rightarrow> \<exists>pre. drop n inp = pre @ inp' \<and>
        carries to_f64 cols m s' ((b @ take n inp) @ pre) out' \<and> Q s' inp' ret"
  shows "case r of
      Inl e \<Rightarrow> transcoded to_f64 cols m (b @ inp) = Inl e
    | Inr (s', inp', out', ret) \<Rightarrow> \<exists>pre. inp = pre @ inp' \<and> carries to_f64 cols m s' (b @ pre) out' \<and> Q s' inp' ret"
proof (cases r)
  case (Inl e)
  with assms show ?thesis by simp
next
  case (Inr q)
  obtain s' inp' out' ret where q: "q = (s', inp', out', ret)" by (cases q)
  with assms Inr obtain pre where pre: "drop n inp = pre @ inp'"
    "carries to_f64 cols m s' ((b @ take n inp) @ pre) out'" "Q s' inp' ret" by auto
  have "inp = (take n inp @ pre) @ inp'" using pre(1) by (metis append.assoc append_take_drop_id)
  with pre(2,3) Inr q show ?thesis by (auto intro!: exI [of _ "take n inp @ pre"])
qed

lemma pending_carries:
  assumes "carries to_f64 cols m s b out"
  shows "(case pending_loop to_f64 s inp k out of
      Inl e \<Rightarrow> transcoded to_f64 cols m (b @ inp) = Inl e
    | Inr (s', inp', out', ret) \<Rightarrow> \<exists>pre. inp = pre @ inp' \<and> carries to_f64 cols m s' (b @ pre) out' \<and>
        (ret \<longrightarrow> t_finished s') \<and> (\<not> ret \<longrightarrow> inp' = [] \<or> t_header_done s' \<and> t_buf s' = []))"
  using assms
proof (induction to_f64 s inp k out arbitrary: b rule: pending_loop.induct)
  case (1 to_f64 s inp k out)
  show ?case
  proof (cases "inp \<noteq> [] \<and> \<not> (t_header_done s \<and> t_buf s = [])")
    case False
    then show ?thesis using 1(3) by (subst pending_loop.simps) auto
  next
    case True
    define n where "n = min (step_size k) (length inp)"
    define s1 where "s1 = s\<lparr>t_buf := t_buf s @ take n inp\<rparr>"
    note IHs = 1(1,2) [OF True n_def s1_def refl]
    have inp: "b @ inp = (b @ take n inp) @ drop n inp" by simp
    have eq: "pending_loop to_f64 s inp k out = and_then (header_step s1) (\<lambda>h. case h of
        None \<Rightarrow> pending_loop to_f64 s1 (drop n inp) (k + 1) out
      | Some s \<Rightarrow> and_then (drain_buf to_f64 s out) (\<lambda>(s, out).
          if t_finished s then Inr (s, drop n inp, out, True)
          else pending_loop to_f64 (settle_buf s) (drop n inp) (k + 1) out))"
      unfolding s1_def n_def using True by (subst pending_loop.simps) (simp only: Let_def if_True simp_thms)
    show ?thesis
    proof (cases "t_finished s")
      case fin: True
      then have past: "t_header_done s" using 1(3) by (auto simp: carries_def split: if_splits)
      have "pending_loop to_f64 s inp k out = Inr (s1, drop n inp, out, True)"
        unfolding eq using fin past by (simp add: header_step_def drain_buf_def s1_def)
      moreover have "carries to_f64 cols m s1 (b @ take n inp) out"
        using carries_finished [OF 1(3) fin, of "take n inp"] past fin by (simp add: carries_def s1_def)
      ultimately show ?thesis using fin by (auto simp: s1_def intro!: exI [of _ "take n inp"])
    next
      case unfin: False
      note step = header_step_holds [OF 1(3) unfin s1_def]
      show ?thesis
      proof (cases "header_step s1")
        case (Inl e)
        with step transcoded_refused [of to_f64 cols m "b @ take n inp" e "drop n inp"] show ?thesis by (simp add: eq)
      next
        case (Inr h)
        show ?thesis
        proof (cases h)
          case None
          with step Inr have "carries to_f64 cols m s1 (b @ take n inp) out" by simp
          have "pending_loop to_f64 s inp k out = pending_loop to_f64 s1 (drop n inp) (k + 1) out"
            unfolding eq using Inr None by simp
          with pending_shift [OF IHs(1) [OF Inr None \<open>carries to_f64 cols m s1 (b @ take n inp) out\<close>]]
          show ?thesis by simp
        next
          case (Some s2)
          with step Inr have "holds to_f64 cols m s2 (b @ take n inp) out" by simp
          note drain = drain_buf_carries [OF this]
          show ?thesis
          proof (cases "drain_buf to_f64 s2 out")
            case (Inl e)
            with drain transcoded_refused [of to_f64 cols m "b @ take n inp" e "drop n inp"] Inr Some eq show ?thesis by simp
          next
            case (Inr q)
            obtain s3 out3 where q: "q = (s3, out3)" by (cases q)
            with drain Inr have c3: "carries to_f64 cols m s3 (b @ take n inp) out3" "t_header_done s3" by simp_all
            show ?thesis
            proof (cases "t_finished s3")
              case True
              with c3 \<open>header_step s1 = Inr h\<close> Some Inr q show ?thesis
                by (auto simp: eq intro!: exI [of _ "take n inp"])
            next
              case False
              then have "pending_loop to_f64 s inp k out = pending_loop to_f64 (settle_buf s3) (drop n inp) (k + 1) out3"
                unfolding eq using \<open>header_step s1 = Inr h\<close> Some Inr q by simp
              with pending_shift [OF IHs(2) [OF \<open>header_step s1 = Inr h\<close> Some Inr q [symmetric] False carries_settle [OF c3]]]
              show ?thesis by simp
            qed
          qed
        qed
      qed
    qed
  qed
qed

lemma tuple_loop_Nil: "tuple_loop to_f64 cols m [] 0 rows out = Inr (0, rows, False, out)"
  by (subst tuple_loop.simps) (simp add: try_tuple_at_def)

text \<open>The fast path, over input that follows an empty buffer.\<close>

lemma fast_path_carries:
  assumes "carries to_f64 cols m s b out" "t_header_done s" "t_buf s = []" "\<not> t_finished s"
  shows "(case tuple_loop to_f64 (t_cols s) (t_max_field s) inp 0 (t_rows s) out of
      Inl e \<Rightarrow> transcoded to_f64 cols m (b @ inp) = Inl e
    | Inr (off, rows, fin, out') \<Rightarrow>
        off \<le> length inp \<and> carries to_f64 cols m (s\<lparr>t_rows := rows, t_finished := fin, t_buf := drop off inp\<rparr>) (b @ inp) out')"
proof -
  have st: "t_cols s = cols" "t_max_field s = m" "t_pos s = 0" using assms by (auto simp: carries_def)
  note go = carries_open [OF assms(1,2,4), of inp]
  note loop = tuple_loop_run [of 0 inp to_f64 cols m "t_rows s" out]
  show ?thesis
  proof (cases "run_tuples to_f64 cols m inp")
    case (Inl e)
    with go loop st assms(3) show ?thesis by (simp add: transcoded_def resume_def)
  next
    case (Inr q)
    obtain l k bs fin where q: "q = (l, k, bs, fin)" by (cases q)
    from run_left [of to_f64 cols m inp l k bs fin] Inr q obtain p where "inp = p @ l" by auto
    with Inr q go loop st assms(2,3) show ?thesis by (simp add: carries_def resume_def)
  qed
qed

lemma push_carries:
  assumes "carries to_f64 cols m s b out"
  shows "(case transcoder_push to_f64 s input out of
      Inl e \<Rightarrow> transcoded to_f64 cols m (b @ input) = Inl e
    | Inr (s', out') \<Rightarrow> carries to_f64 cols m s' (b @ input) out')"
proof -
  note pend = pending_carries [OF carries_compact [OF assms], of input 0]
  show ?thesis
  proof (cases "pending_loop to_f64 (compact s) input 0 out")
    case (Inl e)
    with pend show ?thesis by (simp add: transcoder_push_def)
  next
    case (Inr q)
    obtain s1 inp out1 ret where q: "q = (s1, inp, out1, ret)" by (cases q)
    from pend Inr q obtain pre where pre: "input = pre @ inp" "carries to_f64 cols m s1 (b @ pre) out1"
      "ret \<longrightarrow> t_finished s1" "\<not> ret \<longrightarrow> inp = [] \<or> t_header_done s1 \<and> t_buf s1 = []" by auto
    show ?thesis
    proof (cases "t_finished s1")
      case True
      then have "transcoder_push to_f64 s input out = Inr (s1, out1)"
        using Inr q by (cases ret) (simp_all add: transcoder_push_def Let_def)
      with carries_finished [OF pre(2) True, of inp] pre(1) show ?thesis by simp
    next
      case False
      then have ret: "\<not> ret" using pre(3) by auto
      then consider "inp = []" | "t_header_done s1" "t_buf s1 = []" using pre(4) by auto
      then show ?thesis
      proof cases
        case 1
        then have "transcoder_push to_f64 s input out = Inr (s1\<lparr>t_rows := t_rows s1, t_finished := False\<rparr>, out1)"
          using Inr q ret False by (simp add: transcoder_push_def tuple_loop_Nil Let_def)
        moreover have "s1\<lparr>t_rows := t_rows s1, t_finished := False\<rparr> = s1" using False by simp
        ultimately show ?thesis using pre 1 by simp
      next
        case 2
        note fast = fast_path_carries [OF pre(2) 2 False, of inp]
        show ?thesis
        proof (cases "tuple_loop to_f64 (t_cols s1) (t_max_field s1) inp 0 (t_rows s1) out1")
          case (Inl e)
          with fast Inr q ret False pre(1) show ?thesis by (simp add: transcoder_push_def)
        next
          case loop: (Inr r)
          obtain off rows fin out2 where r: "r = (off, rows, fin, out2)" by (cases r)
          let ?s = "s1\<lparr>t_rows := rows, t_finished := fin\<rparr>"
          from fast loop r have off: "off \<le> length inp"
            and c: "carries to_f64 cols m (?s\<lparr>t_buf := drop off inp\<rparr>) (b @ pre @ inp) out2" by simp_all
          have push: "transcoder_push to_f64 s input out =
              Inr (if off < length inp \<and> \<not> fin then ?s\<lparr>t_buf := drop off inp\<rparr> else ?s, out2)"
            using Inr q ret False loop r 2 by (simp add: transcoder_push_def Let_def)
          have "carries to_f64 cols m ?s (b @ pre @ inp) out2" if "\<not> (off < length inp \<and> \<not> fin)"
            using that c off 2 by (auto simp: carries_def)
          with push c pre(1) show ?thesis by (cases "off < length inp \<and> \<not> fin") auto
        qed
      qed
    qed
  qed
qed

text \<open>
  C16: Transcoding a binary COPY stream does not depend on how it is cut: pushed in any pieces,
  of any sizes, the transcoder ends with the row count, the RowBinary bytes and the finished
  flag of the whole stream (its header skipped, its complete tuples transcoded in order up to
  the trailer, the incomplete tail held back), or with the same error.
\<close>

theorem transcoder_any_cut:
  "and_then (fold_results (\<lambda>(s, out) piece. transcoder_push to_f64 s piece out) (transcoder_new m cols, []) pieces)
     (\<lambda>(s, out). Inr (t_rows s, out, t_finished s)) = transcoded to_f64 cols m (concat pieces)"
proof -
  have "case fold_results (\<lambda>(s, out) piece. transcoder_push to_f64 s piece out) (transcoder_new m cols, []) pieces of
      Inl e \<Rightarrow> transcoded to_f64 cols m (concat pieces) = Inl e
    | Inr (s, out) \<Rightarrow> carries to_f64 cols m s (concat pieces) out"
  proof (induction pieces rule: rev_induct)
    case Nil
    then show ?case by (simp add: carries_new)
  next
    case (snoc piece pieces)
    show ?case
    proof (cases "fold_results (\<lambda>(s, out) piece. transcoder_push to_f64 s piece out) (transcoder_new m cols, []) pieces")
      case (Inl e)
      with snoc transcoded_refused [of to_f64 cols m "concat pieces" e piece] show ?thesis by (simp add: fold_results_snoc)
    next
      case (Inr q)
      with snoc push_carries [of to_f64 cols m "fst q" "concat pieces" "snd q" piece] show ?thesis
        unfolding concat_append concat.simps append_Nil2 by (cases q) (simp add: fold_results_snoc)
    qed
  qed
  then show ?thesis by (auto split: sum.splits dest: carries_result)
qed

section \<open>Snapshot and stream\<close>

text \<open>A row as PostgreSQL's binary COPY sends it.\<close>

definition copy_cell :: "cell \<Rightarrow> bytes" where
  "copy_cell c = (case c of Text t \<Rightarrow> field t | _ \<Rightarrow> null_field)"

definition copy_tuple :: "cell list \<Rightarrow> bytes" where
  "copy_tuple cs = tuple_start (length cs) @ concat (map copy_cell cs)"

text \<open>The values the field limit admits; the limit fits the length word.\<close>

definition within_limit :: "nat \<Rightarrow> cell \<Rightarrow> bool" where
  "within_limit m c \<longleftrightarrow> c \<noteq> UnchangedToast \<and> (case c of Text t \<Rightarrow> length t \<le> m | _ \<Rightarrow> True)"

lemma be_i32_length: "n < 2 ^ 31 \<Longrightarrow> be_i32 (to_be_bytes (of_nat n :: u32)) = int n"
proof -
  assume "n < 2 ^ 31"
  then have "sint (word_of_int (int n) :: u32) = int n"
    by (simp only: sint_uint uint_word_of_int_eq signed_take_bit_take_bit) (simp add: signed_take_bit_int_eq_self)
  then show ?thesis by (simp add: be_i32_def from_to_be_bytes)
qed

lemma be_i32_null: "be_i32 null_field = -1"
  by (simp add: null_field_def be_i32_def from_to_be_bytes)

lemma copy_cell_fields:
  assumes "within_limit m c" "m < 2 ^ 31"
  shows "tuple_fields to_f64 m (pre @ copy_cell c @ rest) (col # cols) (length pre) out =
    and_then (rb_cell to_f64 col c out) (\<lambda>out.
      tuple_fields to_f64 m (pre @ copy_cell c @ rest) cols (length (pre @ copy_cell c)) out)"
proof (cases c)
  case Null
  have "length null_field = 4" by (simp add: null_field_def)
  with Null show ?thesis
    by (cases col) (simp add: rb_cell_def copy_cell_def be_i32_null Let_def)
next
  case (Text t)
  with assms have len: "length t \<le> m" "be_i32 (to_be_bytes (of_nat (length t) :: u32)) = int (length t)"
    by (simp_all add: within_limit_def be_i32_length)
  have val: "take (length t) (drop (length pre + 4) (pre @ field t @ rest)) = t"
    by (simp add: field_def)
  show ?thesis using Text len val
    by (cases col) (auto simp: rb_cell_def copy_cell_def field_def Let_def and_then_assoc add.assoc)
next
  case UnchangedToast
  with assms show ?thesis by (simp add: within_limit_def)
qed

lemma copy_cells_fields:
  assumes "length cs = length types" "list_all (within_limit m) cs" "m < 2 ^ 31"
  shows "tuple_fields to_f64 m (pre @ concat (map copy_cell cs) @ rest) types (length pre) out =
    and_then (fold_results (\<lambda>out (c, col). rb_cell to_f64 col c out) out (zip cs types))
      (\<lambda>out. Inr (Some (length pre + length (concat (map copy_cell cs)), out)))"
  using assms
proof (induction cs types arbitrary: pre out rule: list_induct2)
  case (Cons c cs col cols)
  have "tuple_fields to_f64 m (pre @ copy_cell c @ concat (map copy_cell cs) @ rest) cols (length (pre @ copy_cell c)) out' =
    and_then (fold_results (\<lambda>out (c, col). rb_cell to_f64 col c out) out' (zip cs cols))
      (\<lambda>out. Inr (Some (length pre + length (concat (map copy_cell (c # cs))), out)))" for out'
    using Cons.IH [of "pre @ copy_cell c" out'] Cons.prems by (simp add: add.assoc)
  with copy_cell_fields [of m c to_f64 pre "concat (map copy_cell cs) @ rest" col cols out] Cons.prems show ?case
    by (simp add: and_then_assoc)
qed simp

lemma fold_results_nth:
  assumes "\<And>i s. i < length xs \<Longrightarrow> f s i = g s (xs ! i)"
  shows "fold_results f s [0..<length xs] = fold_results g s xs"
  using assms
proof (induction xs arbitrary: s rule: rev_induct)
  case (snoc x xs)
  then have "fold_results f s [0..<length xs] = fold_results g s xs" by (metis length_append_singleton less_SucI nth_append)
  moreover have "f s' (length xs) = g s' x" for s' using snoc.prems [of "length xs" s'] by simp
  ultimately show ?case by (simp add: fold_results_append)
qed simp

lemma render_rb_cells:
  assumes "tuple_wf row" "tuple_len row = length types"
  shows "render_ch_row_rb to_f64 row types out =
    fold_results (\<lambda>out (c, col). rb_cell to_f64 col c out) out (zip (cells_of row) types)"
proof -
  have n: "length (zip (cells_of row) types) = tuple_len row" using assms(2) by (simp add: tuple_len_def)
  have "fold_results (\<lambda>out i. and_then (tuple_view row i) (\<lambda>c.
      and_then (index_list types i) (\<lambda>col. rb_cell to_f64 col c out))) out [0..<length (zip (cells_of row) types)] =
    fold_results (\<lambda>out (c, col). rb_cell to_f64 col c out) out (zip (cells_of row) types)"
    by (rule fold_results_nth) (use assms in \<open>simp add: tuple_view_wf tuple_len_def\<close>)
  with n assms(2) show ?thesis by (simp add: render_ch_row_rb_def)
qed

text \<open>
  C15: The snapshot and the change stream store a row the same way: the transcoder applied to
  the binary COPY tuple of a row gives, bytes and errors alike, what the change stream's
  renderer gives for that row, and consumes exactly the tuple, whatever follows it.
\<close>

theorem snapshot_and_stream_agree:
  assumes "tuple_wf row" "tuple_len row = length types" "list_all (within_limit m) (cells_of row)" "m < 2 ^ 31" "length types < 2 ^ 15"
  shows "try_tuple_at to_f64 types m (copy_tuple (cells_of row) @ rest) =
    and_then (render_ch_row_rb to_f64 row types []) (\<lambda>bs. Inr (Some (length (copy_tuple (cells_of row)), False, bs)))"
proof -
  have len: "length (cells_of row) = length types" using assms(2) by (simp add: tuple_len_def)
  have start: "length (tuple_start (length types)) = 2" "be_i16 (tuple_start (length types)) = int (length types)"
    using sint_small [of "int (length types)"] assms(5) by (simp_all add: tuple_start_def be_i16_def from_to_be_bytes)
  have bytes: "copy_tuple (cells_of row) @ rest = tuple_start (length types) @ concat (map copy_cell (cells_of row)) @ rest"
    by (simp only: copy_tuple_def len append_assoc)
  have size: "length (copy_tuple (cells_of row)) = 2 + length (concat (map copy_cell (cells_of row)))"
    by (simp only: copy_tuple_def len length_append start)
  show ?thesis
    using copy_cells_fields [OF len assms(3,4), of to_f64 "tuple_start (length types)" rest "[]"] start
    unfolding bytes size by (simp add: try_tuple_at_def render_rb_cells [OF assms(1,2)] and_then_assoc)
qed

definition sample_types :: "(rb_type \<times> bool) list" where
  "sample_types = [(RbString, False), (RbString, True), (Swap 2, False), (RbBool, True)]"

theorem snapshot_and_stream_agree_witness:
  "try_tuple_at (\<lambda>_ _. 0) sample_types 100 (copy_tuple (cells_of sample_row) @ trailer) =
     Inr (Some (23, False, [2, 0x5C, 0x4E, 1, 0x61, 0x09, 0, 0x37]))"
proof -
  have "render_ch_row_rb (\<lambda>_ _. 0) sample_row sample_types [] = Inr [2, 0x5C, 0x4E, 1, 0x61, 0x09, 0, 0x37]"
    by (simp add: render_rb_cells sample_row_facts sample_types_def rb_cell_def varint.simps)
  moreover have "length (copy_tuple (cells_of sample_row)) = 23"
    by (simp add: sample_row_facts copy_tuple_def copy_cell_def tuple_start_def field_def null_field_def)
  ultimately show ?thesis
    using snapshot_and_stream_agree [of sample_row sample_types 100 "\<lambda>_ _. 0" trailer] sample_row_facts
    by (simp add: sample_types_def within_limit_def)
qed

end
