(* ===== verification/Watermark.thy ===== *)
theory Watermark
  imports Rowbinary "HOL-Library.List_Lexorder" "HOL-Library.Log_Nat"
begin

text \<open>
  Table plans and watermarks (\<^verbatim>\<open>plan.rs\<close>): which column a run may use as its cursor, which
  cursor types compare as numbers, the exact comparison of decimal texts, the choice between
  a recorded watermark and the largest value of the data, and when a run refuses to derive
  one. Texts compare bytewise, as \<^verbatim>\<open>str\<close> does. The comparison of decimal texts is proved to be
  the order of the numbers they denote.
\<close>

section \<open>Table plans\<close>

record column_plan =
  pc_name :: bytes
  pc_nullable :: bool
  int_pk :: bool
  native_ddl :: "bytes option"
  pc_udt :: bytes
  pc_precision :: "int option"
  pc_scale :: "int option"

record table_plan =
  engine :: bytes
  plan_cols :: "column_plan list"
  cursor :: "bytes option"
  pk_cols :: "bytes list"
  cursor_col :: "column_plan option"

definition filter_option :: "('a \<Rightarrow> bool) \<Rightarrow> 'a option \<Rightarrow> 'a option" where
  "filter_option p x = (case x of Some a \<Rightarrow> if p a then Some a else None | None \<Rightarrow> None)"

definition or_option :: "'a option \<Rightarrow> 'a option \<Rightarrow> 'a option" where
  "or_option x y = (case x of Some a \<Rightarrow> Some a | None \<Rightarrow> y)"

definition cursor_plan :: "table_plan \<Rightarrow> column_plan option" where
  "cursor_plan p =
     (case cursor p of
        None \<Rightarrow> None
      | Some c \<Rightarrow> or_option (find (\<lambda>pc. pc_name pc = c) (plan_cols p)) (filter_option (\<lambda>pc. pc_name pc = c) (cursor_col p)))"

definition source_cursor_nullable :: "table_plan \<Rightarrow> bool" where
  "source_cursor_nullable p =
     (case or_option (filter_option (\<lambda>pc. Some (pc_name pc) = cursor p) (cursor_col p)) (cursor_plan p) of
        None \<Rightarrow> True
      | Some pc \<Rightarrow> pc_nullable pc)"

definition single_int_pk :: "table_plan \<Rightarrow> bytes option" where
  "single_int_pk p = (case filter int_pk (plan_cols p) of [c] \<Rightarrow> Some (pc_name c) | _ \<Rightarrow> None)"

definition auto_cursor :: "table_plan \<Rightarrow> bytes option" where
  "auto_cursor p = (if length (pk_cols p) > 1 then None else single_int_pk p)"

section \<open>Numeric cursor types\<close>

definition numeric_heads :: "bytes list" where
  "numeric_heads = map ascii
     [''int2'', ''int4'', ''int8'', ''smallint'', ''integer'', ''bigint'', ''tinyint'', ''mediumint'', ''int'',
      ''numeric'', ''decimal'', ''float4'', ''float8'', ''real'', ''double'', ''float'', ''int16'', ''int32'',
      ''int64'', ''int128'', ''int256'', ''uint8'', ''uint16'', ''uint32'', ''uint64'', ''uint128'', ''uint256'',
      ''float32'', ''float64'', ''decimal32'', ''decimal64'', ''decimal128'', ''decimal256'', ''oid'']"

definition is_numeric_udt :: "bytes \<Rightarrow> bool" where
  "is_numeric_udt udt =
     (let lower = to_ascii_lowercase (trim_str udt);
          inner = (case Option.bind (strip_prefix (ascii ''nullable('') lower) (strip_suffix (ascii '')'')) of
                     Some i \<Rightarrow> i | None \<Rightarrow> lower);
          head = takeWhile (\<lambda>c. c \<noteq> byte_of CHR ''('' \<and> c \<noteq> byte_of CHR '' '') inner
      in head \<in> set numeric_heads)"

section \<open>Comparing decimal texts\<close>

datatype ordering = Less | Equal | Greater

definition cmp :: "'a::linorder \<Rightarrow> 'a \<Rightarrow> ordering" where
  "cmp a b = (if a < b then Less else if a = b then Equal else Greater)"

fun then_with :: "ordering \<Rightarrow> ordering \<Rightarrow> ordering" where
  "then_with Equal o' = o'"
| "then_with o1 _ = o1"

fun reverse :: "ordering \<Rightarrow> ordering" where
  "reverse Less = Greater"
| "reverse Equal = Equal"
| "reverse Greater = Less"

definition sign_split :: "bytes \<Rightarrow> bool \<times> bytes" where
  "sign_split s =
     (case strip_prefix (ascii ''-'') s of
        Some r \<Rightarrow> (True, r)
      | None \<Rightarrow> (False, case strip_prefix (ascii ''+'') s of Some r \<Rightarrow> r | None \<Rightarrow> s))"

definition trim_start :: "byte \<Rightarrow> bytes \<Rightarrow> bytes" where
  "trim_start z = dropWhile (\<lambda>b. b = z)"

definition trim_end :: "byte \<Rightarrow> bytes \<Rightarrow> bytes" where
  "trim_end z s = rev (dropWhile (\<lambda>b. b = z) (rev s))"

definition decimal_split :: "bytes \<Rightarrow> (bool \<times> bytes \<times> bytes) option" where
  "decimal_split s =
     (let (neg, s) = sign_split (trim_str s);
          (i, f) = (case split_once (byte_of CHR ''.'') s of Some (i, f) \<Rightarrow> (i, f) | None \<Rightarrow> (s, []))
      in if (i = [] \<and> f = []) \<or> \<not> list_all is_digit i \<or> \<not> list_all is_digit f then None
         else Some (neg, i, f))"

definition decimal_parts :: "bytes \<Rightarrow> (bool \<times> bytes \<times> bytes) option" where
  "decimal_parts s = map_option (\<lambda>(neg, i, f). (neg, trim_start 0x30 i, trim_end 0x30 f)) (decimal_split s)"

text \<open>
  \<^verbatim>\<open>str::parse::<f64>\<close> gives the nearest double of the text. The doubles without a sign are
  numbered in their order, the infinity last (as their bit patterns are); a negative double
  is the negated number, so that both zeros are one and \<^verbatim>\<open>partial_cmp\<close> compares the numbers.
\<close>

definition f64_infinity :: nat where "f64_infinity = 2047 * 2 ^ 52"

definition div_half_even :: "nat \<Rightarrow> nat \<Rightarrow> nat" where
  "div_half_even n d =
     (let q = n div d; r = n mod d
      in if 2 * r < d \<or> (2 * r = d \<and> even q) then q else q + 1)"

definition scaled :: "nat \<Rightarrow> nat \<Rightarrow> int \<Rightarrow> nat \<times> nat" where
  "scaled n d k = (if k \<ge> 0 then (n, d * 2 ^ nat k) else (n * 2 ^ nat (- k), d))"

definition nearest_f64 :: "nat \<Rightarrow> nat \<Rightarrow> nat" where
  "nearest_f64 n d =
     (if n = 0 then 0
      else let k = int (floorlog 2 n) - int (floorlog 2 d);
               log = (case scaled n d k of (x, y) \<Rightarrow> if y \<le> x then k else k - 1);
               e = max (- 1074) (log - 52);
               m = (case scaled n d e of (x, y) \<Rightarrow> div_half_even x y)
           in min f64_infinity (m + nat (e + 1074) * 2 ^ 52))"

datatype f64_text = NaN | Double int

definition decimal_f64 :: "bytes \<Rightarrow> bytes \<Rightarrow> int \<Rightarrow> nat" where
  "decimal_f64 i f e =
     (let digits = number 10 (map digit_of (i @ f)); k = e - int (length f)
      in if k \<ge> 0 then nearest_f64 (digits * 10 ^ nat k) 1 else nearest_f64 digits (10 ^ nat (- k)))"

definition split_exponent :: "bytes \<Rightarrow> (bytes \<times> int) option" where
  "split_exponent s =
     (case position (\<lambda>b. b = byte_of CHR ''e'' \<or> b = byte_of CHR ''E'') s of
        None \<Rightarrow> Some (s, 0)
      | Some p \<Rightarrow>
          let (neg, ds) = sign_split (drop (p + 1) s); v = int (number 10 (map digit_of ds))
          in if ds = [] \<or> \<not> list_all is_digit ds then None else Some (take p s, if neg then - v else v))"

definition parse_f64 :: "bytes \<Rightarrow> f64_text option" where
  "parse_f64 s =
     (let (neg, body) = sign_split s; low = to_ascii_lowercase body;
          signed = (\<lambda>m. Some (Double (if neg then - int m else int m)))
      in if low = ascii ''nan'' then Some NaN
         else if low = ascii ''inf'' \<or> low = ascii ''infinity'' then signed f64_infinity
         else Option.bind (split_exponent body) (\<lambda>(mant, e).
           let (i, f) = (case split_once (byte_of CHR ''.'') mant of Some (i, f) \<Rightarrow> (i, f) | None \<Rightarrow> (mant, []))
           in if (i = [] \<and> f = []) \<or> \<not> list_all is_digit i \<or> \<not> list_all is_digit f then None
              else signed (decimal_f64 i f e)))"

fun partial_cmp :: "f64_text \<Rightarrow> f64_text \<Rightarrow> ordering option" where
  "partial_cmp (Double x) (Double y) = Some (cmp x y)"
| "partial_cmp _ _ = None"

definition cmp_numeric_text :: "bytes \<Rightarrow> bytes \<Rightarrow> ordering option" where
  "cmp_numeric_text a b =
     (case (decimal_parts a, decimal_parts b) of
        (Some (an, ai, af), Some (bn, bi, bf)) \<Rightarrow>
          let zero = (\<lambda>i f. i = [] \<and> f = []);
              an = (an \<and> \<not> zero ai af); bn = (bn \<and> \<not> zero bi bf)
          in if an \<noteq> bn then Some (if an then Less else Greater)
             else let mag = then_with (then_with (cmp (length ai) (length bi)) (cmp ai bi)) (cmp af bf)
                  in Some (if an then reverse mag else mag)
      | _ \<Rightarrow>
          Option.bind (parse_f64 (trim_str a)) (\<lambda>x.
          Option.bind (parse_f64 (trim_str b)) (\<lambda>y. partial_cmp x y)))"

section \<open>Watermarks\<close>

definition wm_max :: "bytes option \<Rightarrow> bytes option \<Rightarrow> bool \<Rightarrow> bytes option" where
  "wm_max a b num =
     (case (a, b) of
        (Some x, Some y) \<Rightarrow>
          let x_wins =
            (if num then
               case cmp_numeric_text x y of
                 Some o' \<Rightarrow> o' \<noteq> Less
               | None \<Rightarrow>
                   case (cmp_numeric_text x x, cmp_numeric_text y y) of
                     (Some _, None) \<Rightarrow> True
                   | (None, Some _) \<Rightarrow> False
                   | _ \<Rightarrow> x \<ge> y
             else x \<ge> y)
          in Some (if x_wins then x else y)
      | (a, None) \<Rightarrow> a
      | (None, b) \<Rightarrow> b)"

definition wm_pick :: "bool \<Rightarrow> bytes \<Rightarrow> bytes \<Rightarrow> bytes" where
  "wm_pick num state data =
     (if num then
        case cmp_numeric_text state data of
          Some o' \<Rightarrow> if o' \<noteq> Less then state else data
        | None \<Rightarrow> if cmp_numeric_text state state \<noteq> None then state else data
      else if state \<ge> data then state else data)"

datatype wm_arbitration = StateAuthoritative | Greatest bool

definition resolve_watermark :: "bytes option \<Rightarrow> bytes option \<Rightarrow> bool \<Rightarrow> wm_arbitration \<Rightarrow> bytes \<Rightarrow> bytes \<Rightarrow> bytes option result" where
  "resolve_watermark own_state data_max sibling_state_rows arb dest source_id =
     (case own_state of
        Some s \<Rightarrow>
          Inr (Some (case arb of
              StateAuthoritative \<Rightarrow> s
            | Greatest num \<Rightarrow>
                if sibling_state_rows then s
                else case data_max of Some d \<Rightarrow> wm_pick num s d | None \<Rightarrow> s))
      | None \<Rightarrow>
          if sibling_state_rows then Inl (InvalidInput (Sibling_state dest source_id))
          else Inr data_max)"

section \<open>The order of decimal texts\<close>

text \<open>The number a split decimal text denotes.\<close>

definition digits_number :: "bytes \<Rightarrow> nat" where
  "digits_number s = number 10 (map digit_of s)"

definition fraction :: "bytes \<Rightarrow> rat" where
  "fraction s = of_nat (digits_number s) / 10 ^ length s"

definition decimal_value :: "bool \<times> bytes \<times> bytes \<Rightarrow> rat" where
  "decimal_value x = (case x of (neg, i, f) \<Rightarrow>
     let v = of_nat (digits_number i) + fraction f in if neg then - v else v)"

lemma digits_number_Nil [simp]: "digits_number [] = 0"
  by (simp add: digits_number_def number_def)

lemma digits_number_Cons: "digits_number (b # s) = digit_of b * 10 ^ length s + digits_number s"
  using number_append [of 10 "[digit_of b]" "map digit_of s"] by (simp add: digits_number_def number_def)

lemma digits_number_snoc: "digits_number (s @ [b]) = digits_number s * 10 + digit_of b"
  by (simp add: digits_number_def number_snoc)

lemma fraction_Nil [simp]: "fraction [] = 0"
  by (simp add: fraction_def)

lemma fraction_Cons: "fraction (b # s) = (of_nat (digit_of b) + fraction s) / 10"
  by (simp add: fraction_def digits_number_Cons field_simps)

lemma fraction_snoc_zero: "fraction (s @ [0x30]) = fraction s"
  by (simp add: fraction_def digits_number_snoc digit_of_def)

lemma decimal_byte_less: "is_digit b \<Longrightarrow> digit_of b < 10"
  by (auto simp: is_digit_def digit_of_def unat_sub word_le_nat_alt)

lemma digit_of_mono: "is_digit b \<Longrightarrow> is_digit c \<Longrightarrow> digit_of b < digit_of c \<longleftrightarrow> b < c"
  by (auto simp: is_digit_def digit_of_def unat_sub word_le_nat_alt word_less_nat_alt)

lemma digit_of_zero: "is_digit b \<Longrightarrow> digit_of b = 0 \<longleftrightarrow> b = 0x30"
  by (simp add: is_digit_def digit_of_def unat_eq_zero)

lemma digits_number_less: "list_all is_digit s \<Longrightarrow> digits_number s < 10 ^ length s"
proof (induction s)
  case (Cons b s)
  then have "digit_of b + 1 \<le> 10" "digits_number s + 1 \<le> 10 ^ length s" using decimal_byte_less [of b] by simp_all
  then have "digit_of b * 10 ^ length s + digits_number s + 1 \<le> digit_of b * 10 ^ length s + 10 ^ length s" by simp
  also have "\<dots> = (digit_of b + 1) * 10 ^ length s" by simp
  also have "\<dots> \<le> 10 * 10 ^ length s" using \<open>digit_of b + 1 \<le> 10\<close> by (rule mult_right_mono) simp
  finally show ?case by (simp add: digits_number_Cons)
qed simp

lemma fraction_bounds: "list_all is_digit s \<Longrightarrow> 0 \<le> fraction s \<and> fraction s < 1"
proof -
  assume "list_all is_digit s"
  then have "rat_of_nat (digits_number s) < rat_of_nat (10 ^ length s)" by (simp only: of_nat_less_iff digits_number_less)
  then show ?thesis by (simp add: fraction_def)
qed

lemma trim_start_number: "digits_number (trim_start 0x30 s) = digits_number s"
  by (induction s) (simp_all add: trim_start_def digits_number_Cons digit_of_def)

lemma trim_end_fraction: "fraction (trim_end 0x30 s) = fraction s"
  by (induction s rule: rev_induct) (simp_all add: trim_end_def fraction_snoc_zero)

lemma trim_start_digits: "list_all is_digit s \<Longrightarrow> list_all is_digit (trim_start 0x30 s)"
  by (auto simp: trim_start_def list_all_iff dest: set_dropWhileD)

lemma trim_end_digits: "list_all is_digit s \<Longrightarrow> list_all is_digit (trim_end 0x30 s)"
  by (auto simp: trim_end_def list_all_iff dest: set_dropWhileD)

lemma trim_start_hd: "trim_start 0x30 s = b # t \<Longrightarrow> b \<noteq> 0x30"
  by (auto simp: trim_start_def dropWhile_eq_Cons_conv)

lemma trim_end_last: "trim_end 0x30 s \<noteq> [] \<Longrightarrow> last (trim_end 0x30 s) \<noteq> 0x30"
  using hd_dropWhile [of "\<lambda>b. b = 0x30" "rev s"] by (simp add: trim_end_def last_rev)

text \<open>Digit strings of one length compare bytewise as their numbers do.\<close>

lemma number_lex:
  "list_all is_digit s \<Longrightarrow> list_all is_digit t \<Longrightarrow> length s = length t \<Longrightarrow> s < t \<longleftrightarrow> digits_number s < digits_number t"
proof (induction s arbitrary: t)
  case (Cons b s)
  then obtain c u where t: "t = c # u" "length s = length u" by (cases t) auto
  have less: "digit_of d < digit_of e \<Longrightarrow> length v = length w \<Longrightarrow> list_all is_digit v \<Longrightarrow>
      digits_number (d # v) < digits_number (e # w)" for d e v w
  proof -
    assume a: "digit_of d < digit_of e" "length v = length w" "list_all is_digit v"
    have "digits_number (d # v) < (digit_of d + 1) * 10 ^ length v"
      using digits_number_less [OF a(3)] by (simp add: digits_number_Cons)
    also have "\<dots> \<le> digit_of e * 10 ^ length v" using a(1) by (intro mult_right_mono) simp_all
    finally show ?thesis using a(2) by (simp add: digits_number_Cons)
  qed
  from Cons t have d: "is_digit b" "is_digit c" "list_all is_digit s" "list_all is_digit u" by simp_all
  show ?case
  proof (cases "b = c")
    case True
    with Cons.IH [of u] t d show ?thesis by (simp add: digits_number_Cons)
  next
    case False
    then consider "digit_of b < digit_of c" | "digit_of c < digit_of b"
      using digit_of_mono [OF d(1,2)] digit_of_mono [OF d(2,1)] by (metis linorder_neqE)
    then show ?thesis
      using less [of b c s u] less [of c b u s] t d False digit_of_mono [OF d(1,2)] digit_of_mono [OF d(2,1)] by cases auto
  qed
qed simp

lemma cmp_mono:
  assumes "a < b \<longleftrightarrow> x < y" "b < a \<longleftrightarrow> y < x"
  shows "cmp a b = cmp x y"
  using assms by (auto simp: cmp_def not_less_iff_gr_or_eq)

lemma cmp_integers:
  assumes "list_all is_digit s" "list_all is_digit t"
  shows "then_with (cmp (length (trim_start 0x30 s)) (length (trim_start 0x30 t))) (cmp (trim_start 0x30 s) (trim_start 0x30 t)) =
    cmp (digits_number s) (digits_number t)"
proof -
  let ?s = "trim_start 0x30 s" and ?t = "trim_start 0x30 t"
  have less: "digits_number u < digits_number v" if "length u < length v" "list_all is_digit u" "list_all is_digit v"
    "v = trim_start 0x30 w" for u v w
  proof (cases v)
    case (Cons b r)
    then have "0 < digit_of b" using trim_start_hd [of w b r] digit_of_zero [of b] that by auto
    then have "1 * 10 ^ length r \<le> digit_of b * 10 ^ length r" by (intro mult_right_mono) simp_all
    then have "10 ^ length r \<le> digits_number v" unfolding Cons digits_number_Cons mult_1 by (rule trans_le_add1)
    moreover have "(10::nat) ^ length u \<le> 10 ^ length r" using that(1) Cons by (intro power_increasing) simp_all
    ultimately show ?thesis using digits_number_less [OF that(2)] by linarith
  qed (use that in simp)
  note d = trim_start_digits [OF assms(1)] trim_start_digits [OF assms(2)]
  have "then_with (cmp (length ?s) (length ?t)) (cmp ?s ?t) = cmp (digits_number ?s) (digits_number ?t)"
  proof (cases "length ?s = length ?t")
    case True
    then have "cmp ?s ?t = cmp (digits_number ?s) (digits_number ?t)"
      using number_lex [OF d True] number_lex [OF d(2,1) True [symmetric]] by (intro cmp_mono)
    moreover have "cmp (length ?s) (length ?t) = Equal" using True by (simp add: cmp_def)
    ultimately show ?thesis by simp
  next
    case False
    then show ?thesis using less [of ?s ?t t] less [of ?t ?s s] d by (auto simp: cmp_def)
  qed
  then show ?thesis by (simp add: trim_start_number)
qed

lemma fraction_lex:
  assumes "list_all is_digit s" "list_all is_digit t" "s \<noteq> [] \<longrightarrow> last s \<noteq> 0x30" "t \<noteq> [] \<longrightarrow> last t \<noteq> 0x30"
  shows "s < t \<longleftrightarrow> fraction s < fraction t"
  using assms
proof (induction s arbitrary: t)
  case Nil
  have pos: "0 < fraction t" if "t \<noteq> []" "list_all is_digit t" "last t \<noteq> 0x30" for t
    using that
  proof (induction t)
    case (Cons c u)
    then show ?case using fraction_bounds [of u] digit_of_zero [of c]
      by (cases "u = []") (auto simp: fraction_Cons intro: add_nonneg_pos)
  qed simp
  from Nil pos [of t] show ?case by (cases t) auto
next
  case (Cons b s)
  show ?case
  proof (cases t)
    case Nil
    then show ?thesis using fraction_bounds [OF Cons.prems(1)] by simp
  next
    case t: (Cons c u)
    from Cons.prems t have d: "is_digit b" "is_digit c" "list_all is_digit s" "list_all is_digit u" by simp_all
    note bs = fraction_bounds [OF d(3)] fraction_bounds [OF d(4)]
    have gap: "of_nat (digit_of x) + p < of_nat (digit_of y) + q" if "digit_of x < digit_of y" "p < 1" "0 \<le> q" for x y and p q :: rat
    proof -
      have "of_nat (digit_of x) + 1 \<le> (of_nat (digit_of y) :: rat)" using that(1) by (metis Suc_leI of_nat_Suc of_nat_le_iff add.commute)
      with that show ?thesis by linarith
    qed
    show ?thesis
    proof (cases "b = c")
      case True
      moreover have "s < u \<longleftrightarrow> fraction s < fraction u" using Cons.IH [of u] Cons.prems t by (auto split: if_splits)
      ultimately show ?thesis by (simp add: t fraction_Cons)
    next
      case False
      then consider "digit_of b < digit_of c" | "digit_of c < digit_of b"
        using digit_of_mono [OF d(1,2)] digit_of_mono [OF d(2,1)] by (metis linorder_neqE)
      then show ?thesis
        using gap [of b c "fraction s" "fraction u"] gap [of c b "fraction u" "fraction s"] bs False t
          digit_of_mono [OF d(1,2)] digit_of_mono [OF d(2,1)] by cases (auto simp: fraction_Cons)
    qed
  qed
qed

lemma cmp_fractions:
  assumes "list_all is_digit s" "list_all is_digit t"
  shows "cmp (trim_end 0x30 s) (trim_end 0x30 t) = cmp (fraction s) (fraction t)"
  using fraction_lex [of "trim_end 0x30 s" "trim_end 0x30 t"] fraction_lex [of "trim_end 0x30 t" "trim_end 0x30 s"]
    trim_end_last [of s] trim_end_last [of t] trim_end_digits assms
  by (intro cmp_mono) (simp_all add: trim_end_fraction)

lemma cmp_sum:
  assumes "0 \<le> p" "p < 1" "0 \<le> q" "q < (1 :: rat)"
  shows "then_with (cmp (m :: nat) n) (cmp p q) = cmp (of_nat m + p) (of_nat n + q)"
proof -
  have less: "of_nat a + r < of_nat b + u" if "a < b" "r < 1" "0 \<le> u" for a b :: nat and r u :: rat
  proof -
    have "of_nat a + 1 \<le> (of_nat b :: rat)" using that(1) by (metis Suc_leI of_nat_Suc of_nat_le_iff add.commute)
    with that show ?thesis by linarith
  qed
  consider "m < n" | "m = n" | "n < m" by linarith
  then show ?thesis using less [of m n p q] less [of n m q p] assms by cases (auto simp: cmp_def)
qed

lemma zero_value:
  assumes "list_all is_digit i" "list_all is_digit f"
  shows "trim_start 0x30 i = [] \<and> trim_end 0x30 f = [] \<longleftrightarrow> of_nat (digits_number i) + fraction f = 0"
proof -
  have "digits_number i = 0 \<longleftrightarrow> trim_start 0x30 i = []"
    using cmp_integers [OF assms(1), of "[]"] by (auto simp: cmp_def trim_start_def split: if_splits)
  moreover have "fraction f = 0 \<longleftrightarrow> trim_end 0x30 f = []"
    using cmp_fractions [OF assms(2), of "[]"] by (auto simp: cmp_def trim_end_def split: if_splits)
  moreover have "0 \<le> fraction f" using fraction_bounds [OF assms(2)] by simp
  ultimately show ?thesis by (simp add: add_nonneg_eq_0_iff)
qed

lemma cmp_uminus: "cmp (- x) (- y) = reverse (cmp x (y :: rat))"
  by (auto simp: cmp_def)

lemma decimal_split_digits: "decimal_split a = Some (n, i, f) \<Longrightarrow> list_all is_digit i \<and> list_all is_digit f"
  by (auto simp: decimal_split_def Let_def split: prod.splits option.splits if_splits)

lemma cmp_numeric_ok:
  assumes "decimal_split a = Some x" "decimal_split b = Some y"
  shows "cmp_numeric_text a b = Some (cmp (decimal_value x) (decimal_value y))"
proof -
  obtain an ai af where x: "x = (an, ai, af)" by (cases x)
  obtain bn bi bf where y: "y = (bn, bi, bf)" by (cases y)
  have d: "list_all is_digit ai" "list_all is_digit af" "list_all is_digit bi" "list_all is_digit bf"
    using decimal_split_digits assms x y by blast+
  let ?v = "of_nat (digits_number ai) + fraction af" and ?w = "of_nat (digits_number bi) + fraction bf"
  note bounds = fraction_bounds [OF d(2)] fraction_bounds [OF d(4)]
  have mag: "then_with (then_with (cmp (length (trim_start 0x30 ai)) (length (trim_start 0x30 bi)))
      (cmp (trim_start 0x30 ai) (trim_start 0x30 bi))) (cmp (trim_end 0x30 af) (trim_end 0x30 bf)) = cmp ?v ?w"
    using bounds by (simp add: cmp_integers d cmp_fractions cmp_sum)
  have nonneg: "0 \<le> ?v" "0 \<le> ?w" using bounds by simp_all
  show ?thesis
    unfolding cmp_numeric_text_def decimal_parts_def assms x y
    using mag zero_value [OF d(1,2)] zero_value [OF d(3,4)] nonneg
    by (auto simp: Let_def decimal_value_def cmp_uminus cmp_def)
qed

text \<open>
  C37: Comparing two decimal texts compares the numbers they denote: signs, leading and
  trailing zeros, an absent integer or fraction part and the length of the digits never
  matter, and both signs of zero are equal.
\<close>

theorem cmp_numeric_exact:
  assumes "decimal_split a = Some x" "decimal_split b = Some y"
  shows "cmp_numeric_text a b = Some (cmp (decimal_value x) (decimal_value y))"
  using assms by (rule cmp_numeric_ok)

theorem cmp_numeric_exact_witness:
  "cmp_numeric_text (ascii ''-12.50'') (ascii ''-9.75'') = Some Less \<and> cmp_numeric_text (ascii ''9.75'') (ascii ''+012.5'') = Some Less"
proof -
  have "decimal_split (ascii ''-12.50'') = Some (True, ascii ''12'', ascii ''50'')" by code_simp
  moreover have "decimal_split (ascii ''-9.75'') = Some (True, ascii ''9'', ascii ''75'')" by code_simp
  moreover have "decimal_split (ascii ''9.75'') = Some (False, ascii ''9'', ascii ''75'')" by code_simp
  moreover have "decimal_split (ascii ''+012.5'') = Some (False, ascii ''012'', ascii ''5'')" by code_simp
  moreover have "cmp (decimal_value (True, ascii ''12'', ascii ''50'')) (decimal_value (True, ascii ''9'', ascii ''75'')) = Less"
    by code_simp
  moreover have "cmp (decimal_value (False, ascii ''9'', ascii ''75'')) (decimal_value (False, ascii ''012'', ascii ''5'')) = Less"
    by code_simp
  ultimately show ?thesis
    using cmp_numeric_exact [of "ascii ''-12.50''" _ "ascii ''-9.75''"] cmp_numeric_exact [of "ascii ''9.75''" _ "ascii ''+012.5''"]
    by metis
qed

text \<open>
  C36: A single-source sink with a recorded watermark and data resumes at the larger of the two:
  the resolved watermark is one of them and denotes the maximum. Beside other sources'
  rows the data never moves it, and without a record of its own the run refuses.
\<close>

theorem resolve_watermark_greatest:
  assumes "decimal_split s = Some x" "decimal_split d = Some y"
  shows "(\<exists>w \<in> {s, d}. resolve_watermark (Some s) (Some d) False (Greatest True) dest source_id = Inr (Some w) \<and>
      map_option decimal_value (decimal_split w) = Some (max (decimal_value x) (decimal_value y))) \<and>
    resolve_watermark (Some s) (Some d) True arb dest source_id = Inr (Some s) \<and>
    resolve_watermark None (Some d) True arb dest source_id = Inl (InvalidInput (Sibling_state dest source_id))"
proof (intro conjI)
  have "cmp_numeric_text s d = Some (cmp (decimal_value x) (decimal_value y))" by (rule cmp_numeric_ok [OF assms])
  then have "wm_pick True s d = (if decimal_value x < decimal_value y then d else s)"
    by (simp add: wm_pick_def cmp_def)
  with assms show "\<exists>w \<in> {s, d}. resolve_watermark (Some s) (Some d) False (Greatest True) dest source_id = Inr (Some w) \<and>
      map_option decimal_value (decimal_split w) = Some (max (decimal_value x) (decimal_value y))"
    by (cases x, cases y) (simp add: resolve_watermark_def max_def)
qed (auto simp: resolve_watermark_def split: wm_arbitration.splits)

theorem resolve_watermark_greatest_witness:
  "\<exists>w \<in> {ascii ''9'', ascii ''12''}. resolve_watermark (Some (ascii ''9'')) (Some (ascii ''12'')) False (Greatest True) [] [] = Inr (Some w) \<and>
      map_option decimal_value (decimal_split w) = Some 12"
proof -
  have "decimal_split (ascii ''9'') = Some (False, ascii ''9'', [])" by code_simp
  moreover have "decimal_split (ascii ''12'') = Some (False, ascii ''12'', [])" by code_simp
  moreover have "max (decimal_value (False, ascii ''9'', [])) (decimal_value (False, ascii ''12'', [])) = 12" by code_simp
  ultimately show ?thesis
    using resolve_watermark_greatest [of "ascii ''9''" "(False, ascii ''9'', [])" "ascii ''12''" "(False, ascii ''12'', [])" "[]" "[]" StateAuthoritative]
    by simp
qed

end
