(* ===== verification/Naming.thy ===== *)
theory Naming
  imports Rowtext "HOL-Library.List_Lexorder"
begin

text \<open>
  The names apitap gives the objects it creates beside a table (\<^verbatim>\<open>naming.rs\<close>): artifact
  suffixes and the shortening of long names, run tokens, what a run reads off another run's
  name, which runs may work beside each other, what a listing of the catalog means to a run,
  and whose a row of the state table is. The digest is a parameter (\<open>md5_hex\<close>, the lower-case
  hexadecimal md5 of a text), as are the clock, the process id and the nanoseconds a nonce
  starts from. A minted name is proved to be read back for what it is, by its own run, its
  child and every other.
\<close>

section \<open>Artifacts\<close>

datatype artifact =
    Staging
  | Old
  | New
  | ChangelogTmp
  | CdcDelete
  | CdcStaging
  | CdcStaging1
  | CdcStaging2
  | CdcStaging3
  | Current
  | Lock

definition ALL_ARTIFACTS :: "artifact list" where
  "ALL_ARTIFACTS = [Staging, Old, New, ChangelogTmp, CdcDelete, CdcStaging, CdcStaging1, CdcStaging2, CdcStaging3, Current, Lock]"

definition cdc_staging_family :: "artifact list" where
  "cdc_staging_family = [CdcStaging, CdcStaging1, CdcStaging2, CdcStaging3]"

definition reserved :: "artifact \<Rightarrow> bool" where
  "reserved a \<longleftrightarrow> a \<noteq> Current"

fun suffix :: "artifact \<Rightarrow> bytes" where
  "suffix Staging = ascii ''__apitap_staging''"
| "suffix Old = ascii ''__apitap_old''"
| "suffix New = ascii ''__apitap_new''"
| "suffix ChangelogTmp = ascii ''__apitap_cl''"
| "suffix CdcDelete = ascii ''__apitap_cdc_del''"
| "suffix CdcStaging = ascii ''__apitap_cdc''"
| "suffix CdcStaging1 = ascii ''__apitap_cdc1''"
| "suffix CdcStaging2 = ascii ''__apitap_cdc2''"
| "suffix CdcStaging3 = ascii ''__apitap_cdc3''"
| "suffix Current = ascii ''__current''"
| "suffix Lock = ascii ''__apitap_lock''"

definition PG_IDENT_MAX :: nat where "PG_IDENT_MAX = 63"
definition MY_IDENT_MAX :: nat where "MY_IDENT_MAX = 64"
definition ROOMY :: nat where "ROOMY = 1024"
definition HASH :: nat where "HASH = 8"

text \<open>\<^verbatim>\<open>char::len_utf8\<close>, read off the first byte of a character of valid text.\<close>

definition char_len :: "byte \<Rightarrow> nat" where
  "char_len b = (if b < 0x80 then 1 else if b < 0xE0 then 2 else if b < 0xF0 then 3 else 4)"

lemma char_len_pos: "0 < char_len b"
  by (simp add: char_len_def)

text \<open>The longest whole-character prefix within a number of bytes.\<close>

function take_chars :: "nat \<Rightarrow> bytes \<Rightarrow> bytes" where
  "take_chars room [] = []"
| "take_chars room (b # s) =
     (if room < char_len b then []
      else take (char_len b) (b # s) @ take_chars (room - char_len b) (drop (char_len b) (b # s)))"
  by pat_completeness auto
termination
  by (relation "measure (length \<circ> snd)") (auto simp: char_len_pos)

definition artifact_ident :: "(bytes \<Rightarrow> bytes) \<Rightarrow> bytes \<Rightarrow> artifact \<Rightarrow> nat \<Rightarrow> bytes" where
  "artifact_ident md5_hex bare a limit =
     (let suf = suffix a
      in if length bare + length suf \<le> limit then bare @ suf
         else let room = limit - (length suf + HASH + 1);
                  head = take_chars room bare;
                  h = md5_hex (bare @ suf)
              in head @ ascii ''_'' @ take HASH h @ suf)"

section \<open>Run identity\<close>

record run_id =
  token :: bytes
  parent :: "bytes option"

datatype land_kind = LSwap | LIncremental | LCdc

fun letter :: "land_kind \<Rightarrow> byte" where
  "letter LSwap = byte_of CHR ''r''"
| "letter LIncremental = byte_of CHR ''a''"
| "letter LCdc = byte_of CHR ''l''"

definition from_letter :: "byte \<Rightarrow> land_kind option" where
  "from_letter c =
     (if c = byte_of CHR ''r'' then Some LSwap
      else if c = byte_of CHR ''a'' then Some LIncremental
      else if c = byte_of CHR ''l'' then Some LCdc
      else None)"

datatype bulk_kind = BSwap | BIncremental

fun land_of_bulk :: "bulk_kind \<Rightarrow> land_kind" where
  "land_of_bulk BSwap = LSwap"
| "land_of_bulk BIncremental = LIncremental"

definition RUN_TOKEN_LEN :: nat where "RUN_TOKEN_LEN = 16"

record nonce_state =
  ns_pid :: u32
  ns_base :: u64
  ns_next :: u64

definition nonce_new :: nonce_state where
  "nonce_new = \<lparr>ns_pid = 0, ns_base = 0, ns_next = 0\<rparr>"

text \<open>\<open>ns\<close> is the nanosecond part of the clock, read only when the process changed.\<close>

definition nonce_next :: "u64 \<Rightarrow> u32 \<Rightarrow> nonce_state \<Rightarrow> u64 \<times> nonce_state" where
  "nonce_next ns pid s =
     (let s = (if ns_pid s \<noteq> pid
               then \<lparr>ns_pid = pid, ns_base = ns * 0x9E3779B9 + ucast pid, ns_next = 0\<rparr> else s)
      in (ns_base s + ns_next s, s\<lparr>ns_next := ns_next s + 1\<rparr>))"

definition base36_digit :: "nat \<Rightarrow> byte" where
  "base36_digit d = (if d < 10 then of_nat (48 + d) else of_nat (87 + d))"

fun base36 :: "nat \<Rightarrow> nat \<Rightarrow> bytes" where
  "base36 n 0 = []"
| "base36 n (Suc width) = base36 (n div 36) width @ [base36_digit (n mod 36)]"

definition source_number :: "(bytes \<Rightarrow> bytes) \<Rightarrow> bytes \<Rightarrow> nat" where
  "source_number md5_hex source_id =
     (case parse_u64_radix 16 (take 8 (md5_hex source_id)) of Some v \<Rightarrow> unat v | None \<Rightarrow> 0)"

text \<open>\<open>secs\<close> is the clock and \<open>nonce\<close> the next nonce of the process.\<close>

definition mint_token :: "(bytes \<Rightarrow> bytes) \<Rightarrow> u64 \<Rightarrow> u64 \<Rightarrow> land_kind \<Rightarrow> bytes \<Rightarrow> run_id" where
  "mint_token md5_hex secs nonce kind source_id =
     \<lparr>token = ascii ''_'' @ base36 (unat secs) 7 @ [letter kind] @ base36 (source_number md5_hex source_id) 3 @ base36 (unat nonce) 4,
      parent = None\<rparr>"

definition mint_bulk :: "(bytes \<Rightarrow> bytes) \<Rightarrow> u64 \<Rightarrow> u64 \<Rightarrow> bulk_kind \<Rightarrow> bytes \<Rightarrow> run_id" where
  "mint_bulk md5_hex secs nonce kind source_id = mint_token md5_hex secs nonce (land_of_bulk kind) source_id"

definition mint_drain :: "(bytes \<Rightarrow> bytes) \<Rightarrow> u64 \<Rightarrow> u64 \<Rightarrow> bytes \<Rightarrow> run_id" where
  "mint_drain md5_hex secs nonce source_id = mint_token md5_hex secs nonce LCdc source_id"

definition mint_within :: "(bytes \<Rightarrow> bytes) \<Rightarrow> u64 \<Rightarrow> u64 \<Rightarrow> bulk_kind \<Rightarrow> bytes \<Rightarrow> run_id \<Rightarrow> run_id" where
  "mint_within md5_hex secs nonce kind source_id p =
     (mint_bulk md5_hex secs nonce kind source_id)\<lparr>parent := Some (token p)\<rparr>"

definition run_kind :: "run_id \<Rightarrow> land_kind result" where
  "run_kind r = and_then (index_list (token r) 8) (\<lambda>c. ok_or Panic (from_letter c))"

definition is_self :: "run_id \<Rightarrow> bytes \<Rightarrow> bool" where
  "is_self r tok \<longleftrightarrow> token r = tok"

definition is_parent :: "run_id \<Rightarrow> bytes \<Rightarrow> bool" where
  "is_parent r tok \<longleftrightarrow> parent r = Some tok"

datatype land_mode = MReplace | MAppend | MMerge | MLogBased

definition flipped_bootstrap :: "land_kind \<Rightarrow> land_mode \<Rightarrow> bool" where
  "flipped_bootstrap kind mode \<longleftrightarrow> mode = MReplace \<and> kind = LIncremental"

section \<open>Reading a peer's name\<close>

record peer_run =
  started_unix :: u64
  kind :: land_kind
  source_hash :: bytes
  peer_token :: bytes

definition ends_with :: "bytes \<Rightarrow> bytes \<Rightarrow> bool" where
  "ends_with s suf \<longleftrightarrow> strip_suffix suf s \<noteq> None"

definition starts_with :: "bytes \<Rightarrow> bytes \<Rightarrow> bool" where
  "starts_with s pre \<longleftrightarrow> strip_prefix pre s \<noteq> None"

text \<open>
  A cut inside a character (its next byte continues one) gives no token, as \<^verbatim>\<open>str::get\<close> does.
\<close>

definition parse_peer :: "bytes \<Rightarrow> artifact \<Rightarrow> peer_run option" where
  "parse_peer name a =
     Option.bind (strip_suffix (suffix a) name) (\<lambda>head.
       if length head < RUN_TOKEN_LEN then None
       else let tok = drop (length head - RUN_TOKEN_LEN) head
            in if utf8_cont (hd tok) then None
               else if \<not> list_all (\<lambda>b. b < 0x80) tok then None
               else if tok ! 0 \<noteq> byte_of CHR ''_'' then None
               else Option.bind (parse_u64_radix 36 (take 7 (drop 1 tok))) (\<lambda>started.
                    Option.bind (from_letter (tok ! 8)) (\<lambda>k.
                      Some \<lparr>started_unix = started, kind = k, source_hash = take 3 (drop 9 tok), peer_token = tok\<rparr>)))"

fun peer_blocks_kinds :: "land_kind \<Rightarrow> land_kind \<Rightarrow> bool \<Rightarrow> bool" where
  "peer_blocks_kinds LIncremental LIncremental same_source = same_source"
| "peer_blocks_kinds _ _ _ = True"

definition peer_blocks :: "peer_run \<Rightarrow> peer_run \<Rightarrow> bool" where
  "peer_blocks me peer = peer_blocks_kinds (kind me) (kind peer) (source_hash me = source_hash peer)"

definition lock_blocks :: "peer_run \<Rightarrow> peer_run list \<Rightarrow> peer_run option" where
  "lock_blocks me locks = find (peer_blocks me) locks"

definition GUARDED :: "artifact list" where
  "GUARDED = [Lock, Staging]"

datatype blocker =
    Legacy_object bytes
  | Live_peer bytes artifact peer_run peer_run

fun blocker_name :: "blocker \<Rightarrow> bytes" where
  "blocker_name (Legacy_object n) = n"
| "blocker_name (Live_peer n _ _ _) = n"

record scan =
  blockers_of :: "blocker list"
  mine_leftovers :: "bytes list"

datatype found = Foreign | Mine | Parent | Legacy | Live peer_run

text \<open>What every name of a table and artifact starts and ends with.\<close>

definition artifact_match :: "(bytes \<Rightarrow> bytes) \<Rightarrow> bytes \<Rightarrow> artifact \<Rightarrow> nat \<Rightarrow> bytes \<times> bytes" where
  "artifact_match md5_hex bare a limit =
     (let suf = suffix a; room = limit - (length suf + RUN_TOKEN_LEN)
      in if length bare \<le> room then (bare, suf)
         else let keep = room - (HASH + 1); head = take_chars keep bare; h = md5_hex (bare @ suf)
              in (head @ ascii ''_'' @ take HASH h, suf))"

definition artifact_ident_tok :: "(bytes \<Rightarrow> bytes) \<Rightarrow> bytes \<Rightarrow> artifact \<Rightarrow> nat \<Rightarrow> bytes \<Rightarrow> bytes" where
  "artifact_ident_tok md5_hex bare a limit tok =
     (let (head, suf) = artifact_match md5_hex bare a limit in head @ tok @ suf)"

definition artifact_ident_run :: "(bytes \<Rightarrow> bytes) \<Rightarrow> bytes \<Rightarrow> artifact \<Rightarrow> nat \<Rightarrow> run_id \<Rightarrow> bytes" where
  "artifact_ident_run md5_hex bare a limit run = artifact_ident_tok md5_hex bare a limit (token run)"

definition classify :: "(bytes \<Rightarrow> bytes) \<Rightarrow> bytes \<Rightarrow> bytes \<Rightarrow> artifact \<Rightarrow> nat \<Rightarrow> run_id \<Rightarrow> found" where
  "classify md5_hex name bare a limit mine =
     (let (head, suf) = artifact_match md5_hex bare a limit
      in if name = artifact_ident md5_hex bare a limit then Legacy
         else if length name \<noteq> length head + RUN_TOKEN_LEN + length suf \<or> \<not> starts_with name head \<or> \<not> ends_with name suf
         then Foreign
         else case parse_peer name a of
                None \<Rightarrow> Foreign
              | Some peer \<Rightarrow>
                  if is_self mine (peer_token peer) then Mine
                  else if is_parent mine (peer_token peer) then Parent
                  else Live peer)"

definition scan_name :: "(bytes \<Rightarrow> bytes) \<Rightarrow> bytes \<Rightarrow> nat \<Rightarrow> run_id \<Rightarrow> bytes \<times> bytes \<Rightarrow> artifact \<times> peer_run \<Rightarrow> scan \<Rightarrow> scan" where
  "scan_name md5_hex bare limit run listed kind_me out =
     (let (canonical, raw) = listed; (a, me) = kind_me
      in case classify md5_hex canonical bare a limit run of
           Foreign \<Rightarrow> out
         | Parent \<Rightarrow> out
         | Mine \<Rightarrow>
             if a \<noteq> Lock \<and> (case parse_peer canonical a of Some p \<Rightarrow> is_self run (peer_token p) | None \<Rightarrow> False)
             then out\<lparr>mine_leftovers := mine_leftovers out @ [raw]\<rparr> else out
         | Legacy \<Rightarrow> out\<lparr>blockers_of := blockers_of out @ [Legacy_object raw]\<rparr>
         | Live peer \<Rightarrow>
             (case lock_blocks me [peer] of
                Some b \<Rightarrow> out\<lparr>blockers_of := blockers_of out @ [Live_peer raw a b me]\<rparr>
              | None \<Rightarrow> out))"

definition blockers :: "(bytes \<Rightarrow> bytes) \<Rightarrow> bytes \<Rightarrow> nat \<Rightarrow> run_id \<Rightarrow> artifact list \<Rightarrow> (bytes \<times> bytes) list \<Rightarrow> scan result" where
  "blockers md5_hex bare limit run kinds listed =
     and_then (collect_results (\<lambda>a. and_then (ok_or Panic (parse_peer (artifact_ident_run md5_hex bare a limit run) a))
                 (\<lambda>p. Inr (a, p))) kinds) (\<lambda>mine.
       Inr (fold (\<lambda>l. fold (scan_name md5_hex bare limit run l) mine) listed
         \<lparr>blockers_of = [], mine_leftovers = []\<rparr>))"

text \<open>The markers a run announces itself with (\<^verbatim>\<open>compat::markers\<close>).\<close>

definition markers :: "land_kind \<Rightarrow> artifact list" where
  "markers k = (case k of LCdc \<Rightarrow> [Lock, Staging] | _ \<Rightarrow> [Lock])"

fun collectable :: "blocker \<Rightarrow> bytes option" where
  "collectable (Live_peer _ a peer _) = (if kind peer = LCdc \<and> a \<in> set (markers LCdc) then Some (peer_token peer) else None)"
| "collectable (Legacy_object _) = None"

section \<open>Refusals\<close>

text \<open>\<^verbatim>\<open>lease.rs\<close>: what a peer's lease says about it.\<close>

record lease =
  expires_in :: int
  collected :: bool

definition lapsed :: "lease \<Rightarrow> bool" where
  "lapsed l \<longleftrightarrow> expires_in l \<le> 0 \<or> collected l"

definition legacy_error :: "bytes \<Rightarrow> bytes \<Rightarrow> error" where
  "legacy_error dest name = Locked (Legacy_artifact dest name)"

definition locked_error :: "bytes \<Rightarrow> bytes \<Rightarrow> peer_run \<Rightarrow> peer_run \<Rightarrow> u64 \<Rightarrow> lease option \<Rightarrow> error" where
  "locked_error dest name me peer now l =
     (let age = (if now < started_unix peer then 0 else now - started_unix peer)
      in Locked (Peer_holds dest name (letter (kind me)) (letter (kind peer)) age
           (map_option (\<lambda>l. (expires_in l, collected l)) l)))"

fun blocker_error :: "bytes \<Rightarrow> blocker \<Rightarrow> u64 \<Rightarrow> lease option \<Rightarrow> error" where
  "blocker_error dest (Legacy_object name) now l = legacy_error dest name"
| "blocker_error dest (Live_peer name a peer me) now l = locked_error dest name me peer now l"

section \<open>Recognising apitap's own objects\<close>

definition FENCE_PREFIX :: bytes where
  "FENCE_PREFIX = ascii ''_apitap_fence''"

definition fence_ident :: "bytes \<Rightarrow> bytes" where
  "fence_ident tok = FENCE_PREFIX @ tok"

definition is_fence :: "bytes \<Rightarrow> bool" where
  "is_fence name = (case strip_prefix (ascii ''_apitap_fence'') name of
     Some rest \<Rightarrow> starts_with rest (ascii ''_'') | None \<Rightarrow> False)"

definition STATE_TABLE :: bytes where "STATE_TABLE = ascii ''_apitap_state''"
definition CDC_PENDING_TABLE :: bytes where "CDC_PENDING_TABLE = ascii ''_apitap_cdc_pending''"
definition LEASE_TABLE :: bytes where "LEASE_TABLE = ascii ''_apitap_lease''"
definition RESIDUE_JOURNAL_TABLE :: bytes where "RESIDUE_JOURNAL_TABLE = ascii ''_apitap_residue_journal''"

definition OWN_TABLES :: "bytes list" where
  "OWN_TABLES = [STATE_TABLE, CDC_PENDING_TABLE, LEASE_TABLE, RESIDUE_JOURNAL_TABLE]"

definition is_artifact :: "bytes \<Rightarrow> bool" where
  "is_artifact name \<longleftrightarrow> name \<in> set OWN_TABLES \<or> is_fence name \<or>
     list_ex (\<lambda>a. ends_with name (suffix a)) (filter reserved ALL_ARTIFACTS)"

datatype dialect = Postgres_like | MySql_like

text \<open>The clause that hides every object of apitap from table discovery.\<close>

definition sql_exclusion :: "bytes \<Rightarrow> dialect \<Rightarrow> bytes" where
  "sql_exclusion col dialect =
     concat (map (\<lambda>a.
       let (pat, esc) = (case dialect of
           Postgres_like \<Rightarrow> (replace_byte (byte_of CHR ''_'') (ascii [CHR 0x5C, CHR ''_'']) (suffix a), [])
         | MySql_like \<Rightarrow> (replace_byte (byte_of CHR ''_'') (ascii ''|_'') (suffix a), ascii '' ESCAPE '' @ [0x27, 0x7C, 0x27]))
       in ascii '' AND '' @ col @ ascii '' NOT LIKE '' @ [0x27, 0x25] @ pat @ [0x27] @ esc) (filter reserved ALL_ARTIFACTS))
     @ concat (map (\<lambda>t. ascii '' AND '' @ col @ ascii '' <> '' @ [0x27] @ t @ [0x27]) OWN_TABLES)
     @ (case dialect of
          Postgres_like \<Rightarrow> ascii '' AND '' @ col @ ascii '' NOT LIKE '' @ [0x27] @
            replace_byte (byte_of CHR ''_'') (ascii [CHR 0x5C, CHR ''_'']) (ascii ''_apitap_fence_'') @ [0x25, 0x27]
        | MySql_like \<Rightarrow> ascii '' AND '' @ col @ ascii '' NOT LIKE '' @ [0x27] @
            replace_byte (byte_of CHR ''_'') (ascii ''|_'') (ascii ''_apitap_fence_'') @ [0x25, 0x27] @ ascii '' ESCAPE '' @ [0x27, 0x7C, 0x27])"

section \<open>Rows of the state table\<close>

definition pg_state_keys :: "bytes \<Rightarrow> bytes \<times> bytes" where
  "pg_state_keys dest_table =
     (case split_once (byte_of CHR ''.'') dest_table of
        Some (_, bare) \<Rightarrow> (bare, dest_table)
      | None \<Rightarrow> (dest_table, ascii ''public.'' @ dest_table))"

definition STATE_CURSOR_LSN :: bytes where "STATE_CURSOR_LSN = ascii ''_lsn''"
definition STATE_MODE_CDC :: bytes where "STATE_MODE_CDC = ascii ''log_based''"

record state_row =
  row_watermark :: "bytes option"
  row_cursor :: bytes
  row_mode :: bytes

definition state_row_new :: "bytes option \<Rightarrow> bytes option \<Rightarrow> bytes option \<Rightarrow> state_row" where
  "state_row_new w c m = \<lparr>row_watermark = w, row_cursor = (case c of Some c \<Rightarrow> c | None \<Rightarrow> []),
     row_mode = (case m of Some m \<Rightarrow> m | None \<Rightarrow> [])\<rparr>"

definition is_cdc :: "state_row \<Rightarrow> bool" where
  "is_cdc r \<longleftrightarrow> row_mode r = STATE_MODE_CDC"

datatype lane = Cdc_lane | Cursor_lane bytes

datatype state_verdict = Absent_row | Mine_row "bytes option" | Foreign_row state_row

definition state_verdict_of :: "state_row option \<Rightarrow> lane \<Rightarrow> state_verdict" where
  "state_verdict_of row l =
     (case row of
        None \<Rightarrow> Absent_row
      | Some row \<Rightarrow>
          let mine = (case l of
              Cdc_lane \<Rightarrow> is_cdc row \<and> row_cursor row = STATE_CURSOR_LSN
            | Cursor_lane c \<Rightarrow> \<not> is_cdc row \<and> (row_cursor row = [] \<or> row_cursor row = c))
          in if mine then Mine_row (row_watermark row) else Foreign_row row)"

definition foreign_state_error :: "bytes \<Rightarrow> lane \<Rightarrow> state_row \<Rightarrow> error" where
  "foreign_state_error dest l row = InvalidInput
     (case l of
        Cursor_lane c \<Rightarrow> if is_cdc row then Cdc_managed dest else Other_cursor dest (row_cursor row) c
      | Cdc_lane \<Rightarrow> Managed_by dest (row_mode row) (row_cursor row))"

definition cdc_watermark :: "bytes \<Rightarrow> state_row option \<Rightarrow> u64 option result" where
  "cdc_watermark dest row =
     (case state_verdict_of row Cdc_lane of
        Absent_row \<Rightarrow> Inr None
      | Mine_row None \<Rightarrow> Inl (Transfer (Null_watermark dest))
      | Mine_row (Some w) \<Rightarrow> (case parse_u64_radix 10 w of Some v \<Rightarrow> Inr (Some v) | None \<Rightarrow> Inl (Transfer (Bad_lsn_state w)))
      | Foreign_row r \<Rightarrow> Inl (foreign_state_error dest Cdc_lane r))"

definition cursor_watermark :: "bytes \<Rightarrow> bytes \<Rightarrow> state_row option \<Rightarrow> bytes option result" where
  "cursor_watermark dest c row =
     (case state_verdict_of row (Cursor_lane c) of
        Absent_row \<Rightarrow> Inr None
      | Mine_row w \<Rightarrow> Inr w
      | Foreign_row r \<Rightarrow> Inl (foreign_state_error dest (Cursor_lane c) r))"

section \<open>What other versions write and scan for\<close>

datatype generation = G0 | G1 | G2 | G3 | G4

definition CURRENT :: generation where "CURRENT = G4"

definition SUPPORTED :: "generation list" where "SUPPORTED = [G1, G2, G3, G4]"

fun announces :: "generation \<Rightarrow> land_kind \<Rightarrow> artifact list" where
  "announces G0 _ = []"
| "announces G1 LCdc = []"
| "announces G1 _ = [Staging]"
| "announces G2 LCdc = [Lock]"
| "announces _ _ = [Lock, Staging]"

fun scans :: "generation \<Rightarrow> artifact list" where
  "scans G0 = []"
| "scans G1 = [Staging]"
| "scans _ = [Lock, Staging]"

fun excludes :: "generation \<Rightarrow> bytes list" where
  "excludes G0 = [STATE_TABLE]"
| "excludes G1 = [STATE_TABLE]"
| "excludes G2 = [STATE_TABLE, CDC_PENDING_TABLE, LEASE_TABLE]"
| "excludes G3 = [STATE_TABLE, CDC_PENDING_TABLE, LEASE_TABLE]"
| "excludes G4 = [STATE_TABLE, CDC_PENDING_TABLE, LEASE_TABLE, RESIDUE_JOURNAL_TABLE]"

definition KNOWN_HOLES :: "(generation \<times> land_kind) list" where
  "KNOWN_HOLES = [(G1, LCdc)]"

definition ROLLBACK_LEAKS :: "(generation \<times> bytes list) list" where
  "ROLLBACK_LEAKS =
     [(G1, [CDC_PENDING_TABLE, LEASE_TABLE, RESIDUE_JOURNAL_TABLE]), (G2, [RESIDUE_JOURNAL_TABLE]), (G3, [RESIDUE_JOURNAL_TABLE])]"

section \<open>Tokens\<close>

text \<open>The bytes of a token after its underscore.\<close>

definition base36_byte :: "byte \<Rightarrow> bool" where
  "base36_byte b \<longleftrightarrow> 0x30 \<le> b \<and> b \<le> 0x39 \<or> 0x61 \<le> b \<and> b \<le> 0x7A"

definition token_wf :: "bytes \<Rightarrow> bool" where
  "token_wf tok \<longleftrightarrow> length tok = RUN_TOKEN_LEN \<and> hd tok = byte_of CHR ''_'' \<and> list_all base36_byte (tl tok) \<and>
     from_letter (tok ! 8) \<noteq> None"

lemma unat_base36_digit: "d < 36 \<Longrightarrow> unat (base36_digit d) = (if d < 10 then 48 + d else 87 + d)"
  by (auto simp: base36_digit_def unat_of_nat_byte simp del: of_nat_add of_nat_numeral)

lemma base36_digit_byte: "d < 36 \<Longrightarrow> base36_byte (base36_digit d)"
  by (auto simp: base36_byte_def word_le_nat_alt unat_base36_digit)

lemma base36_digit_val: "d < 36 \<Longrightarrow> digit_val 36 (base36_digit d) = Some d"
  by (auto simp: digit_val_def unat_base36_digit)

lemma base36_digit_inj: "d < 36 \<Longrightarrow> e < 36 \<Longrightarrow> base36_digit d = base36_digit e \<Longrightarrow> d = e"
  using base36_digit_val by (metis option.inject)

lemma length_base36 [simp]: "length (base36 n w) = w"
  by (induction w arbitrary: n) simp_all

lemma base36_bytes: "list_all base36_byte (base36 n w)"
  by (induction w arbitrary: n) (simp_all add: base36_digit_byte)

lemma base36_value: "digits_value 36 acc (base36 n w) = Some (acc * 36 ^ w + n mod 36 ^ w)"
proof (induction w arbitrary: n)
  case (Suc w)
  have "n mod 36 ^ Suc w = 36 * (n div 36 mod 36 ^ w) + n mod 36"
    using mod_mult2_eq [of n 36 "36 ^ w"] by simp
  then show ?case by (simp add: digits_value_append Suc.IH base36_digit_val algebra_simps)
qed simp

lemma base36_not_sign: "base36_byte b \<Longrightarrow> b \<noteq> byte_of CHR ''+''"
  by (auto simp: base36_byte_def byte_of_def word_le_nat_alt)

lemma parse_base36:
  assumes "n < 2 ^ 64" "36 ^ w \<le> (2 ^ 64 :: nat)" "0 < w"
  shows "parse_u64_radix 36 (base36 n w) = Some (of_nat (n mod 36 ^ w))"
proof -
  obtain b bs where b: "base36 n w = b # bs" using assms(3) by (metis length_base36 length_0_conv neq_Nil_conv nat_less_le)
  then have "base36_byte b" using base36_bytes [of n w] by simp
  moreover have "n mod 36 ^ w < 2 ^ 64" using assms(2) by (meson less_le_trans mod_less_divisor zero_less_numeral zero_less_power)
  ultimately show ?thesis
    using base36_value [of 0 n w] base36_not_sign [of b] by (simp add: parse_u64_radix_def b)
qed

lemma letter_base36: "base36_byte (letter k)"
  by (cases k) (simp_all add: base36_byte_def byte_of_def)

lemma from_letter_letter [simp]: "from_letter (letter k) = Some k"
  by (cases k) (simp_all add: from_letter_def byte_of_def)

lemma mint_token_cut:
  "token (mint_token md5_hex secs nonce k sid) = byte_of CHR ''_'' # base36 (unat secs) 7 @ letter k # base36 (source_number md5_hex sid) 3 @ base36 (unat nonce) 4"
  by (simp add: mint_token_def ascii_def byte_of_def)

lemma mint_token_wf: "token_wf (token (mint_token md5_hex secs nonce k sid))"
  by (simp add: mint_token_cut token_wf_def RUN_TOKEN_LEN_def base36_bytes letter_base36 nth_append nth_Cons')

text \<open>What a well-formed token says of its run.\<close>

definition peer_of :: "bytes \<Rightarrow> peer_run" where
  "peer_of tok = \<lparr>started_unix = the (parse_u64_radix 36 (take 7 (drop 1 tok))), kind = the (from_letter (tok ! 8)),
     source_hash = take 3 (drop 9 tok), peer_token = tok\<rparr>"

lemma peer_of_token [simp]: "peer_token (peer_of tok) = tok"
  by (simp add: peer_of_def)

lemma base36_parses:
  assumes "list_all base36_byte s"
  shows "\<exists>v < 36 ^ length s. digits_value 36 0 s = Some v"
  using assms
proof (induction s rule: rev_induct)
  case (snoc b s)
  then obtain v where v: "v < 36 ^ length s" "digits_value 36 0 s = Some v" by auto
  from snoc.prems have "\<exists>d < 36. digit_val 36 b = Some d"
    by (auto simp: base36_byte_def digit_val_def word_le_nat_alt Let_def)
  then obtain d where "d < 36" "digit_val 36 b = Some d" by auto
  moreover have "v * 36 + d < 36 ^ length (s @ [b])"
  proof -
    have "(v + 1) * 36 \<le> 36 ^ length s * 36" using v(1) by (intro mult_right_mono) simp_all
    with \<open>d < 36\<close> show ?thesis by simp
  qed
  ultimately show ?case using v by (simp add: digits_value_append)
qed simp

lemma token_started:
  assumes "token_wf tok"
  shows "parse_u64_radix 36 (take 7 (drop 1 tok)) \<noteq> None"
proof -
  have len: "length tok = 16" and all: "list_all base36_byte (tl tok)" using assms by (simp_all add: token_wf_def RUN_TOKEN_LEN_def)
  let ?s = "take 7 (drop 1 tok)"
  have b: "list_all base36_byte ?s" using all by (simp add: drop_Suc list_all_iff) (meson in_set_takeD)
  have l: "length ?s = 7" using len by simp
  from base36_parses [OF b] l obtain v where v: "v < 36 ^ 7" "digits_value 36 0 ?s = Some v" by auto
  from l obtain c cs where c: "?s = c # cs" by (cases ?s) auto
  with b have "c \<noteq> byte_of CHR ''+''" using base36_not_sign [of c] by simp
  with v c show ?thesis by (simp add: parse_u64_radix_def)
qed

lemma strip_suffix_append [simp]: "strip_suffix s (h @ s) = Some h"
  by (simp add: strip_suffix_def)

lemma strip_prefix_append [simp]: "strip_prefix p (p @ s) = Some s"
  by (simp add: strip_prefix_def)

lemma strip_suffix_Some: "strip_suffix s x = Some h \<longleftrightarrow> x = h @ s"
  by (auto simp: strip_suffix_def) (metis append_take_drop_id)

lemma strip_prefix_Some: "strip_prefix p x = Some r \<longleftrightarrow> x = p @ r"
  by (auto simp: strip_prefix_def) (metis append_take_drop_id)

lemma base36_low: "base36_byte b \<Longrightarrow> b < 0x80"
  by (auto simp: base36_byte_def word_less_nat_alt word_le_nat_alt)

lemma token_low:
  assumes "token_wf tok"
  shows "list_all (\<lambda>b. b < 0x80) tok"
proof -
  obtain c cs where c: "tok = c # cs" using assms by (cases tok) (auto simp: token_wf_def RUN_TOKEN_LEN_def)
  with assms have "c = byte_of CHR ''_''" "list_all base36_byte cs" by (simp_all add: token_wf_def)
  then show ?thesis using base36_low by (auto simp: c list_all_iff byte_of_def)
qed

lemma parse_peer_token:
  assumes "token_wf tok"
  shows "parse_peer (h @ tok @ suffix a) a = Some (peer_of tok)"
proof -
  have len: "length tok = RUN_TOKEN_LEN" "hd tok = byte_of CHR ''_''" "from_letter (tok ! 8) \<noteq> None"
    using assms by (simp_all add: token_wf_def)
  have "tok \<noteq> []" using len(1) by (auto simp: RUN_TOKEN_LEN_def)
  then have "tok ! 0 = byte_of CHR ''_''" using len(2) by (simp add: hd_conv_nth)
  moreover have "strip_suffix (suffix a) (h @ tok @ suffix a) = Some (h @ tok)"
    using strip_suffix_append [of "suffix a" "h @ tok"] by simp
  moreover have "\<not> utf8_cont (hd tok)" unfolding len(2) by (simp add: utf8_cont_def byte_of_def)
  ultimately show ?thesis
    using token_low [OF assms] token_started [OF assms] len by (auto simp: parse_peer_def Let_def peer_of_def)
qed

lemma parse_peer_Some:
  assumes "parse_peer name a = Some p"
  shows "\<exists>h. name = h @ peer_token p @ suffix a \<and> length (peer_token p) = RUN_TOKEN_LEN"
proof -
  from assms obtain head where h: "strip_suffix (suffix a) name = Some head" by (cases "strip_suffix (suffix a) name") (auto simp: parse_peer_def)
  with assms have "RUN_TOKEN_LEN \<le> length head" "peer_token p = drop (length head - RUN_TOKEN_LEN) head"
    by (auto simp: parse_peer_def Let_def split: if_splits bind_splits)
  moreover have "head = take (length head - RUN_TOKEN_LEN) head @ drop (length head - RUN_TOKEN_LEN) head" by simp
  ultimately have "head = take (length head - RUN_TOKEN_LEN) head @ peer_token p" "length (peer_token p) = RUN_TOKEN_LEN"
    by simp_all
  moreover have "name = head @ suffix a" using h by (simp add: strip_suffix_Some)
  ultimately show ?thesis by (metis append.assoc)
qed

text \<open>No suffix ends in another, so the artifact of a name is determined.\<close>

lemma suffix_free: "h @ suffix a = g @ suffix b \<Longrightarrow> a = b"
proof -
  have free: "list_all (\<lambda>a. list_all (\<lambda>b. a = b \<or> strip_suffix (suffix a) (suffix b) = None) ALL_ARTIFACTS) ALL_ARTIFACTS"
    by code_simp
  have all: "x \<in> set ALL_ARTIFACTS" for x by (cases x) (simp_all add: ALL_ARTIFACTS_def)
  have tail: "x = y" if "suffix x = r @ suffix y" for x y r
  proof -
    have "y = x \<or> strip_suffix (suffix y) (suffix x) = None"
      by (rule bspec [OF bspec [OF free [unfolded list_all_iff] all] all])
    moreover have "strip_suffix (suffix y) (suffix x) = Some r" unfolding that by (rule strip_suffix_append)
    ultimately show ?thesis by simp
  qed
  assume "h @ suffix a = g @ suffix b"
  then obtain r where "suffix b = r @ suffix a \<or> suffix a = r @ suffix b" unfolding append_eq_append_conv2 by metis
  then show ?thesis using tail [of b r a] tail [of a r b] by metis
qed

section \<open>Names\<close>

lemma length_take_chars: "length (take_chars room s) \<le> room"
proof (induction room s rule: take_chars.induct)
  case (2 room b s)
  show ?case
  proof (cases "room < char_len b")
    case False
    with 2 have "length (take_chars (room - char_len b) (drop (char_len b) (b # s))) \<le> room - char_len b" by simp
    moreover have "length (take (char_len b) (b # s)) \<le> char_len b" by simp
    ultimately show ?thesis using False unfolding take_chars.simps if_not_P [OF False] length_append by linarith
  qed simp
qed simp

lemma suffix_length: "length (suffix a) \<le> 16"
  by (cases a) (simp_all add: ascii_def)

text \<open>
  C39: Every artifact name fits the identifier limit of its engine, the token included: the table
  name gives way, never the token or the suffix, which stay the end of the name.
\<close>

theorem artifact_fits:
  assumes "41 \<le> limit" "token_wf tok"
  shows "length (artifact_ident md5_hex bare a limit) \<le> limit \<and> ends_with (artifact_ident md5_hex bare a limit) (suffix a) \<and>
    length (artifact_ident_tok md5_hex bare a limit tok) \<le> limit \<and> ends_with (artifact_ident_tok md5_hex bare a limit tok) (tok @ suffix a)"
proof -
  note s = suffix_length [of a]
  have tok: "length tok = 16" using assms(2) by (simp add: token_wf_def RUN_TOKEN_LEN_def)
  have hash: "length (take HASH h) \<le> 8" for h :: bytes by (simp add: HASH_def)
  have "length (artifact_ident md5_hex bare a limit) \<le> limit"
    using length_take_chars [of "limit - (length (suffix a) + HASH + 1)" bare] s assms(1) hash [of "md5_hex (bare @ suffix a)"]
    by (auto simp: artifact_ident_def Let_def HASH_def ascii_def)
  moreover have "length (artifact_ident_tok md5_hex bare a limit tok) \<le> limit"
    using length_take_chars [of "limit - (length (suffix a) + RUN_TOKEN_LEN) - (HASH + 1)" bare] s assms(1) hash [of "md5_hex (bare @ suffix a)"] tok
    by (auto simp: artifact_ident_tok_def artifact_match_def Let_def HASH_def RUN_TOKEN_LEN_def ascii_def)
  moreover have "ends_with (h @ x) x" for h x by (simp add: ends_with_def)
  ultimately show ?thesis
    using \<open>\<And>h x. ends_with (h @ x) x\<close> [of "take_chars (limit - (length (suffix a) + HASH + 1)) bare @ ascii ''_'' @ take HASH (md5_hex (bare @ suffix a))" "suffix a"]
    by (simp add: artifact_ident_def artifact_ident_tok_def Let_def split: prod.split) (auto simp: artifact_match_def Let_def split: if_splits)
qed

theorem artifact_fits_witness:
  "length (artifact_ident_tok (\<lambda>_. replicate 32 0x61) (replicate 80 0x62) Lock PG_IDENT_MAX (ascii ''_0sabcdel0abc001'')) \<le> 63"
proof -
  have "token_wf (ascii ''_0sabcdel0abc001'')" by code_simp
  then show ?thesis using artifact_fits [of 63 "ascii ''_0sabcdel0abc001''" "\<lambda>_. replicate 32 0x61" "replicate 80 0x62" Lock]
    by (simp add: PG_IDENT_MAX_def)
qed

lemma match_short: "length bare + RUN_TOKEN_LEN + length (suffix a) \<le> limit \<Longrightarrow> artifact_match md5_hex bare a limit = (bare, suffix a)"
proof -
  assume "length bare + RUN_TOKEN_LEN + length (suffix a) \<le> limit"
  then have "length bare \<le> limit - (length (suffix a) + RUN_TOKEN_LEN)" by linarith
  then show ?thesis by (simp only: artifact_match_def Let_def if_True)
qed

lemma match_suffix: "snd (artifact_match md5_hex bare a limit) = suffix a"
  by (simp add: artifact_match_def Let_def)

lemma ident_short: "length bare + RUN_TOKEN_LEN + length (suffix a) \<le> limit \<Longrightarrow> artifact_ident md5_hex bare a limit = bare @ suffix a"
  by (simp add: artifact_ident_def)

text \<open>How a run reads the name of a well-formed token on the table it belongs to.\<close>

lemma classify_own_table:
  assumes "token_wf tok"
  shows "classify md5_hex (artifact_ident_tok md5_hex bare a limit tok) bare a limit mine =
    (if artifact_ident_tok md5_hex bare a limit tok = artifact_ident md5_hex bare a limit then Legacy
     else if token mine = tok then Mine else if parent mine = Some tok then Parent else Live (peer_of tok))"
proof -
  obtain head where m: "artifact_match md5_hex bare a limit = (head, suffix a)"
    by (metis match_suffix prod.collapse)
  then have name: "artifact_ident_tok md5_hex bare a limit tok = head @ tok @ suffix a" by (simp add: artifact_ident_tok_def)
  have "ends_with (head @ tok @ suffix a) (suffix a)" using strip_suffix_append [of "suffix a" "head @ tok"] by (simp add: ends_with_def)
  moreover have "starts_with (head @ tok @ suffix a) head" by (simp add: starts_with_def)
  moreover have "length tok = RUN_TOKEN_LEN" using assms by (simp add: token_wf_def)
  ultimately show ?thesis
    by (simp add: classify_def m name parse_peer_token [OF assms] is_self_def is_parent_def)
qed

lemma peer_of_minted:
  "peer_of (token (mint_token md5_hex secs nonce k sid)) =
     \<lparr>started_unix = of_nat (unat secs mod 36 ^ 7), kind = k, source_hash = base36 (source_number md5_hex sid) 3,
      peer_token = token (mint_token md5_hex secs nonce k sid)\<rparr>"
proof -
  have "unat secs < 2 ^ 64" using unsigned_less [of secs] by simp
  then have "parse_u64_radix 36 (base36 (unat secs) 7) = Some (of_nat (unat secs mod 36 ^ 7))" by (rule parse_base36) simp_all
  moreover have "take 7 (drop 1 (token (mint_token md5_hex secs nonce k sid))) = base36 (unat secs) 7"
    "token (mint_token md5_hex secs nonce k sid) ! 8 = letter k"
    "take 3 (drop 9 (token (mint_token md5_hex secs nonce k sid))) = base36 (source_number md5_hex sid) 3"
    by (simp_all add: mint_token_cut nth_append nth_Cons' drop_Cons')
  ultimately show ?thesis by (simp add: peer_of_def)
qed

text \<open>
  C38: A minted name is read for what it is. Between tables and artifacts whose names need no
  shortening, a run that meets the artifact of another run classifies it as its own exactly
  when the token is its own, as its parent's exactly when the token is its parent's, and
  otherwise as a live peer with the start, the kind and the source the token was minted
  from; the artifact of another table or of another kind is foreign, except that a table
  whose own name ends in that token reads it as the name of an old release.
\<close>

theorem classify_minted:
  assumes "length bare + RUN_TOKEN_LEN + length (suffix a) \<le> limit" "length bare' + RUN_TOKEN_LEN + length (suffix a') \<le> limit"
    and tok: "tok = token (mint_token md5_hex secs nonce k sid)"
  shows "classify md5_hex (artifact_ident_tok md5_hex bare' a' limit tok) bare a limit mine =
    (if a' = a \<and> bare = bare' @ tok then Legacy
     else if a' \<noteq> a \<or> bare' \<noteq> bare then Foreign
     else if token mine = tok then Mine
     else if parent mine = Some tok then Parent
     else Live \<lparr>started_unix = of_nat (unat secs mod 36 ^ 7), kind = k, source_hash = base36 (source_number md5_hex sid) 3,
                 peer_token = tok\<rparr>)"
proof -
  have wf: "token_wf tok" unfolding tok by (rule mint_token_wf)
  then have len: "length tok = RUN_TOKEN_LEN" by (simp add: token_wf_def)
  have name: "artifact_ident_tok md5_hex bare' a' limit tok = bare' @ tok @ suffix a'"
    by (simp add: artifact_ident_tok_def match_short [OF assms(2)])
  have legacy: "bare' @ tok @ suffix a' = bare @ suffix a \<longleftrightarrow> a' = a \<and> bare = bare' @ tok"
    using suffix_free [of "bare' @ tok" a' bare a] by auto
  show ?thesis
  proof (cases "a' = a \<and> bare' = bare")
    case True
    then show ?thesis
      using classify_own_table [OF wf, of md5_hex bare a limit mine] legacy name peer_of_minted [of md5_hex secs nonce k sid] tok
      by (simp add: ident_short [OF assms(1)])
  next
    case False
    have "\<not> (length (bare' @ tok @ suffix a') = length bare + RUN_TOKEN_LEN + length (suffix a) \<and>
        starts_with (bare' @ tok @ suffix a') bare \<and> ends_with (bare' @ tok @ suffix a') (suffix a))"
    proof
      assume h: "length (bare' @ tok @ suffix a') = length bare + RUN_TOKEN_LEN + length (suffix a) \<and>
        starts_with (bare' @ tok @ suffix a') bare \<and> ends_with (bare' @ tok @ suffix a') (suffix a)"
      then obtain r q where "bare' @ tok @ suffix a' = bare @ r" "bare' @ tok @ suffix a' = q @ suffix a"
        by (auto simp: starts_with_def ends_with_def strip_prefix_Some strip_suffix_Some)
      moreover from this(2) suffix_free [of "bare' @ tok" a' q a] have "a' = a" by simp
      ultimately have "bare' = bare" using h len by (auto simp: append_eq_append_conv)
      with \<open>a' = a\<close> False show False by simp
    qed
    with False legacy show ?thesis by (auto simp: classify_def match_short [OF assms(1)] ident_short [OF assms(1)] name)
  qed
qed

definition sample_run :: run_id where
  "sample_run = mint_token (\<lambda>_. replicate 32 0x30) 1700000000 7 LCdc (ascii ''pg://a'')"

theorem classify_minted_witness:
  "classify (\<lambda>_. replicate 32 0x30) (artifact_ident_tok (\<lambda>_. replicate 32 0x30) (ascii ''orders'') Lock 63 (token sample_run))
     (ascii ''orders'') Lock 63 \<lparr>token = [], parent = None\<rparr> =
   Live \<lparr>started_unix = 1700000000, kind = LCdc, source_hash = base36 0 3, peer_token = token sample_run\<rparr>"
proof -
  have "length (ascii ''orders'') + RUN_TOKEN_LEN + length (suffix Lock) \<le> 63" by code_simp
  moreover have "token sample_run \<noteq> []" by (simp add: sample_run_def mint_token_cut)
  moreover have "ascii ''orders'' \<noteq> ascii ''orders'' @ token sample_run" using \<open>token sample_run \<noteq> []\<close> by simp
  moreover have "source_number (\<lambda>_. replicate 32 0x30) (ascii ''pg://a'') = 0"
  proof -
    have "take 8 (replicate 32 (0x30 :: byte)) = [0x30, 0x30, 0x30, 0x30, 0x30, 0x30, 0x30, 0x30]" by code_simp
    then show ?thesis by (simp add: source_number_def parse_u64_radix_def digit_val_def byte_of_def)
  qed
  moreover have "(of_nat (unat (1700000000 :: u64) mod 36 ^ 7) :: u64) = 1700000000" by simp
  ultimately show ?thesis
    using classify_minted [of "ascii ''orders''" Lock 63 "ascii ''orders''" Lock "token sample_run" "\<lambda>_. replicate 32 0x30" 1700000000 7
        LCdc "ascii ''pg://a''" "\<lparr>token = [], parent = None\<rparr>"]
    by (simp only: sample_run_def simp_thms if_True if_False run_id.simps option.distinct eq_commute [of "[]"])
qed

section \<open>Lanes and versions\<close>


text \<open>
  A current run is seen by the scan of every supported release, and the current scan sees
  every supported writer except the declared holes.
\<close>

lemma releases_see_each_other:
  "g \<in> set SUPPORTED \<Longrightarrow> set (scans g) \<inter> set (announces CURRENT k) \<noteq> {} \<and>
    (set (scans CURRENT) \<inter> set (announces g k) \<noteq> {} \<longleftrightarrow> (g, k) \<notin> set KNOWN_HOLES)"
  by (cases g; cases k) (simp_all add: SUPPORTED_def CURRENT_def KNOWN_HOLES_def)

end
