(* ===== verification/Guard.thy ===== *)
theory Guard
  imports Naming
begin

text \<open>
  The announce, scan and collect protocol (\<^verbatim>\<open>guard.rs\<close>) over the PostgreSQL catalog adapter
  (\<^verbatim>\<open>sink/postgres.rs\<close>). An operation is a program of store calls: it makes one call at a time
  and continues on the reply, so that the calls of several runs can be interleaved and any
  call can fail. What the server does with a call is \<open>serve\<close>, on a catalog of objects and
  lease rows. The messages printed on the way are not modelled.
\<close>

section \<open>Programs of store calls\<close>

datatype claim = Taken | Refused | Absent

text \<open>
  Objects are a schema and a name; lease rows a schema, a key and a token. A marker is created
  if it is not there yet (\<^verbatim>\<open>CREATE TABLE IF NOT EXISTS\<close>), a staging table must be new.
\<close>

datatype store_call =
    List_kind bytes bytes artifact
  | Create_object bytes bytes
  | Create_table bytes bytes
  | Drop_object bytes bytes
  | Lease_get bytes bytes bytes
  | Lease_claim bytes bytes bytes
  | Lease_open bytes "bytes list" bytes
  | Lease_close bytes bytes bytes
  | Sweep_run bytes bytes bytes
  | Close_run bytes

datatype reply =
    Names "bytes list"
  | Ok_reply
  | Lease_reply "lease option"
  | Claim_reply claim
  | Failed error

datatype 'a prog = Ret 'a | Call store_call "reply \<Rightarrow> 'a prog"

primrec bind_prog :: "'a prog \<Rightarrow> ('a \<Rightarrow> 'b prog) \<Rightarrow> 'b prog" where
  "bind_prog (Ret x) f = f x"
| "bind_prog (Call q k) f = Call q (\<lambda>r. bind_prog (k r) f)"

text \<open>Rust's \<^verbatim>\<open>?\<close> after an awaited call.\<close>

definition try_prog :: "'a result prog \<Rightarrow> ('a \<Rightarrow> 'b result prog) \<Rightarrow> 'b result prog" where
  "try_prog p f = bind_prog p (\<lambda>r. case r of Inl e \<Rightarrow> Ret (Inl e) | Inr x \<Rightarrow> f x)"

fun failure :: "reply \<Rightarrow> error" where
  "failure (Failed e) = e"
| "failure _ = Panic"

definition call_unit :: "store_call \<Rightarrow> unit result prog" where
  "call_unit q = Call q (\<lambda>r. Ret (case r of Ok_reply \<Rightarrow> Inr () | _ \<Rightarrow> Inl (failure r)))"

definition call_names :: "store_call \<Rightarrow> bytes list result prog" where
  "call_names q = Call q (\<lambda>r. Ret (case r of Names ns \<Rightarrow> Inr ns | _ \<Rightarrow> Inl (failure r)))"

definition call_lease :: "store_call \<Rightarrow> lease option result prog" where
  "call_lease q = Call q (\<lambda>r. Ret (case r of Lease_reply l \<Rightarrow> Inr l | _ \<Rightarrow> Inl (failure r)))"

definition call_claim :: "store_call \<Rightarrow> claim result prog" where
  "call_claim q = Call q (\<lambda>r. Ret (case r of Claim_reply c \<Rightarrow> Inr c | _ \<Rightarrow> Inl (failure r)))"

section \<open>The adapter\<close>

record guard_store =
  gs_schema :: bytes
  gs_limit :: nat
  gs_label :: "bytes \<Rightarrow> bytes"
  gs_kinds :: "artifact list"
  gs_spelling :: "artifact \<Rightarrow> artifact"

definition pg_label :: "bytes \<Rightarrow> bytes \<Rightarrow> bytes" where
  "pg_label schema bare = schema @ ascii ''.'' @ bare"

definition pg_guard :: "bytes \<Rightarrow> guard_store" where
  "pg_guard schema = \<lparr>gs_schema = schema, gs_limit = PG_IDENT_MAX, gs_label = pg_label schema, gs_kinds = GUARDED,
     gs_spelling = (\<lambda>a. a)\<rparr>"

text \<open>One query per artifact kind, in the order of the kinds; both spellings of a name are the same.\<close>

fun list_objects :: "guard_store \<Rightarrow> bytes \<Rightarrow> artifact list \<Rightarrow> (bytes \<times> bytes) list result prog" where
  "list_objects g bare [] = Ret (Inr [])"
| "list_objects g bare (a # kinds) =
     try_prog (call_names (List_kind (gs_schema g) bare a)) (\<lambda>ns.
     try_prog (list_objects g bare kinds) (\<lambda>ls. Ret (Inr (map (\<lambda>n. (n, n)) ns @ ls))))"

section \<open>Announce\<close>

record announced =
  an_key :: bytes
  an_token :: bytes
  an_names :: "bytes list"

record released =
  rel_key :: bytes
  rel_token :: bytes

text \<open>Drops every name and gives the ones that could not be dropped.\<close>

fun drop_each :: "bytes \<Rightarrow> bytes list \<Rightarrow> bytes list prog" where
  "drop_each schema [] = Ret []"
| "drop_each schema (n # ns) =
     bind_prog (call_unit (Drop_object schema n)) (\<lambda>r.
     bind_prog (drop_each schema ns) (\<lambda>failed. Ret (case r of Inl _ \<Rightarrow> n # failed | Inr _ \<Rightarrow> failed)))"

fun announce_loop :: "(bytes \<Rightarrow> bytes) \<Rightarrow> guard_store \<Rightarrow> bytes \<Rightarrow> run_id \<Rightarrow> bytes list \<Rightarrow> artifact list \<Rightarrow> bytes list result prog" where
  "announce_loop md5_hex g bare run names [] = Ret (Inr names)"
| "announce_loop md5_hex g bare run names (a # as) =
     (let n = artifact_ident_run md5_hex bare (gs_spelling g a) (gs_limit g) run
      in bind_prog (call_unit (Create_object (gs_schema g) n)) (\<lambda>r.
           case r of
             Inl e \<Rightarrow> bind_prog (drop_each (gs_schema g) names) (\<lambda>_. Ret (Inl e))
           | Inr _ \<Rightarrow> announce_loop md5_hex g bare run (names @ [n]) as))"

definition announce :: "(bytes \<Rightarrow> bytes) \<Rightarrow> guard_store \<Rightarrow> bytes \<Rightarrow> run_id \<Rightarrow> announced result prog" where
  "announce md5_hex g bare run =
     (case run_kind run of
        Inl e \<Rightarrow> Ret (Inl e)
      | Inr k \<Rightarrow>
          try_prog (announce_loop md5_hex g bare run [] (markers k)) (\<lambda>names.
            Ret (Inr \<lparr>an_key = gs_label g bare, an_token = token run, an_names = names\<rparr>)))"

section \<open>Check\<close>

datatype mine_policy = Keep | DeleteLeftovers

definition by_token :: "blocker list \<Rightarrow> (bytes \<times> blocker list) list" where
  "by_token bs = map (\<lambda>tok. (tok, filter (\<lambda>b. collectable b = Some tok) bs)) (sort (remdups (List.map_filter collectable bs)))"

definition collect_token :: "guard_store \<Rightarrow> bytes \<Rightarrow> u64 \<Rightarrow> bytes \<times> blocker list \<Rightarrow> unit result prog" where
  "collect_token g bare now tb =
     (let (tok, bs) = tb; dest = gs_label g bare;
          refuse = (\<lambda>l. Ret (case bs of b # _ \<Rightarrow> Inl (blocker_error dest b now l) | [] \<Rightarrow> Inl Panic))
      in try_prog (call_lease (Lease_get (gs_schema g) dest tok)) (\<lambda>l.
           case l of
             None \<Rightarrow> refuse None
           | Some lr \<Rightarrow>
               if \<not> lapsed lr then refuse (Some lr)
               else try_prog (call_claim (Lease_claim (gs_schema g) dest tok)) (\<lambda>c.
                 case c of
                   Refused \<Rightarrow> refuse (Some lr)
                 | Absent \<Rightarrow> refuse None
                 | Taken \<Rightarrow>
                     try_prog (call_unit (Sweep_run (gs_schema g) bare tok)) (\<lambda>_.
                     bind_prog (drop_each (gs_schema g) (map blocker_name bs)) (\<lambda>failed.
                       Ret (if failed \<noteq> [] then Inl (Transfer (Half_collected dest tok failed)) else Inr ()))))))"

fun collect_all :: "guard_store \<Rightarrow> bytes \<Rightarrow> u64 \<Rightarrow> (bytes \<times> blocker list) list \<Rightarrow> unit result prog" where
  "collect_all g bare now [] = Ret (Inr ())"
| "collect_all g bare now (tb # tbs) = try_prog (collect_token g bare now tb) (\<lambda>_. collect_all g bare now tbs)"

fun drop_all :: "bytes \<Rightarrow> bytes list \<Rightarrow> unit result prog" where
  "drop_all schema [] = Ret (Inr ())"
| "drop_all schema (n # ns) = try_prog (call_unit (Drop_object schema n)) (\<lambda>_. drop_all schema ns)"

definition decide :: "guard_store \<Rightarrow> bytes \<Rightarrow> u64 \<Rightarrow> mine_policy \<Rightarrow> scan \<Rightarrow> unit result prog" where
  "decide g bare now policy sc =
     (case find (\<lambda>b. collectable b = None) (blockers_of sc) of
        Some b \<Rightarrow> Ret (Inl (blocker_error (gs_label g bare) b now None))
      | None \<Rightarrow>
          try_prog (collect_all g bare now (by_token (blockers_of sc))) (\<lambda>_.
            if policy = DeleteLeftovers then drop_all (gs_schema g) (mine_leftovers sc) else Ret (Inr ())))"

definition check_peers :: "(bytes \<Rightarrow> bytes) \<Rightarrow> guard_store \<Rightarrow> bytes \<Rightarrow> u64 \<Rightarrow> run_id \<Rightarrow> mine_policy \<Rightarrow> unit result prog" where
  "check_peers md5_hex g bare now run policy =
     try_prog (list_objects g bare (gs_kinds g)) (\<lambda>listed.
       case blockers md5_hex bare (gs_limit g) run (gs_kinds g) listed of
         Inl e \<Rightarrow> Ret (Inl e)
       | Inr sc \<Rightarrow> decide g bare now policy sc)"

section \<open>Release\<close>

definition release :: "guard_store \<Rightarrow> announced \<Rightarrow> (announced + released) prog" where
  "release g a =
     bind_prog (drop_each (gs_schema g) (an_names a)) (\<lambda>failed.
       Ret (if failed \<noteq> [] then Inl a else Inr \<lparr>rel_key = an_key a, rel_token = an_token a\<rparr>))"

definition never_announced :: "bytes \<Rightarrow> bytes \<Rightarrow> released" where
  "never_announced key tok = \<lparr>rel_key = key, rel_token = tok\<rparr>"

text \<open>A lease closes only with the proof that its markers are gone; the outcome is ignored.\<close>

definition close_lease :: "guard_store \<Rightarrow> released \<Rightarrow> unit prog" where
  "close_lease g proof =
     bind_prog (call_unit (Lease_close (gs_schema g) (rel_key proof) (rel_token proof))) (\<lambda>_. Ret ())"

section \<open>The PostgreSQL catalog\<close>

text \<open>
  The ordinary tables by schema and name, and the lease rows with their expiry and claim. A
  row is locked while the transaction of its owner's unit holds it. \<open>taken\<close> is the history of
  claims; nothing reads it.
\<close>

record catalog =
  objects :: "(bytes \<times> bytes) list"
  lease_rows :: "bytes \<times> bytes \<times> bytes \<Rightarrow> (int \<times> bool) option"
  clock :: int
  locked :: "(bytes \<times> bytes \<times> bytes) list"
  taken :: "(bytes \<times> bytes \<times> bytes) list"

definition like_match :: "bytes \<Rightarrow> bytes \<Rightarrow> bytes \<Rightarrow> bool" where
  "like_match head suf name \<longleftrightarrow> length head + length suf \<le> length name \<and> starts_with name head \<and> ends_with name suf"

definition pg_list :: "(bytes \<Rightarrow> bytes) \<Rightarrow> catalog \<Rightarrow> bytes \<Rightarrow> bytes \<Rightarrow> artifact \<Rightarrow> bytes list" where
  "pg_list md5_hex db schema bare a =
     (let (head, suf) = artifact_match md5_hex bare a PG_IDENT_MAX
      in map snd (filter (\<lambda>(s, n). s = schema \<and> like_match head suf n) (objects db)))"

definition pg_lease :: "catalog \<Rightarrow> bytes \<times> bytes \<times> bytes \<Rightarrow> lease option" where
  "pg_lease db row = map_option (\<lambda>(till, c). \<lparr>expires_in = till - clock db, collected = c\<rparr>) (lease_rows db row)"

definition pg_claim :: "catalog \<Rightarrow> bytes \<times> bytes \<times> bytes \<Rightarrow> claim \<times> catalog" where
  "pg_claim db row =
     (case lease_rows db row of
        None \<Rightarrow> (Absent, db)
      | Some (till, c) \<Rightarrow>
          if (till \<le> clock db \<or> c) \<and> row \<notin> set (locked db)
          then (Taken, db\<lparr>lease_rows := (lease_rows db)(row \<mapsto> (till, True)), taken := row # taken db\<rparr>)
          else (Refused, db))"

definition pg_open :: "int \<Rightarrow> catalog \<Rightarrow> bytes \<Rightarrow> bytes list \<Rightarrow> bytes \<Rightarrow> catalog" where
  "pg_open ttl db schema keys tok =
     fold (\<lambda>key db. if lease_rows db (schema, key, tok) = None
       then db\<lparr>lease_rows := (lease_rows db)((schema, key, tok) \<mapsto> (clock db + ttl, False))\<rparr> else db) keys db"

fun serve :: "(bytes \<Rightarrow> bytes) \<Rightarrow> int \<Rightarrow> catalog \<Rightarrow> store_call \<Rightarrow> reply \<times> catalog" where
  "serve md5_hex ttl db (List_kind schema bare a) = (Names (pg_list md5_hex db schema bare a), db)"
| "serve md5_hex ttl db (Create_object schema n) =
     (Ok_reply, if (schema, n) \<in> set (objects db) then db else db\<lparr>objects := (schema, n) # objects db\<rparr>)"
| "serve md5_hex ttl db (Create_table schema n) =
     (if (schema, n) \<in> set (objects db) then (Failed (Transfer Store_failed), db)
      else (Ok_reply, db\<lparr>objects := (schema, n) # objects db\<rparr>))"
| "serve md5_hex ttl db (Drop_object schema n) = (Ok_reply, db\<lparr>objects := filter (\<lambda>x. x \<noteq> (schema, n)) (objects db)\<rparr>)"
| "serve md5_hex ttl db (Lease_get schema key tok) = (Lease_reply (pg_lease db (schema, key, tok)), db)"
| "serve md5_hex ttl db (Lease_claim schema key tok) = (let (c, db) = pg_claim db (schema, key, tok) in (Claim_reply c, db))"
| "serve md5_hex ttl db (Lease_open schema keys tok) = (Ok_reply, pg_open ttl db schema keys tok)"
| "serve md5_hex ttl db (Lease_close schema key tok) = (Ok_reply, db\<lparr>lease_rows := (lease_rows db)((schema, key, tok) := None)\<rparr>)"
| "serve md5_hex ttl db (Sweep_run schema bare tok) = (Ok_reply, db)"
| "serve md5_hex ttl db (Close_run tok) = (Ok_reply, db)"

text \<open>A program alone with the catalog, every call served.\<close>

primrec exec :: "(bytes \<Rightarrow> bytes) \<Rightarrow> int \<Rightarrow> 'a prog \<Rightarrow> catalog \<Rightarrow> 'a \<times> catalog" where
  "exec md5_hex ttl (Ret x) db = (x, db)"
| "exec md5_hex ttl (Call q k) db = (let (r, db') = serve md5_hex ttl db q in exec md5_hex ttl (k r) db')"

end
