(* ===== verification/Tenure.thy ===== *)
theory Tenure
  imports Guard
begin

text \<open>
  The lease of a drain and its tenure of a group of tables (\<^verbatim>\<open>lease.rs\<close>, with the PostgreSQL
  lease store of \<^verbatim>\<open>logbased/dest_pg.rs\<close>): the time limits, who owns a row, the order of
  lease, announcement and check in \<^verbatim>\<open>acquire\<close>, the way back, the units of writes that a tenure
  opens, and the renewal that notices an eviction. A member is a table as the server resolved
  it, its schema and its bare name. The mutual exclusion of runs is proved in the theory that
  interleaves them.
\<close>

section \<open>Limits and ownership\<close>

text \<open>\<open>env\<close> is the value of \<^verbatim>\<open>APITAP_LEASE_TTL_SECS\<close>, if it is set.\<close>

definition clamp :: "u64 \<Rightarrow> u64 \<Rightarrow> u64 \<Rightarrow> u64" where
  "clamp lo hi v = (if v < lo then lo else if hi < v then hi else v)"

definition ttl_secs :: "bytes option \<Rightarrow> u64" where
  "ttl_secs env =
     clamp 30 3600 (case Option.bind env (\<lambda>v. parse_u64_radix 10 (trim_str v)) of Some t \<Rightarrow> t | None \<Rightarrow> 300)"

definition renew_secs :: "bytes option \<Rightarrow> u64" where
  "renew_secs env = clamp 3 360 (ttl_secs env div 10)"

definition owned_margin_secs :: "bytes option \<Rightarrow> u64" where
  "owned_margin_secs env = ttl_secs env div 2"

definition no_longer_holds :: "bytes list \<Rightarrow> error" where
  "no_longer_holds keys = Locked (Claim_gone keys)"

definition owner_verdict :: "lease option \<Rightarrow> bytes list \<Rightarrow> unit result" where
  "owner_verdict row keys =
     (case row of
        Some l \<Rightarrow> if \<not> collected l then Inr () else Inl (no_longer_holds keys)
      | None \<Rightarrow> Inl (no_longer_holds keys))"

datatype watermark = Set_mark bytes bytes u64 u64 | Clear_mark bytes bytes

fun mark_table :: "watermark \<Rightarrow> bytes" where
  "mark_table (Set_mark t _ _ _) = t"
| "mark_table (Clear_mark t _) = t"

section \<open>The lease store\<close>

type_synonym member = "bytes \<times> bytes"

definition member_key :: "member \<Rightarrow> bytes" where
  "member_key m = pg_label (fst m) (snd m)"

definition rsplit_once :: "byte \<Rightarrow> bytes \<Rightarrow> (bytes \<times> bytes) option" where
  "rsplit_once c s = map_option (\<lambda>(x, y). (rev y, rev x)) (split_once c (rev s))"

definition key_schema :: "bytes \<Rightarrow> bytes" where
  "key_schema key = (case rsplit_once (byte_of CHR ''.'') key of Some (s, _) \<Rightarrow> s | None \<Rightarrow> ascii ''public'')"

definition by_schema :: "bytes list \<Rightarrow> (bytes \<times> bytes list) list" where
  "by_schema keys = map (\<lambda>s. (s, filter (\<lambda>k. key_schema k = s) keys)) (sort (remdups (map key_schema keys)))"

fun lease_open :: "bytes \<Rightarrow> (bytes \<times> bytes list) list \<Rightarrow> unit result prog" where
  "lease_open tok [] = Ret (Inr ())"
| "lease_open tok ((s, ks) # groups) = try_prog (call_unit (Lease_open s ks tok)) (\<lambda>_. lease_open tok groups)"

text \<open>The rows a renewal can lock and that nobody claimed; how many it renewed.\<close>

definition renew_row :: "int \<Rightarrow> bytes \<times> bytes \<times> bytes \<Rightarrow> catalog \<Rightarrow> nat \<times> catalog" where
  "renew_row ttl row db =
     (case lease_rows db row of
        Some (till, False) \<Rightarrow>
          if row \<in> set (locked db) then (0, db)
          else (1, db\<lparr>lease_rows := (lease_rows db)(row \<mapsto> (clock db + ttl, False))\<rparr>)
      | _ \<Rightarrow> (0, db))"

fun lease_renew :: "int \<Rightarrow> bytes list \<Rightarrow> bytes \<Rightarrow> catalog \<Rightarrow> nat \<times> catalog" where
  "lease_renew ttl [] tok db = (0, db)"
| "lease_renew ttl (k # ks) tok db =
     (let (n, db) = renew_row ttl (key_schema k, k, tok) db; (m, db) = lease_renew ttl ks tok db in (n + m, db))"

definition lease_unclaimed :: "bytes list \<Rightarrow> bytes \<Rightarrow> catalog \<Rightarrow> bytes list" where
  "lease_unclaimed keys tok db =
     filter (\<lambda>k. case lease_rows db (key_schema k, k, tok) of Some (_, c) \<Rightarrow> \<not> c | None \<Rightarrow> False) keys"

section \<open>Acquire and give back\<close>

fun close_rest :: "bytes \<Rightarrow> member list \<Rightarrow> unit prog" where
  "close_rest tok [] = Ret ()"
| "close_rest tok ((s, b) # ms) =
     bind_prog (close_lease (pg_guard s) (never_announced (pg_label s b) tok)) (\<lambda>_. close_rest tok ms)"

fun give_back :: "bytes \<Rightarrow> (member \<times> announced) list \<Rightarrow> bool prog" where
  "give_back tok [] = Ret True"
| "give_back tok (((s, b), a) # held) =
     bind_prog (call_unit (Sweep_run s b tok)) (\<lambda>r.
       case r of
         Inl _ \<Rightarrow> bind_prog (give_back tok held) (\<lambda>_. Ret False)
       | Inr _ \<Rightarrow>
           bind_prog (release (pg_guard s) a) (\<lambda>r.
             case r of
               Inr proof \<Rightarrow> bind_prog (close_lease (pg_guard s) proof) (\<lambda>_. give_back tok held)
             | Inl _ \<Rightarrow> bind_prog (give_back tok held) (\<lambda>_. Ret False)))"

definition give_back_run :: "bytes \<Rightarrow> (member \<times> announced) list \<Rightarrow> unit prog" where
  "give_back_run tok held =
     bind_prog (call_unit (Close_run tok)) (\<lambda>r.
       case r of
         Inl _ \<Rightarrow> Ret ()
       | Inr _ \<Rightarrow> bind_prog (give_back tok held) (\<lambda>_. Ret ()))"

fun announce_members :: "(bytes \<Rightarrow> bytes) \<Rightarrow> run_id \<Rightarrow> (member \<times> announced) list \<Rightarrow> member list \<Rightarrow> (member \<times> announced) list result prog" where
  "announce_members md5_hex run held [] = Ret (Inr held)"
| "announce_members md5_hex run held ((s, b) # ms) =
     bind_prog (announce md5_hex (pg_guard s) b run) (\<lambda>r.
       case r of
         Inr a \<Rightarrow> announce_members md5_hex run (held @ [((s, b), a)]) ms
       | Inl e \<Rightarrow>
           bind_prog (close_rest (token run) ((s, b) # ms)) (\<lambda>_.
           bind_prog (give_back_run (token run) held) (\<lambda>_. Ret (Inl e))))"

fun check_members :: "(bytes \<Rightarrow> bytes) \<Rightarrow> u64 \<Rightarrow> run_id \<Rightarrow> member list \<Rightarrow> unit result prog" where
  "check_members md5_hex now run [] = Ret (Inr ())"
| "check_members md5_hex now run ((s, b) # ms) =
     try_prog (check_peers md5_hex (pg_guard s) b now run Keep) (\<lambda>_. check_members md5_hex now run ms)"

definition acquire :: "(bytes \<Rightarrow> bytes) \<Rightarrow> u64 \<Rightarrow> run_id \<Rightarrow> member list \<Rightarrow> (member \<times> announced) list result prog" where
  "acquire md5_hex now run ms =
     try_prog (lease_open (token run) (by_schema (map member_key ms))) (\<lambda>_.
     try_prog (announce_members md5_hex run [] ms) (\<lambda>held.
     bind_prog (check_members md5_hex now run ms) (\<lambda>r.
       case r of
         Inl e \<Rightarrow> bind_prog (give_back_run (token run) held) (\<lambda>_. Ret (Inl e))
       | Inr _ \<Rightarrow> Ret (Inr held))))"

section \<open>Units\<close>

record tenure =
  tn_run :: run_id
  tn_held :: "(member \<times> announced) list"
  tn_evicted :: bool
  tn_closing :: bool

text \<open>A unit is the locked rows and the tables it may mark.\<close>

record held_unit =
  u_keys :: "bytes list"
  u_tables :: "member list"

definition unit_row :: "bytes \<Rightarrow> bytes \<Rightarrow> bytes \<times> bytes \<times> bytes" where
  "unit_row tok k = (key_schema k, k, tok)"

text \<open>
  \<^verbatim>\<open>open_unit\<close>: every row, in the order of the keys, must exist uncollected and is locked until
  the transaction ends; a missing or collected one ends the transaction.
\<close>

definition open_unit :: "bytes list \<Rightarrow> bytes \<Rightarrow> catalog \<Rightarrow> held_unit result \<times> catalog" where
  "open_unit keys tok db =
     (if list_all (\<lambda>k. case owner_verdict (pg_lease db (unit_row tok k)) keys of Inr _ \<Rightarrow> True | Inl _ \<Rightarrow> False) (sort keys)
      then (Inr \<lparr>u_keys = sort keys, u_tables = []\<rparr>, db\<lparr>locked := map (unit_row tok) (sort keys) @ locked db\<rparr>)
      else (Inl (no_longer_holds keys), db))"

definition tenure_open :: "tenure \<Rightarrow> member list \<Rightarrow> catalog \<Rightarrow> held_unit result \<times> catalog" where
  "tenure_open t tables db =
     (let keys = map member_key tables
      in if tn_closing t then (Inl (Locked (Winding_down keys)), db)
         else if tn_evicted t then (Inl (no_longer_holds keys), db)
         else case open_unit keys (token (tn_run t)) db of
                (Inl e, db) \<Rightarrow> (Inl e, db)
              | (Inr u, db) \<Rightarrow> (Inr (u\<lparr>u_tables := tables\<rparr>), db))"

definition unlock :: "(bytes \<times> bytes \<times> bytes) list \<Rightarrow> catalog \<Rightarrow> catalog" where
  "unlock rows db = db\<lparr>locked := filter (\<lambda>r. r \<notin> set rows) (locked db)\<rparr>"

text \<open>\<^verbatim>\<open>close_unit\<close>: the renewal of every row, then the commit; the marks are not modelled.\<close>

definition close_unit :: "int \<Rightarrow> held_unit \<Rightarrow> bytes \<Rightarrow> catalog \<Rightarrow> unit result \<times> catalog" where
  "close_unit ttl u tok db =
     (let rows = map (unit_row tok) (u_keys u);
          mine = (\<lambda>row. case lease_rows db row of Some (_, c) \<Rightarrow> \<not> c | None \<Rightarrow> False)
      in if list_all mine rows
         then (Inr (), unlock rows (db\<lparr>lease_rows := (\<lambda>row. if row \<in> set rows then Some (clock db + ttl, False) else lease_rows db row)\<rparr>))
         else (Inl (no_longer_holds (u_keys u)), unlock rows db))"

definition tenure_close :: "int \<Rightarrow> tenure \<Rightarrow> held_unit \<Rightarrow> watermark list \<Rightarrow> (member \<Rightarrow> bytes) \<Rightarrow> catalog \<Rightarrow> unit result \<times> catalog" where
  "tenure_close ttl t u marks name db =
     (case find (\<lambda>m. mark_table m \<notin> set (map name (u_tables u))) marks of
        Some m \<Rightarrow> (Inl (Transfer (Unheld_mark (mark_table m))), unlock (map (unit_row (token (tn_run t))) (u_keys u)) db)
      | None \<Rightarrow> close_unit ttl u (token (tn_run t)) db)"

text \<open>
  One tick of the keeper: renew, then see whether a row of this run is gone or claimed. A
  renewal (\<open>renews\<close>) or a reading (\<open>reads\<close>) that fails is left to the next tick.
\<close>

definition keeper_tick :: "int \<Rightarrow> bool \<Rightarrow> bool \<Rightarrow> bytes list \<Rightarrow> tenure \<Rightarrow> catalog \<Rightarrow> tenure \<times> catalog" where
  "keeper_tick ttl renews reads keys t db =
     (let tok = token (tn_run t);
          db = (if renews then snd (lease_renew ttl keys tok db) else db);
          still = lease_unclaimed keys tok db
      in (t\<lparr>tn_evicted := tn_evicted t \<or> (reads \<and> list_ex (\<lambda>k. k \<notin> set still) keys)\<rparr>, db))"

text \<open>\<^verbatim>\<open>Tenure::release\<close>, after the open units ended: the way back of every member.\<close>

definition tenure_release :: "tenure \<Rightarrow> tenure \<times> unit prog" where
  "tenure_release t = (t\<lparr>tn_closing := True, tn_held := []\<rparr>, give_back_run (token (tn_run t)) (tn_held t))"

end
