(* ===== verification/Interleave.thy ===== *)
theory Interleave
  imports Tenure
begin

text \<open>
  Any number of runs over one PostgreSQL destination, call by call. A drain opens its leases,
  announces its members and checks them (\<^verbatim>\<open>lease.rs\<close>); a bulk run announces its table, checks
  it, creates its staging table and takes its announcement back (\<^verbatim>\<open>sink/postgres.rs\<close>). A call
  may be served, may fail without effect, or may take effect and be reported as failed. A run
  that dies makes no further step. Between calls the clock moves, leases are renewed and units
  are opened and closed.
\<close>

inductive answered :: "(bytes \<Rightarrow> bytes) \<Rightarrow> int \<Rightarrow> catalog \<Rightarrow> store_call \<Rightarrow> reply \<Rightarrow> catalog \<Rightarrow> bool" for md5_hex ttl where
  served: "serve md5_hex ttl db q = (rep, db') \<Longrightarrow> answered md5_hex ttl db q rep db'"
| failed: "answered md5_hex ttl db q (Failed e) db"
| lost: "serve md5_hex ttl db q = (rep, db') \<Longrightarrow> answered md5_hex ttl db q (Failed e) db'"

section \<open>Bulk runs\<close>

definition bulk_announce :: "(bytes \<Rightarrow> bytes) \<Rightarrow> run_id \<Rightarrow> member \<Rightarrow> (member \<times> announced) list result prog" where
  "bulk_announce md5_hex run m =
     try_prog (announce md5_hex (pg_guard (fst m)) (snd m) run) (\<lambda>a. Ret (Inr [(m, a)]))"

definition bulk_check :: "(bytes \<Rightarrow> bytes) \<Rightarrow> u64 \<Rightarrow> run_id \<Rightarrow> member \<Rightarrow> unit result prog" where
  "bulk_check md5_hex now run m = check_peers md5_hex (pg_guard (fst m)) (snd m) now run DeleteLeftovers"

definition staging_name :: "(bytes \<Rightarrow> bytes) \<Rightarrow> run_id \<Rightarrow> member \<Rightarrow> bytes" where
  "staging_name md5_hex run m = artifact_ident_run md5_hex (snd m) Staging PG_IDENT_MAX run"

definition create_staging :: "(bytes \<Rightarrow> bytes) \<Rightarrow> run_id \<Rightarrow> member \<Rightarrow> unit result prog" where
  "create_staging md5_hex run m = call_unit (Create_table (fst m) (staging_name md5_hex run m))"

text \<open>\<^verbatim>\<open>PgSink::release\<close>: best effort.\<close>

fun bulk_release :: "(member \<times> announced) list \<Rightarrow> unit prog" where
  "bulk_release [] = Ret ()"
| "bulk_release (((s, b), a) # held) = bind_prog (release (pg_guard s) a) (\<lambda>_. bulk_release held)"

text \<open>A load that ends renames its staging table over the destination or drops it: its name goes.\<close>

definition drop_staging :: "(bytes \<Rightarrow> bytes) \<Rightarrow> run_id \<Rightarrow> member \<Rightarrow> unit prog" where
  "drop_staging md5_hex run m = bind_prog (call_unit (Drop_object (fst m) (staging_name md5_hex run m))) (\<lambda>_. Ret ())"

section \<open>Jobs\<close>

text \<open>
  Where a run is. \<open>Working\<close> is past its check: a drain stays there until it gives its tables
  back; a bulk run goes on to create its staging table, hands its announcement over to it and
  loads.
\<close>

datatype phase =
    Opening "unit result prog"
  | Announcing "(member \<times> announced) list result prog"
  | Checking "(member \<times> announced) list" "unit result prog"
  | Working "(member \<times> announced) list"
  | Staging_up "(member \<times> announced) list" "unit result prog"
  | Handing "unit prog"
  | Loaded
  | Ending "unit prog"
  | Ended

fun next_call :: "phase \<Rightarrow> (store_call \<times> (reply \<Rightarrow> phase)) option" where
  "next_call (Opening (Call q k)) = Some (q, \<lambda>r. Opening (k r))"
| "next_call (Announcing (Call q k)) = Some (q, \<lambda>r. Announcing (k r))"
| "next_call (Checking held (Call q k)) = Some (q, \<lambda>r. Checking held (k r))"
| "next_call (Staging_up held (Call q k)) = Some (q, \<lambda>r. Staging_up held (k r))"
| "next_call (Handing (Call q k)) = Some (q, \<lambda>r. Handing (k r))"
| "next_call (Ending (Call q k)) = Some (q, \<lambda>r. Ending (k r))"
| "next_call _ = None"

record job =
  j_run :: run_id
  j_members :: "member list"
  j_phase :: phase

definition is_drain :: "run_id \<Rightarrow> bool" where
  "is_drain run \<longleftrightarrow> run_kind run = Inr LCdc"

inductive moves :: "(bytes \<Rightarrow> bytes) \<Rightarrow> run_id \<Rightarrow> member list \<Rightarrow> phase \<Rightarrow> phase \<Rightarrow> bool" for md5_hex run ms where
  open_failed: "moves md5_hex run ms (Opening (Ret (Inl e))) Ended"
| opened: "moves md5_hex run ms (Opening (Ret (Inr ()))) (Announcing (announce_members md5_hex run [] ms))"
| announce_failed: "moves md5_hex run ms (Announcing (Ret (Inl e))) Ended"
| drain_announced: "is_drain run \<Longrightarrow> moves md5_hex run ms (Announcing (Ret (Inr held))) (Checking held (check_members md5_hex now run ms))"
| bulk_announced: "\<not> is_drain run \<Longrightarrow> ms = [m] \<Longrightarrow> moves md5_hex run ms (Announcing (Ret (Inr held))) (Checking held (bulk_check md5_hex now run m))"
| drain_refused: "is_drain run \<Longrightarrow> moves md5_hex run ms (Checking held (Ret (Inl e))) (Ending (give_back_run (token run) held))"
| bulk_refused: "\<not> is_drain run \<Longrightarrow> moves md5_hex run ms (Checking held (Ret (Inl e))) (Ending (bulk_release held))"
| passed: "moves md5_hex run ms (Checking held (Ret (Inr ()))) (Working held)"
| drain_done: "is_drain run \<Longrightarrow> moves md5_hex run ms (Working held) (Ending (give_back_run (token run) held))"
| bulk_works: "\<not> is_drain run \<Longrightarrow> ms = [m] \<Longrightarrow> moves md5_hex run ms (Working held) (Staging_up held (create_staging md5_hex run m))"
| staging_failed: "moves md5_hex run ms (Staging_up held (Ret (Inl e))) (Ending (bulk_release held))"
| staging_there: "moves md5_hex run ms (Staging_up held (Ret (Inr ()))) (Handing (bulk_release held))"
| handed: "moves md5_hex run ms (Handing (Ret ())) Loaded"
| bulk_done: "ms = [m] \<Longrightarrow> moves md5_hex run ms Loaded (Ending (drop_staging md5_hex run m))"
| done_with: "moves md5_hex run ms (Ending (Ret ())) Ended"

record system =
  sys_db :: catalog
  sys_jobs :: "bytes \<Rightarrow> job option"

definition set_phase :: "bytes \<Rightarrow> job \<Rightarrow> phase \<Rightarrow> system \<Rightarrow> system" where
  "set_phase tok j p sys = sys\<lparr>sys_jobs := (sys_jobs sys)(tok \<mapsto> j\<lparr>j_phase := p\<rparr>)\<rparr>"

text \<open>No lease row carries the token of a run that starts: tokens are minted once.\<close>

definition unused_token :: "bytes \<Rightarrow> system \<Rightarrow> bool" where
  "unused_token tok sys \<longleftrightarrow> sys_jobs sys tok = None \<and>
     (\<forall>s key. lease_rows (sys_db sys) (s, key, tok) = None \<and> (s, key, tok) \<notin> set (taken (sys_db sys)))"

text \<open>The runs work on the tables \<open>T\<close>. A unit waits for rows that another transaction has locked.\<close>

inductive step :: "(bytes \<Rightarrow> bytes) \<Rightarrow> int \<Rightarrow> member set \<Rightarrow> system \<Rightarrow> system \<Rightarrow> bool" for md5_hex ttl T where
  start_drain: "token_wf (token run) \<Longrightarrow> is_drain run \<Longrightarrow> unused_token (token run) sys \<Longrightarrow> set ms \<subseteq> T \<Longrightarrow>
    step md5_hex ttl T sys (sys\<lparr>sys_jobs := (sys_jobs sys)(token run \<mapsto>
      \<lparr>j_run = run, j_members = ms, j_phase = Opening (lease_open (token run) (by_schema (map member_key ms)))\<rparr>)\<rparr>)"
| start_bulk: "token_wf (token run) \<Longrightarrow> \<not> is_drain run \<Longrightarrow> unused_token (token run) sys \<Longrightarrow> m \<in> T \<Longrightarrow>
    step md5_hex ttl T sys (sys\<lparr>sys_jobs := (sys_jobs sys)(token run \<mapsto>
      \<lparr>j_run = run, j_members = [m], j_phase = Announcing (bulk_announce md5_hex run m)\<rparr>)\<rparr>)"
| call: "sys_jobs sys tok = Some j \<Longrightarrow> next_call (j_phase j) = Some (q, k) \<Longrightarrow> answered md5_hex ttl (sys_db sys) q rep db' \<Longrightarrow>
    step md5_hex ttl T sys (set_phase tok j (k rep) (sys\<lparr>sys_db := db'\<rparr>))"
| move: "sys_jobs sys tok = Some j \<Longrightarrow> moves md5_hex (j_run j) (j_members j) (j_phase j) p \<Longrightarrow>
    step md5_hex ttl T sys (set_phase tok j p sys)"
| tick: "step md5_hex ttl T sys (sys\<lparr>sys_db := (sys_db sys)\<lparr>clock := t\<rparr>\<rparr>)"
| renewal: "step md5_hex ttl T sys (sys\<lparr>sys_db := snd (lease_renew ttl keys tok (sys_db sys))\<rparr>)"
| unit_opens: "set (map (unit_row tok) keys) \<inter> set (locked (sys_db sys)) = {} \<Longrightarrow>
    step md5_hex ttl T sys (sys\<lparr>sys_db := snd (open_unit keys tok (sys_db sys))\<rparr>)"
| unit_closes: "step md5_hex ttl T sys (sys\<lparr>sys_db := snd (close_unit ttl u tok (sys_db sys))\<rparr>)"

inductive reachable :: "(bytes \<Rightarrow> bytes) \<Rightarrow> int \<Rightarrow> member set \<Rightarrow> system \<Rightarrow> bool" for md5_hex ttl T where
  initial: "taken db = [] \<Longrightarrow> reachable md5_hex ttl T \<lparr>sys_db = db, sys_jobs = Map.empty\<rparr>"
| later: "reachable md5_hex ttl T sys \<Longrightarrow> step md5_hex ttl T sys sys' \<Longrightarrow> reachable md5_hex ttl T sys'"

text \<open>Past its check and not yet giving back.\<close>

fun working :: "phase \<Rightarrow> bool" where
  "working (Working _) = True"
| "working (Staging_up _ _) = True"
| "working (Handing _) = True"
| "working Loaded = True"
| "working _ = False"

end
