(* ===== verification/Calls.thy ===== *)
theory Calls
  imports Interleave
begin

text \<open>
  Runs that must not work beside each other do not, however their calls are interleaved,
  whichever calls fail and wherever a run dies. The argument is over programs: what a
  program may still do, against every reply, is a predicate defined by recursion on it, and
  the store promises a few laws (the locale \<open>claim_store\<close>) that the PostgreSQL catalog keeps.
\<close>

section \<open>Names\<close>

abbreviation mark :: "(bytes \<Rightarrow> bytes) \<Rightarrow> bytes \<Rightarrow> artifact \<Rightarrow> bytes \<Rightarrow> bytes" where
  "mark md5_hex b a tok \<equiv> artifact_ident_tok md5_hex b a PG_IDENT_MAX tok"

type_synonym row = "bytes \<times> bytes \<times> bytes"

definition run_row :: "member \<Rightarrow> bytes \<Rightarrow> row" where
  "run_row m tok = (fst m, member_key m, tok)"

text \<open>The head of every name tells the tables of a schema apart, as it does where no name is shortened.\<close>

definition heads_apart :: "(bytes \<Rightarrow> bytes) \<Rightarrow> member set \<Rightarrow> bool" where
  "heads_apart md5_hex T \<longleftrightarrow> (\<forall>s b b' a. (s, b) \<in> T \<and> (s, b') \<in> T \<and>
     fst (artifact_match md5_hex b a PG_IDENT_MAX) = fst (artifact_match md5_hex b' a PG_IDENT_MAX) \<longrightarrow> b = b')"

lemma heads_apart_short:
  assumes "\<forall>(s, b) \<in> T. length b \<le> 31"
  shows "heads_apart md5_hex T"
proof -
  have "fst (artifact_match md5_hex b a PG_IDENT_MAX) = b" if "(s, b) \<in> T" for s b a
    using that assms suffix_length [of a] match_short [of b a PG_IDENT_MAX md5_hex]
    by (force simp: PG_IDENT_MAX_def RUN_TOKEN_LEN_def)
  then show ?thesis unfolding heads_apart_def by metis
qed

lemma mark_cut: "mark md5_hex b a tok = fst (artifact_match md5_hex b a PG_IDENT_MAX) @ tok @ suffix a"
  by (simp add: artifact_ident_tok_def split_def match_suffix)

lemma mark_inj:
  assumes "h @ tok @ suffix a = g @ tok' @ suffix a'" "length tok = length tok'"
  shows "a = a' \<and> h = g \<and> tok = tok'"
proof -
  have "a = a'" using suffix_free [of "h @ tok" a "g @ tok'" a'] assms(1) by simp
  with assms show ?thesis by (simp add: append_assoc [symmetric] del: append_assoc)
qed

section \<open>What a program may still do\<close>

text \<open>What a run knows it has claimed, and the lease rows it has yet to open.\<close>

definition learn :: "row set \<Rightarrow> store_call \<Rightarrow> reply \<Rightarrow> row set" where
  "learn C q rep = (case q of Lease_claim s key t \<Rightarrow> if rep = Claim_reply Taken then insert (s, key, t) C else C | _ \<Rightarrow> C)"

definition spent :: "row set \<Rightarrow> store_call \<Rightarrow> row set" where
  "spent R q = (case q of Lease_open s ks t \<Rightarrow> R - {(s, k, t) |k. k \<in> set ks} | _ \<Rightarrow> R)"

definition ok_call :: "(bytes \<Rightarrow> bytes) \<Rightarrow> member set \<Rightarrow> bytes \<Rightarrow> row set \<Rightarrow> row set \<Rightarrow> store_call \<Rightarrow> bool" where
  "ok_call md5_hex T tok C R q = (case q of
     Drop_object s n \<Rightarrow> \<forall>b a tok'. (s, b) \<in> T \<and> token_wf tok' \<and> tok' \<noteq> tok \<and> n = mark md5_hex b a tok' \<longrightarrow> run_row (s, b) tok' \<in> C
   | Lease_open s ks t \<Rightarrow> \<forall>k \<in> set ks. (s, k, t) \<in> R
   | _ \<Rightarrow> True)"

text \<open>It drops the object of another run only after claiming that run's lease, and opens a row only once.\<close>

primrec lawful :: "(bytes \<Rightarrow> bytes) \<Rightarrow> member set \<Rightarrow> bytes \<Rightarrow> row set \<Rightarrow> row set \<Rightarrow> 'a prog \<Rightarrow> bool" where
  "lawful md5_hex T tok C R (Ret x) = True"
| "lawful md5_hex T tok C R (Call q k) =
     (ok_call md5_hex T tok C R q \<and> (\<forall>rep. lawful md5_hex T tok (learn C q rep) (spent R q) (k rep)))"

text \<open>It never drops an object.\<close>

primrec keeps :: "bytes \<times> bytes \<Rightarrow> 'a prog \<Rightarrow> bool" where
  "keeps obj (Ret x) = True"
| "keeps obj (Call q k) = (q \<noteq> Drop_object (fst obj) (snd obj) \<and> (\<forall>rep. keeps obj (k rep)))"

text \<open>It never lists the objects of a table.\<close>

primrec unlisted :: "member \<Rightarrow> 'a prog \<Rightarrow> bool" where
  "unlisted m (Ret x) = True"
| "unlisted m (Call q k) = ((\<forall>a. q \<noteq> List_kind (fst m) (snd m) a) \<and> (\<forall>rep. unlisted m (k rep)))"

text \<open>It does not succeed before it has taken a lease.\<close>

primrec must_claim :: "row \<Rightarrow> 'a result prog \<Rightarrow> bool" where
  "must_claim row (Ret r) = isl r"
| "must_claim row (Call q k) = (\<forall>rep. must_claim row (k rep) \<or>
     (q = Lease_claim (fst row) (fst (snd row)) (snd (snd row)) \<and> rep = Claim_reply Taken))"

definition displays :: "bytes \<Rightarrow> reply \<Rightarrow> bool" where
  "displays n rep = (case rep of Names ns \<Rightarrow> n \<in> set ns | _ \<Rightarrow> True)"

text \<open>It lists a kind of object once more before it succeeds, and a listing that shows the name makes it claim.\<close>

primrec avoids :: "store_call \<Rightarrow> bytes \<Rightarrow> row \<Rightarrow> 'a result prog \<Rightarrow> bool" where
  "avoids listing n row (Ret r) = isl r"
| "avoids listing n row (Call q k) =
     (if q = listing then \<forall>rep. displays n rep \<longrightarrow> must_claim row (k rep) else \<forall>rep. avoids listing n row (k rep))"

text \<open>It has both kinds of a table's objects still to list, the locks before the staging tables.\<close>

primrec untested :: "(bytes \<Rightarrow> bytes) \<Rightarrow> member \<Rightarrow> bytes \<Rightarrow> 'a result prog \<Rightarrow> bool" where
  "untested md5_hex m tok (Ret r) = isl r"
| "untested md5_hex m tok (Call q k) =
     (if q = List_kind (fst m) (snd m) Lock then
        \<forall>rep. (displays (mark md5_hex (snd m) Lock tok) rep \<longrightarrow> must_claim (run_row m tok) (k rep)) \<and>
          avoids (List_kind (fst m) (snd m) Staging) (mark md5_hex (snd m) Staging tok) (run_row m tok) (k rep)
      else q \<noteq> List_kind (fst m) (snd m) Staging \<and> (\<forall>rep. untested md5_hex m tok (k rep)))"

text \<open>Which objects it leaves when it returns, of those it creates.\<close>

definition made :: "(bytes \<times> bytes) set \<Rightarrow> store_call \<Rightarrow> reply \<Rightarrow> (bytes \<times> bytes) set" where
  "made K q rep = (case q of
     Create_object s n \<Rightarrow> if rep = Ok_reply then insert (s, n) K else K
   | Create_table s n \<Rightarrow> if rep = Ok_reply then insert (s, n) K else K
   | Drop_object s n \<Rightarrow> K - {(s, n)}
   | _ \<Rightarrow> K)"

primrec delivers :: "((bytes \<times> bytes) set \<Rightarrow> 'a \<Rightarrow> bool) \<Rightarrow> (bytes \<times> bytes) set \<Rightarrow> 'a prog \<Rightarrow> bool" where
  "delivers P K (Ret x) = P K x"
| "delivers P K (Call q k) = (\<forall>rep. delivers P (made K q rep) (k rep))"

section \<open>Sequences\<close>

named_theorems prog_simps "unfolding of the typed calls"

lemma bind_call [prog_simps]:
  "bind_prog (call_unit q) f = Call q (\<lambda>r. f (case r of Ok_reply \<Rightarrow> Inr () | _ \<Rightarrow> Inl (failure r)))"
  "bind_prog (call_names q) h = Call q (\<lambda>r. h (case r of Names ns \<Rightarrow> Inr ns | _ \<Rightarrow> Inl (failure r)))"
  "bind_prog (call_lease q) l = Call q (\<lambda>r. l (case r of Lease_reply x \<Rightarrow> Inr x | _ \<Rightarrow> Inl (failure r)))"
  "bind_prog (call_claim q) c = Call q (\<lambda>r. c (case r of Claim_reply x \<Rightarrow> Inr x | _ \<Rightarrow> Inl (failure r)))"
  by (simp_all add: call_unit_def call_names_def call_lease_def call_claim_def)

lemma bind_prog_assoc: "bind_prog (bind_prog p f) g = bind_prog p (\<lambda>x. bind_prog (f x) g)"
  by (induction p) auto

lemma lawful_more: "lawful md5_hex T tok C R p \<Longrightarrow> C \<subseteq> C' \<Longrightarrow> R \<subseteq> R' \<Longrightarrow> lawful md5_hex T tok C' R' p"
proof (induction p arbitrary: C C' R R')
  case (Call q k)
  have "ok_call md5_hex T tok C' R' q" using Call.prems by (auto simp: ok_call_def split: store_call.splits)
  moreover have "learn C q rep \<subseteq> learn C' q rep" "spent R q \<subseteq> spent R' q" for rep
    using Call.prems by (auto simp: learn_def spent_def split: store_call.splits)
  ultimately show ?case using Call.IH [OF rangeI] Call.prems by (simp add: Call.prems) blast
qed simp

lemma learn_more: "C \<subseteq> learn C q rep"
  by (auto simp: learn_def split: store_call.splits)

lemma spent_empty [simp]: "spent {} q = {}"
  by (auto simp: spent_def split: store_call.splits)

lemma lawful_bind:
  assumes "lawful md5_hex T tok C {} p" "\<And>x C'. C \<subseteq> C' \<Longrightarrow> lawful md5_hex T tok C' {} (f x)"
  shows "lawful md5_hex T tok C {} (bind_prog p f)"
  using assms
proof (induction p arbitrary: C)
  case (Call q k)
  have "lawful md5_hex T tok (learn C q rep) {} (bind_prog (k rep) f)" for rep
    using Call.IH [of "k rep" "learn C q rep"] Call.prems learn_more [of C q rep] by (simp add: rangeI)
  with Call.prems show ?case by simp
qed simp

lemma lawful_try:
  assumes "lawful md5_hex T tok C {} p" "\<And>x C'. C \<subseteq> C' \<Longrightarrow> lawful md5_hex T tok C' {} (f x)"
  shows "lawful md5_hex T tok C {} (try_prog p f)"
  unfolding try_prog_def by (rule lawful_bind) (use assms in \<open>auto split: sum.split\<close>)

lemma lawful_bind_if:
  assumes "lawful md5_hex T tok C {} p" "delivers (\<lambda>_. P) K p" "\<And>x C'. P x \<Longrightarrow> C \<subseteq> C' \<Longrightarrow> lawful md5_hex T tok C' {} (f x)"
  shows "lawful md5_hex T tok C {} (bind_prog p f)"
  using assms
proof (induction p arbitrary: C K)
  case (Call q k)
  have "lawful md5_hex T tok (learn C q rep) {} (bind_prog (k rep) f)" for rep
    using Call.IH [of "k rep" "learn C q rep" "made K q rep"] Call.prems learn_more [of C q rep] by (simp add: rangeI)
  with Call.prems show ?case by simp
qed simp

lemma keeps_bind: "keeps obj p \<Longrightarrow> (\<And>x. keeps obj (f x)) \<Longrightarrow> keeps obj (bind_prog p f)"
  by (induction p) auto

lemma keeps_try: "keeps obj p \<Longrightarrow> (\<And>x. keeps obj (f x)) \<Longrightarrow> keeps obj (try_prog p f)"
  unfolding try_prog_def by (rule keeps_bind) (auto split: sum.split)

lemma unlisted_bind: "unlisted m p \<Longrightarrow> (\<And>x. unlisted m (f x)) \<Longrightarrow> unlisted m (bind_prog p f)"
  by (induction p) auto

lemma unlisted_try: "unlisted m p \<Longrightarrow> (\<And>x. unlisted m (f x)) \<Longrightarrow> unlisted m (try_prog p f)"
  unfolding try_prog_def by (rule unlisted_bind) (auto split: sum.split)

lemma must_claim_first: "must_claim row p \<Longrightarrow> must_claim row (try_prog p f)"
  unfolding try_prog_def by (induction p) (auto split: sum.split)

lemma must_claim_then: "(\<And>x. must_claim row (f x)) \<Longrightarrow> must_claim row (try_prog p f)"
  unfolding try_prog_def by (induction p) (auto split: sum.split)

lemma untested_then:
  "unlisted m p \<Longrightarrow> (\<And>x. untested md5_hex m tok (f x)) \<Longrightarrow> untested md5_hex m tok (try_prog p f)"
  unfolding try_prog_def by (induction p) (auto split: sum.split)

lemma delivers_bind: "delivers (\<lambda>K x. delivers P K (f x)) K p \<Longrightarrow> delivers P K (bind_prog p f)"
  by (induction p arbitrary: K) auto

lemma delivers_always: "(\<And>K x. P K x) \<Longrightarrow> delivers P K p"
  by (induction p arbitrary: K) auto

lemma delivers_mono: "delivers P K p \<Longrightarrow> (\<And>K x. P K x \<Longrightarrow> Q K x) \<Longrightarrow> delivers Q K p"
  by (induction p arbitrary: K) auto

section \<open>What the guard's programs do\<close>

lemma ok_call_more: "ok_call md5_hex T tok C R q \<Longrightarrow> C \<subseteq> C' \<Longrightarrow> R \<subseteq> R' \<Longrightarrow> ok_call md5_hex T tok C' R' q"
  by (auto simp: ok_call_def split: store_call.splits)

lemma call_props [simp]:
  "lawful md5_hex T tok C R (call_unit q) \<longleftrightarrow> ok_call md5_hex T tok C R q"
  "keeps obj (call_unit q) \<longleftrightarrow> q \<noteq> Drop_object (fst obj) (snd obj)"
  "unlisted m (call_unit q) \<longleftrightarrow> (\<forall>a. q \<noteq> List_kind (fst m) (snd m) a)"
  by (simp_all add: call_unit_def)

lemma learn_other [simp]: "(\<And>s k t. q \<noteq> Lease_claim s k t) \<Longrightarrow> learn C q rep = C"
  by (cases q) (auto simp: learn_def)

lemma pg_guard_fields [simp]:
  "gs_schema (pg_guard s) = s" "gs_limit (pg_guard s) = PG_IDENT_MAX" "gs_label (pg_guard s) = pg_label s"
  "gs_kinds (pg_guard s) = GUARDED" "gs_spelling (pg_guard s) a = a"
  by (simp_all add: pg_guard_def)

text \<open>A name that carries a token.\<close>

definition carries_token :: "bytes \<Rightarrow> bytes \<Rightarrow> bool" where
  "carries_token tok n \<longleftrightarrow> (\<exists>h a. n = h @ tok @ suffix a)"

lemma ident_run_carries: "carries_token (token run) (artifact_ident_run md5_hex b a limit run)"
  by (auto simp: carries_token_def artifact_ident_run_def artifact_ident_tok_def split_def match_suffix)

lemma ok_drop_own:
  assumes "token_wf tok" "carries_token tok n"
  shows "ok_call md5_hex T tok C R (Drop_object s n)"
proof -
  have "tok' = tok" if t: "token_wf tok'" "n = mark md5_hex b a tok'" for b a tok'
  proof -
    obtain h a' where n: "n = h @ tok @ suffix a'" using assms(2) by (auto simp: carries_token_def)
    have "length tok = length tok'" using assms(1) t(1) by (simp add: token_wf_def)
    then show ?thesis using mark_inj [OF n [unfolded t(2) mark_cut, symmetric]] by metis
  qed
  then show ?thesis by (auto simp: ok_call_def)
qed

lemma lawful_drop_each:
  "(\<And>n. n \<in> set ns \<Longrightarrow> ok_call md5_hex T tok C {} (Drop_object s n)) \<Longrightarrow> lawful md5_hex T tok C {} (drop_each s ns)"
proof (induction ns)
  case (Cons n ns)
  show ?case unfolding drop_each.simps
  proof (rule lawful_bind)
    fix x C' assume "C \<subseteq> C'"
    then have "lawful md5_hex T tok C' {} (drop_each s ns)" using Cons lawful_more by fastforce
    then show "lawful md5_hex T tok C' {} (bind_prog (drop_each s ns)
        (\<lambda>failed. Ret (case x of Inl _ \<Rightarrow> n # failed | Inr _ \<Rightarrow> failed)))" by (rule lawful_bind) simp
  qed (simp add: Cons.prems)
qed simp

lemma keeps_drop_each: "fst obj \<noteq> s \<or> snd obj \<notin> set ns \<Longrightarrow> keeps obj (drop_each s ns)"
  by (induction ns) (auto intro!: keeps_bind)

lemma unlisted_drop_each: "unlisted m (drop_each s ns)"
  by (induction ns) (auto intro!: unlisted_bind)

lemma lawful_drop_all:
  "(\<And>n. n \<in> set ns \<Longrightarrow> ok_call md5_hex T tok C {} (Drop_object s n)) \<Longrightarrow> lawful md5_hex T tok C {} (drop_all s ns)"
proof (induction ns arbitrary: C)
  case (Cons n ns)
  show ?case unfolding drop_all.simps
  proof (rule lawful_try)
    fix C' assume "C \<subseteq> C'"
    then show "lawful md5_hex T tok C' {} (drop_all s ns)" using Cons by (meson list.set_intros(2) ok_call_more order_refl)
  qed (simp add: Cons.prems)
qed simp

lemma keeps_drop_all: "fst obj \<noteq> s \<or> snd obj \<notin> set ns \<Longrightarrow> keeps obj (drop_all s ns)"
  by (induction ns) (auto intro!: keeps_try)

lemma unlisted_drop_all: "unlisted m (drop_all s ns)"
  by (induction ns) (auto intro!: unlisted_try)

subsection \<open>Announce\<close>

lemma lawful_announce_loop:
  assumes "token_wf (token run)"
  shows "\<forall>n \<in> set names. carries_token (token run) n \<Longrightarrow> lawful md5_hex T (token run) C {} (announce_loop md5_hex g b run names as)"
proof (induction as arbitrary: names C)
  case (Cons a as)
  have "lawful md5_hex T (token run) C' {} (announce_loop md5_hex g b run (names @ [artifact_ident_run md5_hex b (gs_spelling g a) (gs_limit g) run]) as)" for C'
    using Cons ident_run_carries by simp
  moreover have "lawful md5_hex T (token run) C' {} (drop_each (gs_schema g) names)" for C'
    using Cons.prems ok_drop_own [OF assms] by (intro lawful_drop_each) blast
  ultimately show ?case
    by (auto simp: Let_def ok_call_def intro!: lawful_bind split: sum.split)
qed simp

lemma lawful_announce: "token_wf (token run) \<Longrightarrow> lawful md5_hex T (token run) C {} (announce md5_hex g b run)"
  by (auto simp: announce_def intro!: lawful_try lawful_announce_loop split: sum.split)

text \<open>An announcement that returns has created every marker, and keeps what was there.\<close>

definition announced_by :: "(bytes \<times> bytes) set \<Rightarrow> bytes \<Rightarrow> bytes list \<Rightarrow> (bytes \<times> bytes) set \<Rightarrow> bytes list result \<Rightarrow> bool" where
  "announced_by K0 s ns K r = (case r of Inl _ \<Rightarrow> True | Inr ns' \<Rightarrow> ns' = ns \<and> (\<forall>n \<in> set ns. (s, n) \<in> K) \<and> K0 \<subseteq> K)"

lemma delivers_announce_loop:
  assumes "\<forall>n \<in> set names. (s, n) \<in> K" "K0 \<subseteq> K"
  shows "delivers (announced_by K0 s (names @ map (\<lambda>a. mark md5_hex b a (token run)) as)) K
    (announce_loop md5_hex (pg_guard s) b run names as)"
  using assms
proof (induction as arbitrary: names K)
  case (Cons a as)
  let ?n = "mark md5_hex b a (token run)"
  have n: "artifact_ident_run md5_hex b (gs_spelling (pg_guard s) a) (gs_limit (pg_guard s)) run = ?n"
    by (simp add: artifact_ident_run_def)
  have fail: "delivers (announced_by K0 s ns) K' (bind_prog p (\<lambda>_. Ret (Inl e)))" for ns K' e and p :: "bytes list prog"
    by (rule delivers_bind, rule delivers_always) (simp add: announced_by_def)
  have "delivers (announced_by K0 s (names @ map (\<lambda>a. mark md5_hex b a (token run)) (a # as))) (insert (s, ?n) K)
      (announce_loop md5_hex (pg_guard s) b run (names @ [?n]) as)"
    using Cons.IH [of "names @ [?n]" "insert (s, ?n) K"] Cons.prems by auto
  with fail show ?case
    unfolding announce_loop.simps Let_def n by (auto simp: prog_simps made_def split: reply.splits)
qed (simp add: announced_by_def)

definition lock_there :: "(bytes \<Rightarrow> bytes) \<Rightarrow> bytes \<Rightarrow> member \<Rightarrow> (bytes \<times> bytes) set \<Rightarrow> bool" where
  "lock_there md5_hex tok m K \<longleftrightarrow> (fst m, mark md5_hex (snd m) Lock tok) \<in> K"

lemma delivers_announce:
  assumes "K0 \<subseteq> K"
  shows "delivers (\<lambda>K r. case r of Inl _ \<Rightarrow> True | Inr a \<Rightarrow> K0 \<subseteq> K \<and> lock_there md5_hex (token run) (s, b) K \<and>
      (\<forall>k. run_kind run = Inr k \<longrightarrow> an_names a = map (\<lambda>a. mark md5_hex b a (token run)) (markers k))) K
    (announce md5_hex (pg_guard s) b run)"
proof (cases "run_kind run")
  case (Inl e)
  then show ?thesis by (simp add: announce_def)
next
  case (Inr k)
  have "Lock \<in> set (markers k)" by (simp add: markers_def split: land_kind.split)
  then show ?thesis
    unfolding announce_def Inr sum.case try_prog_def
    by (intro delivers_bind delivers_mono [OF delivers_announce_loop [of "[]" s K K0 md5_hex b run "markers k"]])
      (use assms in \<open>auto simp: announced_by_def lock_there_def split: sum.splits\<close>)
qed

lemma lawful_release: "token_wf tok \<Longrightarrow> \<forall>n \<in> set (an_names a). carries_token tok n \<Longrightarrow> lawful md5_hex T tok C {} (release g a)"
  unfolding release_def by (rule lawful_bind) (auto intro!: lawful_drop_each ok_drop_own)

lemma ident_tok_carries: "carries_token tok (artifact_ident_tok md5_hex b a limit tok)"
  by (auto simp: carries_token_def artifact_ident_tok_def split_def match_suffix)

text \<open>An announcement of this run names only its own objects.\<close>

definition own_held :: "bytes \<Rightarrow> (member \<times> announced) list \<Rightarrow> bool" where
  "own_held tok held \<longleftrightarrow> (\<forall>(m, a) \<in> set held. \<forall>n \<in> set (an_names a). carries_token tok n)"

lemma lawful_close_lease: "lawful md5_hex T tok C {} (close_lease g pf)"
  by (auto simp: close_lease_def ok_call_def intro!: lawful_bind)

lemma lawful_close_rest: "lawful md5_hex T tok C {} (close_rest t ms)"
  by (induction t ms arbitrary: C rule: close_rest.induct) (auto intro!: lawful_bind lawful_close_lease)

lemma lawful_give_back:
  assumes "token_wf tok"
  shows "own_held tok held \<Longrightarrow> lawful md5_hex T tok C {} (give_back tok held)"
proof (induction held arbitrary: C)
  case (Cons x held)
  obtain s b a where x: "x = ((s, b), a)" by (cases x) auto
  with Cons.prems have own: "\<forall>n \<in> set (an_names a). carries_token tok n" "own_held tok held" by (simp_all add: own_held_def)
  show ?case unfolding x give_back.simps
    by (auto simp: ok_call_def own assms intro!: lawful_bind lawful_release lawful_close_lease Cons.IH split: sum.split)
qed simp

lemma lawful_give_back_run: "token_wf tok \<Longrightarrow> own_held tok held \<Longrightarrow> lawful md5_hex T tok C {} (give_back_run tok held)"
  by (auto simp: give_back_run_def ok_call_def intro!: lawful_bind lawful_give_back split: sum.split)

lemma lawful_bulk_release: "token_wf tok \<Longrightarrow> own_held tok held \<Longrightarrow> lawful md5_hex T tok C {} (bulk_release held)"
  by (induction held arbitrary: C rule: bulk_release.induct) (auto simp: own_held_def intro!: lawful_bind lawful_release)

text \<open>What a finished announcement of every member has.\<close>

definition all_locked :: "(bytes \<Rightarrow> bytes) \<Rightarrow> bytes \<Rightarrow> member set \<Rightarrow> (bytes \<times> bytes) set \<Rightarrow> (member \<times> announced) list result \<Rightarrow> bool" where
  "all_locked md5_hex tok M K r = (case r of Inl _ \<Rightarrow> True | Inr held \<Rightarrow>
     own_held tok held \<and> (\<forall>m \<in> M. lock_there md5_hex tok m K))"

lemma lock_there_mono: "lock_there md5_hex tok m K \<Longrightarrow> K \<subseteq> K' \<Longrightarrow> lock_there md5_hex tok m K'"
  by (auto simp: lock_there_def)

lemma delivers_announce_members:
  assumes "run_kind run = Inr k"
  shows "own_held (token run) held \<Longrightarrow> \<forall>m \<in> M. lock_there md5_hex (token run) m K \<Longrightarrow>
    delivers (all_locked md5_hex (token run) (M \<union> set ms)) K (announce_members md5_hex run held ms)"
proof (induction ms arbitrary: held M K)
  case (Cons m ms)
  obtain s b where m: "m = (s, b)" by (cases m)
  show ?case unfolding m announce_members.simps
  proof (rule delivers_bind, rule delivers_mono [OF delivers_announce [OF order_refl]])
    fix K' and r :: "announced result"
    assume r: "case r of Inl _ \<Rightarrow> True | Inr a \<Rightarrow> K \<subseteq> K' \<and> lock_there md5_hex (token run) (s, b) K' \<and>
      (\<forall>k. run_kind run = Inr k \<longrightarrow> an_names a = map (\<lambda>a. mark md5_hex b a (token run)) (markers k))"
    show "delivers (all_locked md5_hex (token run) (M \<union> set ((s, b) # ms))) K' (case r of
        Inl e \<Rightarrow> bind_prog (close_rest (token run) ((s, b) # ms)) (\<lambda>_. bind_prog (give_back_run (token run) held) (\<lambda>_. Ret (Inl e)))
      | Inr a \<Rightarrow> announce_members md5_hex run (held @ [((s, b), a)]) ms)"
    proof (cases r)
      case (Inl e)
      show ?thesis unfolding Inl sum.case
        by (rule delivers_bind, rule delivers_always, rule delivers_bind, rule delivers_always) (simp add: all_locked_def)
    next
      case (Inr a)
      with r assms have a: "K \<subseteq> K'" "lock_there md5_hex (token run) (s, b) K'"
        "an_names a = map (\<lambda>a. mark md5_hex b a (token run)) (markers k)" by simp_all
      have "own_held (token run) (held @ [((s, b), a)])"
        using Cons.prems(1) a(3) ident_tok_carries by (auto simp: own_held_def)
      moreover have "\<forall>m \<in> insert (s, b) M. lock_there md5_hex (token run) m K'"
        using Cons.prems(2) a(1,2) lock_there_mono by blast
      ultimately show ?thesis using Cons.IH [of "held @ [((s, b), a)]" "insert (s, b) M" K'] Inr by simp
    qed
  qed
qed (simp add: all_locked_def)

lemma lawful_announce_members:
  assumes "token_wf (token run)" "run_kind run = Inr k"
  shows "own_held (token run) held \<Longrightarrow> lawful md5_hex T (token run) C {} (announce_members md5_hex run held ms)"
proof (induction ms arbitrary: held C)
  case (Cons m ms)
  obtain s b where m: "m = (s, b)" by (cases m)
  have fail: "lawful md5_hex T (token run) C' {} (bind_prog (close_rest (token run) ((s, b) # ms))
      (\<lambda>_. bind_prog (give_back_run (token run) held) (\<lambda>_. Ret (Inl e))))" for C' and e :: error
    by (intro lawful_bind lawful_close_rest lawful_give_back_run assms Cons.prems) simp
  define P :: "announced result \<Rightarrow> bool" where
    "P r \<longleftrightarrow> (case r of Inl _ \<Rightarrow> True | Inr a \<Rightarrow> \<forall>n \<in> set (an_names a). carries_token (token run) n)" for r
  have "delivers (\<lambda>_. P) {} (announce md5_hex (pg_guard s) b run)"
    by (rule delivers_mono [OF delivers_announce [OF order_refl]])
      (use assms(2) ident_tok_carries in \<open>auto simp: P_def split: sum.splits\<close>)
  then show ?case unfolding m announce_members.simps
  proof (rule lawful_bind_if [OF lawful_announce [OF assms(1)]])
    fix r and C' assume "P r"
    then show "lawful md5_hex T (token run) C' {} (case r of
        Inl e \<Rightarrow> bind_prog (close_rest (token run) ((s, b) # ms)) (\<lambda>_. bind_prog (give_back_run (token run) held) (\<lambda>_. Ret (Inl e)))
      | Inr a \<Rightarrow> announce_members md5_hex run (held @ [((s, b), a)]) ms)"
      using fail Cons.prems by (auto simp: P_def own_held_def intro!: Cons.IH split: sum.split)
  qed
qed simp

lemma bulk_announce_props:
  assumes "token_wf (token run)" "run_kind run = Inr k" "k \<noteq> LCdc"
  shows "lawful md5_hex T (token run) C {} (bulk_announce md5_hex run m)"
    and "delivers (\<lambda>K r. all_locked md5_hex (token run) {m} K r \<and>
        (\<forall>held. r = Inr held \<longrightarrow> (\<forall>(m', a) \<in> set held. set (an_names a) \<subseteq> {mark md5_hex (snd m) Lock (token run)}))) K
      (bulk_announce md5_hex run m)"
proof -
  show "lawful md5_hex T (token run) C {} (bulk_announce md5_hex run m)"
    by (auto simp: bulk_announce_def intro!: lawful_try lawful_announce assms(1))
  have lock: "markers k = [Lock]" using assms(3) by (cases k) (simp_all add: markers_def)
  show "delivers (\<lambda>K r. all_locked md5_hex (token run) {m} K r \<and>
        (\<forall>held. r = Inr held \<longrightarrow> (\<forall>(m', a) \<in> set held. set (an_names a) \<subseteq> {mark md5_hex (snd m) Lock (token run)}))) K
      (bulk_announce md5_hex run m)"
    unfolding bulk_announce_def try_prog_def
    by (rule delivers_bind, rule delivers_mono [OF delivers_announce [OF order_refl]])
      (use assms(2) lock ident_tok_carries in \<open>auto simp: all_locked_def own_held_def split: sum.splits\<close>)
qed

end
