(* ===== verification/Rivals.thy ===== *)
theory Rivals
  imports Calls
begin

text \<open>
  What the check of a table does about another run: a listing that shows the mark of a rival
  makes it claim the rival's lease or refuse, and it drops only what it has claimed or what
  an earlier attempt of its own left.
\<close>

section \<open>The scan\<close>

definition spotted :: "(bytes \<Rightarrow> bytes) \<Rightarrow> bytes \<Rightarrow> run_id \<Rightarrow> bytes \<Rightarrow> artifact \<Rightarrow> blocker list" where
  "spotted md5_hex b run n a =
     (case classify md5_hex n b a PG_IDENT_MAX run of
        Legacy \<Rightarrow> [Legacy_object n]
      | Live p \<Rightarrow> if peer_blocks (peer_of (token run)) p then [Live_peer n a p (peer_of (token run))] else []
      | _ \<Rightarrow> [])"

definition left_over :: "(bytes \<Rightarrow> bytes) \<Rightarrow> bytes \<Rightarrow> run_id \<Rightarrow> bytes \<Rightarrow> artifact \<Rightarrow> bytes list" where
  "left_over md5_hex b run n a =
     (if classify md5_hex n b a PG_IDENT_MAX run = Mine \<and> a \<noteq> Lock \<and>
         (case parse_peer n a of Some p \<Rightarrow> is_self run (peer_token p) | None \<Rightarrow> False) then [n] else [])"

definition scan_of :: "(bytes \<Rightarrow> bytes) \<Rightarrow> bytes \<Rightarrow> run_id \<Rightarrow> bytes list \<Rightarrow> scan" where
  "scan_of md5_hex b run ns =
     \<lparr>blockers_of = concat (map (\<lambda>n. concat (map (spotted md5_hex b run n) GUARDED)) ns),
      mine_leftovers = concat (map (\<lambda>n. concat (map (left_over md5_hex b run n) GUARDED)) ns)\<rparr>"

lemma scan_name_appends:
  "scan_name md5_hex b PG_IDENT_MAX run (n, n) (a, peer_of (token run)) out =
    out\<lparr>blockers_of := blockers_of out @ spotted md5_hex b run n a, mine_leftovers := mine_leftovers out @ left_over md5_hex b run n a\<rparr>"
  by (auto simp: scan_name_def spotted_def left_over_def lock_blocks_def split: found.split)

lemma scan_kinds_append:
  "fold (scan_name md5_hex b PG_IDENT_MAX run (n, n)) (map (\<lambda>a. (a, peer_of (token run))) kinds) out =
    out\<lparr>blockers_of := blockers_of out @ concat (map (spotted md5_hex b run n) kinds),
       mine_leftovers := mine_leftovers out @ concat (map (left_over md5_hex b run n) kinds)\<rparr>"
  by (induction kinds arbitrary: out) (simp_all add: scan_name_appends)

lemma scan_listed_append:
  "fold (\<lambda>l. fold (scan_name md5_hex b PG_IDENT_MAX run l) (map (\<lambda>a. (a, peer_of (token run))) GUARDED)) (map (\<lambda>n. (n, n)) ns) out =
    out\<lparr>blockers_of := blockers_of out @ blockers_of (scan_of md5_hex b run ns),
       mine_leftovers := mine_leftovers out @ mine_leftovers (scan_of md5_hex b run ns)\<rparr>"
  by (induction ns arbitrary: out) (simp_all add: scan_kinds_append scan_of_def)

lemma blockers_scan:
  assumes "token_wf (token run)"
  shows "blockers md5_hex b PG_IDENT_MAX run GUARDED (map (\<lambda>n. (n, n)) ns) = Inr (scan_of md5_hex b run ns)"
proof -
  have "parse_peer (artifact_ident_run md5_hex b a PG_IDENT_MAX run) a = Some (peer_of (token run))" for a
    unfolding artifact_ident_run_def mark_cut by (rule parse_peer_token [OF assms])
  then have "collect_results (\<lambda>a. and_then (ok_or Panic (parse_peer (artifact_ident_run md5_hex b a PG_IDENT_MAX run) a)) (\<lambda>p. Inr (a, p))) GUARDED =
      Inr (map (\<lambda>a. (a, peer_of (token run))) GUARDED)" by (intro collect_results_map) simp
  then show ?thesis unfolding blockers_def by (simp add: scan_listed_append)
qed

lemma classify_Live:
  assumes "classify md5_hex n b a PG_IDENT_MAX run = Live p"
  shows "n = mark md5_hex b a (peer_token p) \<and> length (peer_token p) = RUN_TOKEN_LEN \<and> peer_token p \<noteq> token run"
proof -
  let ?h = "fst (artifact_match md5_hex b a PG_IDENT_MAX)"
  from assms have c: "parse_peer n a = Some p" "length n = length ?h + RUN_TOKEN_LEN + length (suffix a)"
      "starts_with n ?h" "peer_token p \<noteq> token run"
    by (auto simp: classify_def Let_def split_def match_suffix is_self_def split: if_splits option.splits)
  from parse_peer_Some [OF c(1)] obtain h where h: "n = h @ peer_token p @ suffix a" "length (peer_token p) = RUN_TOKEN_LEN" by auto
  from c(3) obtain r where "n = ?h @ r" by (auto simp: starts_with_def strip_prefix_Some)
  moreover have "length h = length ?h" using c(2) h by simp
  ultimately have "h = ?h" using h(1) by (metis append_eq_append_conv)
  with h c(4) show ?thesis by (simp add: mark_cut)
qed

text \<open>A collectable blocker is a mark of the run it names, and of no run that is checking.\<close>

lemma collectable_blocker:
  assumes "x \<in> set (blockers_of (scan_of md5_hex b run ns))" "collectable x = Some t"
  shows "\<exists>a. blocker_name x = mark md5_hex b a t \<and> length t = RUN_TOKEN_LEN \<and> t \<noteq> token run"
proof -
  from assms(1) obtain n a where "x \<in> set (spotted md5_hex b run n a)" by (auto simp: scan_of_def)
  with assms(2) obtain p where "classify md5_hex n b a PG_IDENT_MAX run = Live p" "blocker_name x = n" "peer_token p = t"
    by (auto simp: spotted_def split: found.splits if_splits)
  with classify_Live [OF this(1)] show ?thesis by auto
qed

lemma leftover_own:
  assumes "n \<in> set (mine_leftovers (scan_of md5_hex b run ns))"
  shows "\<exists>h a. n = h @ token run @ suffix a \<and> a \<noteq> Lock"
proof -
  from assms obtain a where "n \<in> set (left_over md5_hex b run n a)" by (auto simp: scan_of_def left_over_def split: if_splits)
  then obtain p where p: "parse_peer n a = Some p" "token run = peer_token p" "a \<noteq> Lock"
    by (auto simp: left_over_def is_self_def split: if_splits option.splits)
  with parse_peer_Some [OF p(1)] show ?thesis by auto
qed

text \<open>A rival whose mark was listed.\<close>

definition rival :: "run_id \<Rightarrow> bytes \<Rightarrow> bool" where
  "rival run tok \<longleftrightarrow> token_wf tok \<and> tok \<noteq> token run \<and> parent run \<noteq> Some tok \<and> peer_blocks (peer_of (token run)) (peer_of tok)"

lemma rival_spotted:
  assumes "rival run tok" "mark md5_hex b a tok \<in> set ns" "a \<in> set GUARDED"
  shows "\<exists>x \<in> set (blockers_of (scan_of md5_hex b run ns)). collectable x = None \<or> collectable x = Some tok"
proof -
  have "classify md5_hex (mark md5_hex b a tok) b a PG_IDENT_MAX run \<in> {Legacy, Live (peer_of tok)}"
    using assms(1) classify_own_table [of tok md5_hex b a PG_IDENT_MAX run] by (auto simp: rival_def)
  then obtain x where "x \<in> set (spotted md5_hex b run (mark md5_hex b a tok) a)" "collectable x = None \<or> collectable x = Some tok"
    using assms(1) by (auto simp: spotted_def rival_def)
  with assms(2,3) show ?thesis by (auto simp: scan_of_def)
qed

section \<open>Claims\<close>

lemma must_claim_token: "must_claim (gs_schema g, gs_label g b, tok) (collect_token g b now (tok, bs))"
  by (auto simp: collect_token_def try_prog_def prog_simps Let_def split: reply.splits option.splits claim.splits list.splits)

lemma must_claim_all: "(tok, bs) \<in> set tbs \<Longrightarrow> must_claim (gs_schema g, gs_label g b, tok) (collect_all g b now tbs)"
  by (induction tbs) (auto intro: must_claim_first must_claim_then must_claim_token)

lemma must_claim_decide:
  assumes "x \<in> set (blockers_of sc)" "collectable x = None \<or> collectable x = Some tok"
  shows "must_claim (gs_schema g, gs_label g b, tok) (decide g b now policy sc)"
proof (cases "find (\<lambda>x. collectable x = None) (blockers_of sc)")
  case None
  with assms have "collectable x = Some tok" by (auto simp: find_None_iff)
  with assms(1) have "tok \<in> set (List.map_filter collectable (blockers_of sc))" by (force simp: map_filter_def)
  then have "(tok, filter (\<lambda>x. collectable x = Some tok) (blockers_of sc)) \<in> set (by_token (blockers_of sc))"
    by (simp add: by_token_def)
  with None show ?thesis by (auto simp: decide_def intro: must_claim_first must_claim_all)
qed (simp add: decide_def)

lemma run_row_pair: "run_row (s, b) tok = (gs_schema (pg_guard s), gs_label (pg_guard s) b, tok)"
  by (simp add: run_row_def member_key_def)

text \<open>The two listings of a check, and the decision on what they show.\<close>

lemma check_calls:
  assumes "token_wf (token run)"
  shows "check_peers md5_hex (pg_guard s) b now run policy =
    Call (List_kind s b Lock) (\<lambda>r. case r of
      Names ns \<Rightarrow> Call (List_kind s b Staging) (\<lambda>r'. case r' of
        Names ns' \<Rightarrow> decide (pg_guard s) b now policy (scan_of md5_hex b run (ns @ ns'))
      | _ \<Rightarrow> Ret (Inl (failure r')))
    | _ \<Rightarrow> Ret (Inl (failure r)))"
proof -
  have "list_objects (pg_guard s) b GUARDED =
    Call (List_kind s b Lock) (\<lambda>r. case r of
      Names ns \<Rightarrow> Call (List_kind s b Staging) (\<lambda>r'. case r' of
        Names ns' \<Rightarrow> Ret (Inr (map (\<lambda>n. (n, n)) (ns @ ns')))
      | _ \<Rightarrow> Ret (Inl (failure r')))
    | _ \<Rightarrow> Ret (Inl (failure r)))"
    by (simp add: GUARDED_def try_prog_def prog_simps) (rule ext, auto split: reply.split)
  then show ?thesis
    by (simp add: check_peers_def try_prog_def) (rule ext, auto simp: blockers_scan [OF assms] simp del: map_append split: reply.split)
qed

lemma listing_claims:
  assumes "rival run tok" "mark md5_hex b a tok \<in> set ns" "a \<in> set GUARDED"
  shows "must_claim (run_row (s, b) tok) (decide (pg_guard s) b now policy (scan_of md5_hex b run ns))"
  using rival_spotted [OF assms] must_claim_decide unfolding run_row_pair by blast

lemma untested_check:
  assumes "token_wf (token run)" "rival run tok"
  shows "untested md5_hex (s, b) tok (check_peers md5_hex (pg_guard s) b now run policy)"
proof -
  have k: "Lock \<in> set GUARDED" "Staging \<in> set GUARDED" by (simp_all add: GUARDED_def)
  show ?thesis
    unfolding check_calls [OF assms(1)]
    using listing_claims [OF assms(2) _ k(1), of md5_hex b _ s now policy] listing_claims [OF assms(2) _ k(2), of md5_hex b _ s now policy]
    by (simp add: displays_def split: reply.split)
qed

section \<open>Drops\<close>

lemma mark_eq:
  assumes "mark md5_hex b a t = mark md5_hex b' a' t'" "length t = length t'"
  shows "a = a' \<and> fst (artifact_match md5_hex b a PG_IDENT_MAX) = fst (artifact_match md5_hex b' a' PG_IDENT_MAX) \<and> t = t'"
  by (rule mark_inj [OF assms(1) [unfolded mark_cut] assms(2)])

lemma ok_drop_claimed:
  assumes "heads_apart md5_hex T" "(s, b) \<in> T" "n = mark md5_hex b a t" "length t = RUN_TOKEN_LEN" "run_row (s, b) t \<in> C"
  shows "ok_call md5_hex T tok C R (Drop_object s n)"
proof -
  have "run_row (s, b') tok' \<in> C" if "(s, b') \<in> T" "token_wf tok'" "n = mark md5_hex b' a' tok'" for b' a' tok'
  proof -
    have "length t = length tok'" using assms(4) that(2) by (simp add: token_wf_def)
    then have "a = a' \<and> fst (artifact_match md5_hex b a PG_IDENT_MAX) = fst (artifact_match md5_hex b' a' PG_IDENT_MAX) \<and> t = tok'"
      using mark_eq [of md5_hex b a t b' a' tok'] assms(3) that(3) by metis
    with assms(1,2) that(1) have "b = b'" "t = tok'" unfolding heads_apart_def by metis+
    with assms(5) show ?thesis by simp
  qed
  then show ?thesis by (auto simp: ok_call_def)
qed

lemma lawful_collect_token:
  assumes "\<And>x C'. x \<in> set bs \<Longrightarrow> (gs_schema g, gs_label g b, t) \<in> C' \<Longrightarrow> ok_call md5_hex T tok C' {} (Drop_object (gs_schema g) (blocker_name x))"
  shows "lawful md5_hex T tok C {} (collect_token g b now (t, bs))"
proof -
  have "lawful md5_hex T tok (insert (gs_schema g, gs_label g b, t) C') {} (drop_each (gs_schema g) (map blocker_name bs))" for C'
    by (rule lawful_drop_each) (use assms in auto)
  then show ?thesis
    by (auto simp: collect_token_def try_prog_def prog_simps Let_def ok_call_def learn_def intro!: lawful_bind
        split: reply.splits option.splits claim.splits)
qed

lemma lawful_collect_all:
  "(\<And>t bs C'. (t, bs) \<in> set tbs \<Longrightarrow> lawful md5_hex T tok C' {} (collect_token g b now (t, bs))) \<Longrightarrow>
    lawful md5_hex T tok C {} (collect_all g b now tbs)"
  by (induction tbs arbitrary: C) (auto intro!: lawful_try)

lemma by_token_entry: "(t, bs) \<in> set (by_token xs) \<Longrightarrow> x \<in> set bs \<Longrightarrow> x \<in> set xs \<and> collectable x = Some t"
  by (auto simp: by_token_def)

lemma lawful_decide:
  assumes "heads_apart md5_hex T" "(s, b) \<in> T" "token_wf (token run)"
  shows "lawful md5_hex T (token run) C {} (decide (pg_guard s) b now policy (scan_of md5_hex b run ns))"
proof -
  have "lawful md5_hex T (token run) C' {} (collect_token (pg_guard s) b now (t, bs))"
    if e: "(t, bs) \<in> set (by_token (blockers_of (scan_of md5_hex b run ns)))" for t bs C'
  proof (rule lawful_collect_token)
    fix x C' assume x: "x \<in> set bs" "(gs_schema (pg_guard s), gs_label (pg_guard s) b, t) \<in> C'"
    with by_token_entry [OF e] collectable_blocker [of x md5_hex b run ns t]
    obtain a where "blocker_name x = mark md5_hex b a t" "length t = RUN_TOKEN_LEN" by blast
    with ok_drop_claimed [OF assms(1,2)] x(2)
    show "ok_call md5_hex T (token run) C' {} (Drop_object (gs_schema (pg_guard s)) (blocker_name x))"
      unfolding run_row_pair pg_guard_fields by blast
  qed
  then have "lawful md5_hex T (token run) C {} (collect_all (pg_guard s) b now (by_token (blockers_of (scan_of md5_hex b run ns))))"
    by (rule lawful_collect_all)
  moreover have "lawful md5_hex T (token run) C' {} (drop_all s (mine_leftovers (scan_of md5_hex b run ns)))" for C'
  proof (rule lawful_drop_all)
    fix n assume "n \<in> set (mine_leftovers (scan_of md5_hex b run ns))"
    then have "carries_token (token run) n" using leftover_own unfolding carries_token_def by blast
    then show "ok_call md5_hex T (token run) C' {} (Drop_object s n)" by (rule ok_drop_own [OF assms(3)])
  qed
  ultimately show ?thesis by (auto simp: decide_def intro!: lawful_try split: option.split)
qed

lemma lawful_check:
  assumes "heads_apart md5_hex T" "(s, b) \<in> T" "token_wf (token run)"
  shows "lawful md5_hex T (token run) C {} (check_peers md5_hex (pg_guard s) b now run policy)"
  unfolding check_calls [OF assms(3)] by (auto simp: ok_call_def intro!: lawful_decide [OF assms] split: reply.split)

text \<open>A check keeps the locks of its own run.\<close>

lemma keeps_collect_token:
  "snd obj \<notin> blocker_name ` set bs \<Longrightarrow> keeps obj (collect_token g b now (t, bs))"
  by (auto simp: collect_token_def try_prog_def prog_simps Let_def intro!: keeps_bind keeps_drop_each
      split: reply.splits option.splits claim.splits)

lemma keeps_collect_all: "(\<And>t bs. (t, bs) \<in> set tbs \<Longrightarrow> keeps obj (collect_token g b now (t, bs))) \<Longrightarrow> keeps obj (collect_all g b now tbs)"
  by (induction tbs) (auto intro!: keeps_try)

lemma keeps_check:
  assumes "token_wf (token run)"
  shows "keeps (s', mark md5_hex b' Lock (token run)) (check_peers md5_hex (pg_guard s) b now run policy)"
proof -
  have len: "length (token run) = RUN_TOKEN_LEN" using assms by (simp add: token_wf_def)
  have "blocker_name x \<noteq> mark md5_hex b' Lock (token run)"
    if x: "x \<in> set bs" and e: "(t, bs) \<in> set (by_token (blockers_of (scan_of md5_hex b run ns)))" for x t bs ns
  proof -
    from by_token_entry [OF e x] collectable_blocker [of x md5_hex b run ns t]
    obtain a where "blocker_name x = mark md5_hex b a t" "length t = RUN_TOKEN_LEN" "t \<noteq> token run" by blast
    with len show ?thesis using mark_eq [of md5_hex b a t b' Lock "token run"] by metis
  qed
  then have "keeps (s', mark md5_hex b' Lock (token run)) (collect_all (pg_guard s) b now (by_token (blockers_of (scan_of md5_hex b run ns))))" for ns
    by (intro keeps_collect_all keeps_collect_token) (metis imageE snd_conv)
  moreover have "mark md5_hex b' Lock (token run) \<notin> set (mine_leftovers (scan_of md5_hex b run ns))" for ns
  proof
    assume "mark md5_hex b' Lock (token run) \<in> set (mine_leftovers (scan_of md5_hex b run ns))"
    then obtain h a where "mark md5_hex b' Lock (token run) = h @ token run @ suffix a" "a \<noteq> Lock" using leftover_own by blast
    then show False using mark_inj [of _ "token run" Lock h "token run" a] by (auto simp: mark_cut)
  qed
  ultimately show ?thesis unfolding check_calls [OF assms]
    by (auto simp: decide_def intro!: keeps_try keeps_drop_all split: reply.split option.split)
qed

lemma unlisted_check:
  assumes "token_wf (token run)" "m \<noteq> (s, b)"
  shows "unlisted m (check_peers md5_hex (pg_guard s) b now run policy)"
proof -
  have "unlisted m (collect_token g b now tb)" for g tb
    by (auto simp: collect_token_def try_prog_def prog_simps Let_def split_def intro!: unlisted_bind unlisted_drop_each
        split: reply.splits option.splits claim.splits)
  then have "unlisted m (collect_all g b now tbs)" for g tbs by (induction tbs) (auto intro!: unlisted_try)
  then show ?thesis unfolding check_calls [OF assms(1)] using assms(2)
    by (auto simp: decide_def intro!: unlisted_try unlisted_drop_all split: reply.split option.split)
qed

section \<open>Every member\<close>

lemma untested_first: "untested md5_hex m tok p \<Longrightarrow> untested md5_hex m tok (try_prog p f)"
proof -
  have mc: "must_claim row p \<Longrightarrow> must_claim row (bind_prog p (\<lambda>r. case r of Inl e \<Rightarrow> Ret (Inl e) | Inr x \<Rightarrow> f x))" for row p
    using must_claim_first [of row p f] by (simp add: try_prog_def)
  have av: "avoids l n row p \<Longrightarrow> avoids l n row (bind_prog p (\<lambda>r. case r of Inl e \<Rightarrow> Ret (Inl e) | Inr x \<Rightarrow> f x))" for l n row p
    by (induction p) (auto simp: mc split: sum.split)
  show "untested md5_hex m tok p \<Longrightarrow> untested md5_hex m tok (try_prog p f)"
    unfolding try_prog_def by (induction p) (auto simp: mc av split: sum.split)
qed

lemma check_members_props:
  assumes "token_wf (token run)"
  shows "heads_apart md5_hex T \<Longrightarrow> set ms \<subseteq> T \<Longrightarrow> lawful md5_hex T (token run) C {} (check_members md5_hex now run ms)"
    and "keeps (s', mark md5_hex b' Lock (token run)) (check_members md5_hex now run ms)"
    and "rival run tok \<Longrightarrow> m \<in> set ms \<Longrightarrow> untested md5_hex m tok (check_members md5_hex now run ms)"
proof -
  show "heads_apart md5_hex T \<Longrightarrow> set ms \<subseteq> T \<Longrightarrow> lawful md5_hex T (token run) C {} (check_members md5_hex now run ms)"
    by (induction ms arbitrary: C) (auto intro!: lawful_try lawful_check assms)
  show "keeps (s', mark md5_hex b' Lock (token run)) (check_members md5_hex now run ms)"
    by (induction ms) (auto intro!: keeps_try keeps_check assms)
  show "untested md5_hex m tok (check_members md5_hex now run ms)" if "rival run tok" "m \<in> set ms"
    using that(2)
  proof (induction ms)
    case (Cons x ms)
    obtain s b where x: "x = (s, b)" by (cases x)
    show ?case
    proof (cases "m = x")
      case True
      then show ?thesis unfolding x check_members.simps by (simp add: untested_first untested_check [OF assms that(1)])
    next
      case False
      with Cons show ?thesis unfolding x check_members.simps by (intro untested_then unlisted_check assms) simp_all
    qed
  qed simp
qed

section \<open>Opening leases\<close>

lemma lawful_lease_open:
  "distinct (map fst groups) \<Longrightarrow> {(s, k, tok) |s k. \<exists>ks. (s, ks) \<in> set groups \<and> k \<in> set ks} \<subseteq> R \<Longrightarrow>
    lawful md5_hex T tok C R (lease_open tok groups)"
proof (induction groups arbitrary: R)
  case (Cons g groups)
  obtain s ks where g: "g = (s, ks)" by (cases g)
  from Cons.prems have "{(s, k, tok) |s k. \<exists>ks. (s, ks) \<in> set groups \<and> k \<in> set ks} \<subseteq> R - {(s, k, tok) |k. k \<in> set ks}"
    by (auto simp: g) (force simp: image_iff)
  with Cons.IH Cons.prems(1) have "lawful md5_hex T tok C (spent R (Lease_open s ks tok)) (lease_open tok groups)"
    by (simp add: g spent_def)
  with Cons.prems(2) show ?case
    by (auto simp: g try_prog_def prog_simps ok_call_def split: reply.split)
qed simp

lemma distinct_by_schema: "distinct (map fst (by_schema keys))"
  by (simp add: by_schema_def comp_def)

section \<open>Listings\<close>

lemma serve_listed:
  assumes "(s, mark md5_hex b a tok) \<in> set (objects db)"
  shows "mark md5_hex b a tok \<in> set (pg_list md5_hex db s b a)"
proof -
  let ?m = "artifact_match md5_hex b a PG_IDENT_MAX"
  have "strip_suffix (snd ?m) (fst ?m @ tok @ snd ?m) = Some (fst ?m @ tok)" using strip_suffix_append [of "snd ?m" "fst ?m @ tok"] by simp
  then have "like_match (fst ?m) (snd ?m) (mark md5_hex b a tok)"
    by (simp add: like_match_def artifact_ident_tok_def split_def starts_with_def ends_with_def del: append_assoc) (simp add: match_suffix)
  with assms show ?thesis unfolding pg_list_def Let_def split_def set_map
    by (intro image_eqI [where x = "(s, mark md5_hex b a tok)"]) simp_all
qed

end
