(* ===== verification/Store_Laws.thy ===== *)
theory Store_Laws
  imports Rivals
begin

text \<open>
  What the exclusion of runs needs of a store, as the locale \<open>claim_store\<close>: objects stay until
  they are dropped, a listing shows every mark, a claim is never forgotten, and a lease row
  appears only when it is opened. Under these laws a call of one run keeps what every other
  run relies on. The PostgreSQL catalog keeps the laws, calls that fail included.
\<close>

section \<open>The store\<close>

record view =
  v_objects :: "(bytes \<times> bytes) set"
  v_collected :: "row \<Rightarrow> bool option"
  v_claimed :: "row set"

definition opened :: "store_call \<Rightarrow> row set" where
  "opened q = (case q of Lease_open s ks t \<Rightarrow> {(s, k, t) |k. k \<in> set ks} | _ \<Rightarrow> {})"

text \<open>The mark of a run on a table is there, or its lease has been claimed.\<close>

definition stands :: "(bytes \<Rightarrow> bytes) \<Rightarrow> view \<Rightarrow> bytes \<Rightarrow> artifact \<Rightarrow> member \<Rightarrow> bool" where
  "stands md5_hex v tok a m \<longleftrightarrow> (fst m, mark md5_hex (snd m) a tok) \<in> v_objects v \<or> run_row m tok \<in> v_claimed v"

definition untouched :: "view \<Rightarrow> row \<Rightarrow> bool" where
  "untouched v row \<longleftrightarrow> v_collected v row = None \<and> row \<notin> v_claimed v"

definition closed_rows :: "view \<Rightarrow> bool" where
  "closed_rows v \<longleftrightarrow> (\<forall>row \<in> v_claimed v. v_collected v row \<noteq> Some False)"

text \<open>What the steps of others leave a run.\<close>

definition later :: "(bytes \<Rightarrow> bytes) \<Rightarrow> member set \<Rightarrow> bytes \<Rightarrow> view \<Rightarrow> view \<Rightarrow> bool" where
  "later md5_hex T tok v v' \<longleftrightarrow> v_claimed v \<subseteq> v_claimed v' \<and>
     (\<forall>m \<in> T. \<forall>a. stands md5_hex v tok a m \<longrightarrow> stands md5_hex v' tok a m) \<and>
     (\<forall>s k. untouched v (s, k, tok) \<longrightarrow> untouched v' (s, k, tok))"

section \<open>The invariant of a run\<close>

definition allowed :: "(bytes \<Rightarrow> bytes) \<Rightarrow> member set \<Rightarrow> run_id \<Rightarrow> view \<Rightarrow> 'a prog \<Rightarrow> bool" where
  "allowed md5_hex T run v p \<longleftrightarrow> (\<exists>C R. lawful md5_hex T (token run) C R p \<and> C \<subseteq> v_claimed v \<and>
     (\<forall>row \<in> R. untouched v row \<and> snd (snd row) = token run) \<and> (is_drain run \<or> R = {}))"

definition backed :: "(bytes \<Rightarrow> bytes) \<Rightarrow> member set \<Rightarrow> bytes \<Rightarrow> view \<Rightarrow> (bytes \<times> bytes) set \<Rightarrow> bool" where
  "backed md5_hex T tok v K \<longleftrightarrow> (\<forall>m \<in> T. \<forall>a. (fst m, mark md5_hex (snd m) a tok) \<in> K \<longrightarrow> stands md5_hex v tok a m)"

definition secured :: "(bytes \<Rightarrow> bytes) \<Rightarrow> member set \<Rightarrow> bytes \<Rightarrow> view \<Rightarrow> ((bytes \<times> bytes) set \<Rightarrow> 'a \<Rightarrow> bool) \<Rightarrow> 'a prog \<Rightarrow> bool" where
  "secured md5_hex T tok v P p \<longleftrightarrow> (\<exists>K. backed md5_hex T tok v K \<and> delivers P K p)"

text \<open>The names of an announcement: of a bulk run only locks.\<close>

definition held_ok :: "run_id \<Rightarrow> (member \<times> announced) list \<Rightarrow> bool" where
  "held_ok run held \<longleftrightarrow> own_held (token run) held \<and>
     (is_drain run \<or> (\<forall>(m, a) \<in> set held. \<forall>n \<in> set (an_names a). \<exists>h. n = h @ token run @ suffix Lock))"

definition announce_post :: "(bytes \<Rightarrow> bytes) \<Rightarrow> run_id \<Rightarrow> member list \<Rightarrow> (bytes \<times> bytes) set \<Rightarrow> (member \<times> announced) list result \<Rightarrow> bool" where
  "announce_post md5_hex run ms K r =
     (case r of Inl _ \<Rightarrow> True | Inr held \<Rightarrow> held_ok run held \<and> (\<forall>m \<in> set ms. lock_there md5_hex (token run) m K))"

definition staging_post :: "(bytes \<Rightarrow> bytes) \<Rightarrow> run_id \<Rightarrow> member list \<Rightarrow> (bytes \<times> bytes) set \<Rightarrow> unit result \<Rightarrow> bool" where
  "staging_post md5_hex run ms K r =
     (case r of Inl _ \<Rightarrow> True | Inr _ \<Rightarrow> \<forall>m \<in> set ms. (fst m, mark md5_hex (snd m) Staging (token run)) \<in> K)"

definition holds :: "(bytes \<Rightarrow> bytes) \<Rightarrow> view \<Rightarrow> run_id \<Rightarrow> member list \<Rightarrow> artifact \<Rightarrow> 'a prog \<Rightarrow> bool" where
  "holds md5_hex v run ms a p \<longleftrightarrow> (\<forall>m \<in> set ms. stands md5_hex v (token run) a m \<and>
     keeps (fst m, mark md5_hex (snd m) a (token run)) p)"

fun phase_ok :: "(bytes \<Rightarrow> bytes) \<Rightarrow> member set \<Rightarrow> view \<Rightarrow> run_id \<Rightarrow> member list \<Rightarrow> phase \<Rightarrow> bool" where
  "phase_ok md5_hex T v run ms (Opening p) = (allowed md5_hex T run v p \<and> is_drain run)"
| "phase_ok md5_hex T v run ms (Announcing p) =
     (allowed md5_hex T run v p \<and> secured md5_hex T (token run) v (announce_post md5_hex run ms) p)"
| "phase_ok md5_hex T v run ms (Checking held p) = (allowed md5_hex T run v p \<and> held_ok run held \<and> holds md5_hex v run ms Lock p)"
| "phase_ok md5_hex T v run ms (Working held) = (held_ok run held \<and> holds md5_hex v run ms Lock (Ret ()))"
| "phase_ok md5_hex T v run ms (Staging_up held p) =
     (allowed md5_hex T run v p \<and> held_ok run held \<and> holds md5_hex v run ms Lock p \<and> \<not> is_drain run \<and>
      secured md5_hex T (token run) v (staging_post md5_hex run ms) p)"
| "phase_ok md5_hex T v run ms (Handing p) = (allowed md5_hex T run v p \<and> holds md5_hex v run ms Staging p)"
| "phase_ok md5_hex T v run ms Loaded = holds md5_hex v run ms Staging (Ret ())"
| "phase_ok md5_hex T v run ms (Ending p) = allowed md5_hex T run v p"
| "phase_ok md5_hex T v run ms Ended = True"

definition job_ok :: "(bytes \<Rightarrow> bytes) \<Rightarrow> member set \<Rightarrow> view \<Rightarrow> job \<Rightarrow> bool" where
  "job_ok md5_hex T v j \<longleftrightarrow> token_wf (token (j_run j)) \<and> set (j_members j) \<subseteq> T \<and>
     (is_drain (j_run j) \<or> (\<exists>m. j_members j = [m]) \<and> (\<forall>s k. untouched v (s, k, token (j_run j)))) \<and>
     phase_ok md5_hex T v (j_run j) (j_members j) (j_phase j)"

lemma later_refl: "later md5_hex T tok v v"
  by (simp add: later_def)

lemma allowed_later: "later md5_hex T (token run) v v' \<Longrightarrow> allowed md5_hex T run v p \<Longrightarrow> allowed md5_hex T run v' p"
proof -
  assume l: "later md5_hex T (token run) v v'" and "allowed md5_hex T run v p"
  then obtain C R where a: "lawful md5_hex T (token run) C R p" "C \<subseteq> v_claimed v" "is_drain run \<or> R = {}"
    "\<And>row. row \<in> R \<Longrightarrow> untouched v row \<and> snd (snd row) = token run" unfolding allowed_def by blast
  have "untouched v' row \<and> snd (snd row) = token run" if "row \<in> R" for row
    using a(4) [OF that] l by (cases row) (auto simp: later_def)
  moreover have "C \<subseteq> v_claimed v'" using a(2) l by (auto simp: later_def)
  ultimately have "lawful md5_hex T (token run) C R p \<and> C \<subseteq> v_claimed v' \<and>
      (\<forall>row \<in> R. untouched v' row \<and> snd (snd row) = token run) \<and> (is_drain run \<or> R = {})" using a(1,3) by simp
  then show ?thesis unfolding allowed_def by (intro exI)
qed

lemma secured_later: "later md5_hex T tok v v' \<Longrightarrow> secured md5_hex T tok v P p \<Longrightarrow> secured md5_hex T tok v' P p"
proof -
  assume "later md5_hex T tok v v'"
  then have "backed md5_hex T tok v' K" if "backed md5_hex T tok v K" for K using that unfolding backed_def later_def by blast
  then show "secured md5_hex T tok v P p \<Longrightarrow> secured md5_hex T tok v' P p" unfolding secured_def by blast
qed

lemma holds_later: "later md5_hex T (token run) v v' \<Longrightarrow> set ms \<subseteq> T \<Longrightarrow> holds md5_hex v run ms a p \<Longrightarrow> holds md5_hex v' run ms a p"
  unfolding holds_def later_def by blast

lemma phase_ok_later:
  assumes "later md5_hex T (token run) v v'" "set ms \<subseteq> T" "phase_ok md5_hex T v run ms ph"
  shows "phase_ok md5_hex T v' run ms ph"
  using assms(3)
  by (cases ph) (auto intro: allowed_later [OF assms(1)] secured_later [OF assms(1)] holds_later [OF assms(1,2)])

lemma job_ok_later:
  assumes "later md5_hex T (token (j_run j)) v v'" "job_ok md5_hex T v j"
  shows "job_ok md5_hex T v' j"
  using assms phase_ok_later [OF assms(1)] unfolding job_ok_def later_def by blast

section \<open>Pairs\<close>

fun handed_over :: "phase \<Rightarrow> bool" where
  "handed_over (Handing _) = True"
| "handed_over Loaded = True"
| "handed_over _ = False"

fun announced_phase :: "phase \<Rightarrow> bool" where
  "announced_phase (Checking _ _) = True"
| "announced_phase ph = working ph"

text \<open>A checking run will not pass beside another without claiming it.\<close>

fun yields :: "(bytes \<Rightarrow> bytes) \<Rightarrow> member \<Rightarrow> bytes \<Rightarrow> bool \<Rightarrow> phase \<Rightarrow> bool" where
  "yields md5_hex m tok handed (Checking held p) \<longleftrightarrow> untested md5_hex m tok p \<or> must_claim (run_row m tok) p \<or>
     handed \<and> avoids (List_kind (fst m) (snd m) Staging) (mark md5_hex (snd m) Staging tok) (run_row m tok) p"
| "yields md5_hex m tok handed ph \<longleftrightarrow> False"

definition shows_itself :: "(bytes \<Rightarrow> bytes) \<Rightarrow> view \<Rightarrow> bytes \<Rightarrow> member \<Rightarrow> phase \<Rightarrow> bool" where
  "shows_itself md5_hex v tok m ph \<longleftrightarrow> stands md5_hex v tok (if handed_over ph then Staging else Lock) m"

lemma phase_shows:
  "phase_ok md5_hex T v run ms ph \<Longrightarrow> announced_phase ph \<Longrightarrow> m \<in> set ms \<Longrightarrow> shows_itself md5_hex v (token run) m ph"
  by (cases ph) (auto simp: shows_itself_def holds_def)

section \<open>The laws\<close>

locale claim_store =
  fixes answer :: "'db \<Rightarrow> store_call \<Rightarrow> reply \<Rightarrow> 'db \<Rightarrow> bool"
    and look :: "'db \<Rightarrow> view"
    and md5_hex :: "bytes \<Rightarrow> bytes"
  assumes kept: "answer db q rep db' \<Longrightarrow> obj \<in> v_objects (look db) \<Longrightarrow> q \<noteq> Drop_object (fst obj) (snd obj) \<Longrightarrow> obj \<in> v_objects (look db')"
    and created: "answer db q Ok_reply db' \<Longrightarrow> q = Create_object s n \<or> q = Create_table s n \<Longrightarrow> (s, n) \<in> v_objects (look db')"
    and listed: "answer db (List_kind s b a) rep db' \<Longrightarrow> (s, mark md5_hex b a tok) \<in> v_objects (look db) \<Longrightarrow> displays (mark md5_hex b a tok) rep"
    and claims_grow: "answer db q rep db' \<Longrightarrow> v_claimed (look db) \<subseteq> v_claimed (look db')"
    and claim_taken: "answer db (Lease_claim s k t) (Claim_reply Taken) db' \<Longrightarrow> (s, k, t) \<in> v_claimed (look db')"
    and rows_opened: "answer db q rep db' \<Longrightarrow> untouched (look db) row \<Longrightarrow> row \<notin> opened q \<Longrightarrow> untouched (look db') row"
    and rows_closed: "answer db q rep db' \<Longrightarrow> closed_rows (look db) \<Longrightarrow> opened q \<inter> v_claimed (look db) = {} \<Longrightarrow> closed_rows (look db')"
begin

lemma stands_kept:
  "answer db q rep db' \<Longrightarrow> stands md5_hex (look db) tok a m \<Longrightarrow> q \<noteq> Drop_object (fst m) (mark md5_hex (snd m) a tok) \<Longrightarrow>
    stands md5_hex (look db') tok a m"
  using kept [of db q rep db' "(fst m, mark md5_hex (snd m) a tok)"] claims_grow [of db q rep db'] unfolding stands_def by auto

text \<open>A lawful call of one run leaves every other.\<close>

lemma other_later:
  assumes "answer db q rep db'" "ok_call md5_hex T tok' C R q" "C \<subseteq> v_claimed (look db)" "\<forall>row \<in> R. snd (snd row) = tok'"
    "tok \<noteq> tok'" "token_wf tok"
  shows "later md5_hex T tok (look db) (look db')"
proof -
  have "stands md5_hex (look db') tok a m" if "m \<in> T" "stands md5_hex (look db) tok a m" for a m
  proof (cases "q = Drop_object (fst m) (mark md5_hex (snd m) a tok)")
    case True
    with assms(2,5,6) that(1) have "run_row m tok \<in> C" by (cases m) (auto simp: ok_call_def)
    with assms(3) claims_grow [OF assms(1)] show ?thesis by (auto simp: stands_def)
  qed (use stands_kept [OF assms(1) that(2)] in blast)
  moreover have "untouched (look db') (s, k, tok)" if "untouched (look db) (s, k, tok)" for s k
  proof -
    have "(s, k, tok) \<notin> opened q" using assms(2,4,5) by (fastforce simp: opened_def ok_call_def split: store_call.splits)
    with rows_opened [OF assms(1) that] show ?thesis by blast
  qed
  ultimately show ?thesis using claims_grow [OF assms(1)] by (auto simp: later_def)
qed

lemma spent_opened: "spent R q = R - opened q"
  by (auto simp: spent_def opened_def split: store_call.splits)

lemma learn_claimed: "answer db q rep db' \<Longrightarrow> C \<subseteq> v_claimed (look db) \<Longrightarrow> learn C q rep \<subseteq> v_claimed (look db')"
  using claims_grow [of db q rep db'] claim_taken [of db _ _ _ db'] by (auto simp: learn_def split: store_call.splits if_splits)

lemma allowed_call:
  assumes "answer db q rep db'" "allowed md5_hex T run (look db) (Call q k)"
  shows "allowed md5_hex T run (look db') (k rep)"
proof -
  from assms(2) obtain C R where "lawful md5_hex T (token run) (learn C q rep) (spent R q) (k rep)" "C \<subseteq> v_claimed (look db)"
    "\<forall>row \<in> R. untouched (look db) row \<and> snd (snd row) = token run" "is_drain run \<or> R = {}" by (auto simp: allowed_def)
  moreover from this have "\<forall>row \<in> spent R q. untouched (look db') row \<and> snd (snd row) = token run" "is_drain run \<or> spent R q = {}"
    using rows_opened [OF assms(1)] by (auto simp: spent_opened)
  ultimately show ?thesis using learn_claimed [OF assms(1)] unfolding allowed_def by blast
qed

lemma backed_call:
  assumes "answer db q rep db'" "backed md5_hex T tok (look db) K"
  shows "backed md5_hex T tok (look db') (made K q rep)"
  unfolding backed_def
proof (intro ballI allI impI)
  fix m a assume m: "m \<in> T" "(fst m, mark md5_hex (snd m) a tok) \<in> made K q rep"
  show "stands md5_hex (look db') tok a m"
  proof (cases "(fst m, mark md5_hex (snd m) a tok) \<in> K")
    case True
    with m assms(2) have "stands md5_hex (look db) tok a m" by (auto simp: backed_def)
    moreover have "q \<noteq> Drop_object (fst m) (mark md5_hex (snd m) a tok)" using m(2) by (auto simp: made_def)
    ultimately show ?thesis using stands_kept [OF assms(1)] by blast
  next
    case False
    with m(2) have "rep = Ok_reply" "q = Create_object (fst m) (mark md5_hex (snd m) a tok) \<or> q = Create_table (fst m) (mark md5_hex (snd m) a tok)"
      by (auto simp: made_def split: store_call.splits if_splits)
    with created [of db q db'] assms(1) show ?thesis by (auto simp: stands_def)
  qed
qed

lemma secured_call: "answer db q rep db' \<Longrightarrow> secured md5_hex T tok (look db) P (Call q k) \<Longrightarrow> secured md5_hex T tok (look db') P (k rep)"
  unfolding secured_def using backed_call by fastforce

lemma holds_call:
  "answer db q rep db' \<Longrightarrow> holds md5_hex (look db) run ms a (Call q k) \<Longrightarrow> holds md5_hex (look db') run ms a (k rep)"
  unfolding holds_def by (simp, blast intro: stands_kept)

lemma phase_call:
  assumes "answer db q rep db'" "next_call ph = Some (q, k)" "phase_ok md5_hex T (look db) run ms ph"
  shows "phase_ok md5_hex T (look db') run ms (k rep)"
  using assms(2,3)
  by (cases ph rule: next_call.cases) (auto intro: allowed_call [OF assms(1)] secured_call [OF assms(1)] holds_call [OF assms(1)])

text \<open>A call of a checking run beside one that shows itself.\<close>

lemma yields_call:
  assumes "answer db q rep db'" "next_call ph = Some (q, k)" "yields md5_hex m tok (handed_over ph') ph"
    "shows_itself md5_hex (look db) tok m ph'" "run_row m tok \<notin> v_claimed (look db')"
  shows "yields md5_hex m tok (handed_over ph') (k rep)"
proof -
  from assms(2,3) obtain held p where ph: "ph = Checking held p" by (cases ph) auto
  with assms(2) obtain k' where p: "p = Call q k'" and k: "k = (\<lambda>r. Checking held (k' r))" by (cases p) auto
  have untaken: "run_row m tok \<notin> v_claimed (look db)" using assms(5) claims_grow [OF assms(1)] by blast
  let ?a = "if handed_over ph' then Staging else Lock"
  have listed': "displays (mark md5_hex (snd m) ?a tok) rep" if "q = List_kind (fst m) (snd m) ?a"
    using listed [of db "fst m" "snd m" ?a rep db' tok] assms(1,4) untaken that by (auto simp: shows_itself_def stands_def)
  have "\<not> (q = Lease_claim (fst (run_row m tok)) (fst (snd (run_row m tok))) (snd (snd (run_row m tok))) \<and> rep = Claim_reply Taken)"
    using claim_taken [of db _ _ _ db'] assms(1,5) by (metis prod.collapse)
  then have mc: "must_claim (run_row m tok) p \<Longrightarrow> must_claim (run_row m tok) (k' rep)" by (auto simp: p)
  show ?thesis
    using assms(3) mc listed' by (cases "handed_over ph'") (auto simp: ph p k split: if_splits)
qed

end

section \<open>The PostgreSQL catalog\<close>

definition pg_view :: "catalog \<Rightarrow> view" where
  "pg_view db = \<lparr>v_objects = set (objects db), v_collected = (\<lambda>row. map_option snd (lease_rows db row)), v_claimed = set (taken db)\<rparr>"

lemma pg_view_simps [simp]:
  "v_objects (pg_view db) = set (objects db)" "v_collected (pg_view db) row = map_option snd (lease_rows db row)"
  "v_claimed (pg_view db) = set (taken db)"
  by (simp_all add: pg_view_def)

lemma pg_open_fields:
  "objects (pg_open ttl db s keys tok) = objects db" "taken (pg_open ttl db s keys tok) = taken db"
  "lease_rows (pg_open ttl db s keys tok) row =
     (if lease_rows db row = None \<and> (\<exists>k \<in> set keys. row = (s, k, tok)) then Some (clock db + ttl, False) else lease_rows db row)"
proof -
  let ?f = "\<lambda>key db. if lease_rows db (s, key, tok) = None
       then db\<lparr>lease_rows := (lease_rows db)((s, key, tok) \<mapsto> (clock db + ttl, False))\<rparr> else db"
  have "objects (fold ?f keys db) = objects db \<and> taken (fold ?f keys db) = taken db" by (induction keys arbitrary: db) simp_all
  then show "objects (pg_open ttl db s keys tok) = objects db" "taken (pg_open ttl db s keys tok) = taken db" by (simp_all add: pg_open_def)
  have "lease_rows (fold ?f keys db) row =
     (if lease_rows db row = None \<and> (\<exists>k \<in> set keys. row = (s, k, tok)) then Some (clock db + ttl, False) else lease_rows db row)"
    by (induction keys arbitrary: db) auto
  then show "lease_rows (pg_open ttl db s keys tok) row =
     (if lease_rows db row = None \<and> (\<exists>k \<in> set keys. row = (s, k, tok)) then Some (clock db + ttl, False) else lease_rows db row)"
    by (simp add: pg_open_def)
qed


lemma serve_kept:
  "serve md5_hex ttl db q = (rep, db') \<Longrightarrow> obj \<in> set (objects db) \<Longrightarrow> q \<noteq> Drop_object (fst obj) (snd obj) \<Longrightarrow> obj \<in> set (objects db')"
  by (cases q) (auto simp: pg_open_fields pg_claim_def split: if_splits prod.splits option.splits)

lemma serve_rows:
  assumes "serve md5_hex ttl db q = (rep, db')"
  shows "set (taken db) \<subseteq> set (taken db')"
    and "untouched (pg_view db) row \<Longrightarrow> row \<notin> opened q \<Longrightarrow> untouched (pg_view db') row"
    and "closed_rows (pg_view db) \<Longrightarrow> opened q \<inter> set (taken db) = {} \<Longrightarrow> closed_rows (pg_view db')"
proof -
  show "set (taken db) \<subseteq> set (taken db')"
    using assms by (cases q) (auto simp: pg_open_fields pg_claim_def split: if_splits prod.splits option.splits)
  show "untouched (pg_view db') row" if "untouched (pg_view db) row" "row \<notin> opened q"
    using assms that by (cases q) (auto simp: untouched_def opened_def pg_open_fields pg_claim_def split: if_splits prod.splits option.splits)
  have was: "row \<in> opened q \<or> map_option snd (lease_rows db' row) \<in> {map_option snd (lease_rows db row), None, Some True}" for row
    using assms by (cases q) (auto simp: opened_def pg_open_fields pg_claim_def split: if_splits prod.splits option.splits)
  have new: "row \<in> set (taken db) \<or> map_option snd (lease_rows db' row) = Some True" if "row \<in> set (taken db')" for row
    using assms that by (cases q) (auto simp: pg_open_fields pg_claim_def split: if_splits prod.splits option.splits)
  show "closed_rows (pg_view db')" if "closed_rows (pg_view db)" "opened q \<inter> set (taken db) = {}"
    unfolding closed_rows_def pg_view_simps
  proof
    fix row assume "row \<in> set (taken db')"
    then consider "map_option snd (lease_rows db' row) = Some True" | "row \<in> set (taken db)" using new by blast
    then show "map_option snd (lease_rows db' row) \<noteq> Some False"
    proof cases
      case 2
      with that have "map_option snd (lease_rows db row) \<noteq> Some False" "row \<notin> opened q" by (auto simp: closed_rows_def)
      with was [of row] show ?thesis by (metis (full_types) empty_iff insertE option.distinct(1) option.inject)
    qed auto
  qed
qed

interpretation pg: claim_store "answered md5_hex ttl" pg_view md5_hex for md5_hex ttl
proof
  fix db q rep db' obj
  assume "answered md5_hex ttl db q rep db'" "obj \<in> v_objects (pg_view db)" "q \<noteq> Drop_object (fst obj) (snd obj)"
  then show "obj \<in> v_objects (pg_view db')" by (cases rule: answered.cases) (auto dest: serve_kept)
next
  fix db q db' s n
  assume "answered md5_hex ttl db q Ok_reply db'" "q = Create_object s n \<or> q = Create_table s n"
  then show "(s, n) \<in> v_objects (pg_view db')" by (cases rule: answered.cases) (auto split: if_splits)
next
  fix db s b a rep db' tok
  assume "answered md5_hex ttl db (List_kind s b a) rep db'" "(s, mark md5_hex b a tok) \<in> v_objects (pg_view db)"
  then show "displays (mark md5_hex b a tok) rep" by (cases rule: answered.cases) (auto simp: displays_def serve_listed)
next
  fix db q rep db'
  assume "answered md5_hex ttl db q rep db'"
  then show "v_claimed (pg_view db) \<subseteq> v_claimed (pg_view db')" by (cases rule: answered.cases) (use serve_rows(1) in auto)
next
  fix db s k t db'
  assume "answered md5_hex ttl db (Lease_claim s k t) (Claim_reply Taken) db'"
  then show "(s, k, t) \<in> v_claimed (pg_view db')"
    by (cases rule: answered.cases) (auto simp: pg_claim_def split: if_splits prod.splits option.splits)
next
  fix db q rep db' row
  assume "answered md5_hex ttl db q rep db'" "untouched (pg_view db) row" "row \<notin> opened q"
  then show "untouched (pg_view db') row" by (cases rule: answered.cases) (auto intro: serve_rows(2))
next
  fix db q rep db'
  assume "answered md5_hex ttl db q rep db'" "closed_rows (pg_view db)" "opened q \<inter> v_claimed (pg_view db) = {}"
  then show "closed_rows (pg_view db')" by (cases rule: answered.cases) (auto intro: serve_rows(3))
qed

end
