(* ===== verification/Exclusion.thy ===== *)
theory Exclusion
  imports Store_Laws
begin

text \<open>
  Runs that must not work beside each other do not, however their calls are interleaved,
  whichever calls fail and wherever a run dies: an invariant of the reachable states of
  \<open>Interleave\<close>.
\<close>

section \<open>Phases\<close>

lemma run_kind_wf: "token_wf (token run) \<Longrightarrow> \<exists>k. run_kind run = Inr k"
  by (auto simp: token_wf_def RUN_TOKEN_LEN_def run_kind_def index_list_def ok_or_def)

lemma allowed_plain: "(\<And>C. lawful md5_hex T (token run) C {} p) \<Longrightarrow> allowed md5_hex T run v p"
  unfolding allowed_def by (intro exI [of _ "{}"]) auto

lemma keeps_bulk_release:
  "(\<And>m a. (m, a) \<in> set held \<Longrightarrow> snd obj \<notin> set (an_names a)) \<Longrightarrow> keeps obj (bulk_release held)"
  by (induction held rule: bulk_release.induct) (force simp: release_def intro!: keeps_bind keeps_drop_each)+

lemma staging_kept:
  assumes "held_ok run held" "\<not> is_drain run"
  shows "keeps (s, mark md5_hex b Staging (token run)) (bulk_release held)"
proof (rule keeps_bulk_release)
  fix m a assume "(m, a) \<in> set held"
  with assms have "\<forall>n \<in> set (an_names a). \<exists>h. n = h @ token run @ suffix Lock" by (auto simp: held_ok_def)
  then show "snd (s, mark md5_hex b Staging (token run)) \<notin> set (an_names a)"
    using mark_inj [of "fst (artifact_match md5_hex b Staging PG_IDENT_MAX)" "token run" Staging _ "token run" Lock]
    unfolding mark_cut snd_conv by (metis artifact.distinct)
qed

text \<open>A finished announcement: the locks of all members stand.\<close>

lemma secured_announced:
  assumes "secured md5_hex T (token run) v (announce_post md5_hex run ms) (Ret (Inr held))" "set ms \<subseteq> T"
  shows "held_ok run held \<and> (\<forall>m \<in> set ms. stands md5_hex v (token run) Lock m)"
  using assms by (auto simp: secured_def backed_def announce_post_def lock_there_def)

lemma phase_checking:
  assumes "heads_apart md5_hex T" "token_wf (token run)" "set ms \<subseteq> T"
    "secured md5_hex T (token run) v (announce_post md5_hex run ms) (Ret (Inr held))"
  shows "phase_ok md5_hex T v run ms (Checking held (check_members md5_hex now run ms))"
    and "ms = [m] \<Longrightarrow> phase_ok md5_hex T v run ms (Checking held (bulk_check md5_hex now run m))"
proof -
  note there = secured_announced [OF assms(4,3)]
  show "phase_ok md5_hex T v run ms (Checking held (check_members md5_hex now run ms))"
    using there check_members_props(1,2) [OF assms(2)] assms(1,3) by (auto simp: holds_def intro!: allowed_plain)
  show "phase_ok md5_hex T v run ms (Checking held (bulk_check md5_hex now run m))" if "ms = [m]"
    using there that assms by (cases m) (auto simp: holds_def bulk_check_def intro!: allowed_plain lawful_check keeps_check)
qed

lemma phase_staging:
  assumes "held_ok run held" "\<not> is_drain run" "holds md5_hex v run [m] Lock (Ret ())"
  shows "phase_ok md5_hex T v run [m] (Staging_up held (create_staging md5_hex run m))"
proof -
  have "delivers (staging_post md5_hex run [m]) {} (create_staging md5_hex run m)"
    by (auto simp: create_staging_def call_unit_def made_def staging_post_def staging_name_def artifact_ident_run_def split: reply.split)
  then have "secured md5_hex T (token run) v (staging_post md5_hex run [m]) (create_staging md5_hex run m)"
    unfolding secured_def backed_def by blast
  moreover have "allowed md5_hex T run v (create_staging md5_hex run m)"
    by (rule allowed_plain) (simp add: create_staging_def ok_call_def)
  ultimately show ?thesis using assms by (auto simp: holds_def create_staging_def)
qed

lemma phase_move:
  assumes "heads_apart md5_hex T" "token_wf (token run)" "set ms \<subseteq> T"
    "moves md5_hex run ms ph ph'" "phase_ok md5_hex T v run ms ph"
  shows "phase_ok md5_hex T v run ms ph'"
  using assms(4,5)
proof (cases rule: moves.cases)
  case opened
  with assms(5) have kind: "run_kind run = Inr LCdc" by (simp add: is_drain_def)
  have "own_held (token run) []" by (simp add: own_held_def)
  with delivers_announce_members [OF kind, of "[]" "{}" md5_hex "{}" ms]
  have "delivers (all_locked md5_hex (token run) (set ms)) {} (announce_members md5_hex run [] ms)" by simp
  then have "delivers (announce_post md5_hex run ms) {} (announce_members md5_hex run [] ms)"
    by (rule delivers_mono) (use kind in \<open>auto simp: all_locked_def announce_post_def held_ok_def is_drain_def split: sum.splits\<close>)
  then have "secured md5_hex T (token run) v (announce_post md5_hex run ms) (announce_members md5_hex run [] ms)"
    unfolding secured_def backed_def by blast
  with opened lawful_announce_members [OF assms(2) kind \<open>own_held (token run) []\<close>] show ?thesis by (auto intro!: allowed_plain)
next
  case (drain_announced held now)
  with phase_checking(1) [OF assms(1-3)] assms(5) show ?thesis by (simp del: phase_ok.simps(3))
next
  case (bulk_announced m held now)
  with phase_checking(2) [OF assms(1-3)] assms(5) show ?thesis by (simp del: phase_ok.simps(3))
next
  case (drain_refused held e)
  with assms lawful_give_back_run [OF assms(2)] show ?thesis by (auto simp: held_ok_def intro!: allowed_plain)
next
  case (bulk_refused held e)
  with assms lawful_bulk_release [OF assms(2)] show ?thesis by (auto simp: held_ok_def intro!: allowed_plain)
next
  case (passed held)
  with assms show ?thesis by (auto simp: holds_def)
next
  case (drain_done held)
  with assms lawful_give_back_run [OF assms(2)] show ?thesis by (auto simp: held_ok_def intro!: allowed_plain)
next
  case (bulk_works m held)
  with phase_staging [of run held md5_hex v m] assms(5) show ?thesis by (simp del: phase_ok.simps(5))
next
  case (staging_failed held e)
  with assms lawful_bulk_release [OF assms(2)] show ?thesis by (auto simp: held_ok_def intro!: allowed_plain)
next
  case (staging_there held)
  with assms have "\<forall>m \<in> set ms. stands md5_hex v (token run) Staging m" by (auto simp: secured_def staging_post_def backed_def)
  with staging_there assms lawful_bulk_release [OF assms(2)] staging_kept [of run held] show ?thesis
    by (auto simp: holds_def held_ok_def intro!: allowed_plain)
next
  case (bulk_done m)
  then show ?thesis using ok_drop_own [OF assms(2)] ident_run_carries
    by (auto simp: drop_staging_def staging_name_def intro!: allowed_plain lawful_bind)
qed (auto simp: holds_def)

section \<open>Pairs of runs\<close>

definition pair_ok :: "(bytes \<Rightarrow> bytes) \<Rightarrow> view \<Rightarrow> job \<Rightarrow> job \<Rightarrow> bool" where
  "pair_ok md5_hex v j j' \<longleftrightarrow> (\<forall>m \<in> set (j_members j) \<inter> set (j_members j').
     rival (j_run j) (token (j_run j')) \<and> rival (j_run j') (token (j_run j)) \<and>
     announced_phase (j_phase j) \<and> announced_phase (j_phase j') \<and>
     run_row m (token (j_run j)) \<notin> v_claimed v \<and> run_row m (token (j_run j')) \<notin> v_claimed v \<longrightarrow>
     yields md5_hex m (token (j_run j')) (handed_over (j_phase j')) (j_phase j) \<or>
     yields md5_hex m (token (j_run j)) (handed_over (j_phase j)) (j_phase j'))"

lemma pair_ok_sym: "pair_ok md5_hex v j j' \<longleftrightarrow> pair_ok md5_hex v j' j"
  unfolding pair_ok_def by blast

lemma pair_ok_later: "v_claimed v \<subseteq> v_claimed v' \<Longrightarrow> pair_ok md5_hex v j j' \<Longrightarrow> pair_ok md5_hex v' j j'"
  unfolding pair_ok_def by blast

lemma yields_handed: "yields md5_hex m tok h ph \<Longrightarrow> (h \<Longrightarrow> h') \<Longrightarrow> yields md5_hex m tok h' ph"
  by (cases ph) auto

lemma yields_move:
  assumes "moves md5_hex run ms ph ph'" "announced_phase ph'" "token_wf (token run)" "rival run tok" "m \<in> set ms"
  shows "yields md5_hex m tok h ph' \<or> announced_phase ph \<and> \<not> yields md5_hex m tok h ph \<and> (handed_over ph \<longrightarrow> handed_over ph')"
  using assms(1)
proof (cases rule: moves.cases)
  case (drain_announced held now)
  with check_members_props(3) [OF assms(3-5)] show ?thesis by simp
next
  case (bulk_announced m' held now)
  with assms show ?thesis by (cases m') (simp add: bulk_check_def untested_check)
qed (use assms(2) in auto)

lemma pair_move:
  assumes "pair_ok md5_hex v j x" "moves md5_hex (j_run j) (j_members j) (j_phase j) ph" "token_wf (token (j_run j))"
  shows "pair_ok md5_hex v (j\<lparr>j_phase := ph\<rparr>) x"
  unfolding pair_ok_def
proof (intro ballI impI)
  fix m
  assume "m \<in> set (j_members (j\<lparr>j_phase := ph\<rparr>)) \<inter> set (j_members x)"
  then have m: "m \<in> set (j_members j) \<inter> set (j_members x)" by simp
  assume a: "rival (j_run (j\<lparr>j_phase := ph\<rparr>)) (token (j_run x)) \<and> rival (j_run x) (token (j_run (j\<lparr>j_phase := ph\<rparr>))) \<and>
     announced_phase (j_phase (j\<lparr>j_phase := ph\<rparr>)) \<and> announced_phase (j_phase x) \<and>
     run_row m (token (j_run (j\<lparr>j_phase := ph\<rparr>))) \<notin> v_claimed v \<and> run_row m (token (j_run x)) \<notin> v_claimed v"
  let ?h = "handed_over (j_phase x)"
  have "yields md5_hex m (token (j_run x)) ?h ph \<or> announced_phase (j_phase j) \<and>
      \<not> yields md5_hex m (token (j_run x)) ?h (j_phase j) \<and> (handed_over (j_phase j) \<longrightarrow> handed_over ph)"
    using yields_move [OF assms(2) _ assms(3)] a m by simp
  then show "yields md5_hex m (token (j_run x)) ?h (j_phase (j\<lparr>j_phase := ph\<rparr>)) \<or>
     yields md5_hex m (token (j_run (j\<lparr>j_phase := ph\<rparr>))) (handed_over (j_phase (j\<lparr>j_phase := ph\<rparr>))) (j_phase x)"
  proof
    assume "announced_phase (j_phase j) \<and> \<not> yields md5_hex m (token (j_run x)) ?h (j_phase j) \<and> (handed_over (j_phase j) \<longrightarrow> handed_over ph)"
    with assms(1) a m have "yields md5_hex m (token (j_run j)) (handed_over (j_phase j)) (j_phase x)"
      and "handed_over (j_phase j) \<longrightarrow> handed_over ph" by (auto simp: pair_ok_def)
    then show ?thesis using yields_handed by fastforce
  qed simp
qed

lemma next_call_phase:
  "next_call ph = Some (q, k) \<Longrightarrow> announced_phase (k rep) = announced_phase ph \<and> handed_over (k rep) = handed_over ph"
  by (cases ph rule: next_call.cases) auto

lemma pair_call:
  assumes "pair_ok md5_hex (pg_view db) j x" "next_call (j_phase j) = Some (q, k)" "answered md5_hex ttl db q rep db'"
    "job_ok md5_hex T (pg_view db) x"
  shows "pair_ok md5_hex (pg_view db') (j\<lparr>j_phase := k rep\<rparr>) x"
  unfolding pair_ok_def
proof (intro ballI impI)
  fix m
  assume "m \<in> set (j_members (j\<lparr>j_phase := k rep\<rparr>)) \<inter> set (j_members x)"
  then have m: "m \<in> set (j_members j) \<inter> set (j_members x)" by simp
  let ?j = "j\<lparr>j_phase := k rep\<rparr>"
  assume a: "rival (j_run ?j) (token (j_run x)) \<and> rival (j_run x) (token (j_run ?j)) \<and>
     announced_phase (j_phase ?j) \<and> announced_phase (j_phase x) \<and>
     run_row m (token (j_run ?j)) \<notin> v_claimed (pg_view db') \<and> run_row m (token (j_run x)) \<notin> v_claimed (pg_view db')"
  have same: "announced_phase (k rep) = announced_phase (j_phase j)" "handed_over (k rep) = handed_over (j_phase j)"
    using next_call_phase [OF assms(2)] by simp_all
  have "v_claimed (pg_view db) \<subseteq> v_claimed (pg_view db')" by (rule pg.claims_grow [OF assms(3)])
  with assms(1) a m same have "yields md5_hex m (token (j_run x)) (handed_over (j_phase x)) (j_phase j) \<or>
     yields md5_hex m (token (j_run j)) (handed_over (j_phase j)) (j_phase x)" by (auto simp: pair_ok_def)
  moreover have "shows_itself md5_hex (pg_view db) (token (j_run x)) m (j_phase x)"
    using assms(4) a m phase_shows [of md5_hex T "pg_view db" "j_run x" "j_members x" "j_phase x" m] by (simp add: job_ok_def)
  ultimately show "yields md5_hex m (token (j_run x)) (handed_over (j_phase x)) (j_phase ?j) \<or>
     yields md5_hex m (token (j_run ?j)) (handed_over (j_phase ?j)) (j_phase x)"
    using pg.yields_call [OF assms(3,2), of m "token (j_run x)" "j_phase x"] a same by auto
qed

section \<open>Starting\<close>

lemma opening_rows:
  "{(s, k, tok) |s k. \<exists>ks. (s, ks) \<in> set groups \<and> k \<in> set ks} \<subseteq> {row. snd (snd row) = tok}"
  by auto

lemma start_drain_ok:
  assumes "token_wf (token run)" "is_drain run" "set ms \<subseteq> T" "\<And>s k. untouched v (s, k, token run)"
  shows "job_ok md5_hex T v \<lparr>j_run = run, j_members = ms, j_phase = Opening (lease_open (token run) (by_schema (map member_key ms)))\<rparr>"
proof -
  let ?R = "{(s, k, token run) |s k. \<exists>ks. (s, ks) \<in> set (by_schema (map member_key ms)) \<and> k \<in> set ks}"
  have "lawful md5_hex T (token run) {} ?R (lease_open (token run) (by_schema (map member_key ms)))"
    by (rule lawful_lease_open [OF distinct_by_schema order_refl])
  moreover have "\<forall>row \<in> ?R. untouched v row \<and> snd (snd row) = token run" using assms(4) by auto
  ultimately have "allowed md5_hex T run v (lease_open (token run) (by_schema (map member_key ms)))"
    unfolding allowed_def using assms(2) by (intro exI [of _ "{}"] exI [of _ ?R]) simp
  with assms show ?thesis by (simp add: job_ok_def)
qed

lemma start_bulk_ok:
  assumes "token_wf (token run)" "\<not> is_drain run" "m \<in> T" "\<And>s k. untouched v (s, k, token run)"
  shows "job_ok md5_hex T v \<lparr>j_run = run, j_members = [m], j_phase = Announcing (bulk_announce md5_hex run m)\<rparr>"
proof -
  from run_kind_wf [OF assms(1)] assms(2) obtain k where k: "run_kind run = Inr k" "k \<noteq> LCdc" by (auto simp: is_drain_def)
  note props = bulk_announce_props [OF assms(1) k]
  have "delivers (announce_post md5_hex run [m]) {} (bulk_announce md5_hex run m)"
    by (rule delivers_mono [OF props(2)]) (fastforce simp: announce_post_def all_locked_def held_ok_def mark_cut split: sum.splits)
  then have "secured md5_hex T (token run) v (announce_post md5_hex run [m]) (bulk_announce md5_hex run m)"
    unfolding secured_def backed_def by blast
  moreover have "allowed md5_hex T run v (bulk_announce md5_hex run m)" by (rule allowed_plain, rule props(1))
  ultimately show ?thesis using assms by (simp add: job_ok_def)
qed

section \<open>The invariant\<close>

definition sys_inv :: "(bytes \<Rightarrow> bytes) \<Rightarrow> member set \<Rightarrow> system \<Rightarrow> bool" where
  "sys_inv md5_hex T sys \<longleftrightarrow> closed_rows (pg_view (sys_db sys)) \<and>
     (\<forall>tok j. sys_jobs sys tok = Some j \<longrightarrow> token (j_run j) = tok \<and> job_ok md5_hex T (pg_view (sys_db sys)) j) \<and>
     (\<forall>tok tok' j j'. sys_jobs sys tok = Some j \<and> sys_jobs sys tok' = Some j' \<and> tok \<noteq> tok' \<longrightarrow>
        pair_ok md5_hex (pg_view (sys_db sys)) j j')"

lemma sys_invI:
  assumes "closed_rows (pg_view (sys_db sys))"
    "\<And>tok j. sys_jobs sys tok = Some j \<Longrightarrow> token (j_run j) = tok \<and> job_ok md5_hex T (pg_view (sys_db sys)) j"
    "\<And>tok tok' j j'. sys_jobs sys tok = Some j \<Longrightarrow> sys_jobs sys tok' = Some j' \<Longrightarrow> tok \<noteq> tok' \<Longrightarrow>
      pair_ok md5_hex (pg_view (sys_db sys)) j j'"
  shows "sys_inv md5_hex T sys"
  unfolding sys_inv_def using assms by (intro conjI allI impI) (assumption | metis)+

lemma sys_invD:
  assumes "sys_inv md5_hex T sys"
  shows "closed_rows (pg_view (sys_db sys))"
    and "sys_jobs sys tok = Some j \<Longrightarrow> token (j_run j) = tok \<and> job_ok md5_hex T (pg_view (sys_db sys)) j"
    and "sys_jobs sys tok = Some j \<Longrightarrow> sys_jobs sys tok' = Some j' \<Longrightarrow> tok' \<noteq> tok \<Longrightarrow> pair_ok md5_hex (pg_view (sys_db sys)) j j'"
  using assms unfolding sys_inv_def by metis+

text \<open>One run moves; the others keep what they rely on.\<close>

lemma sys_inv_update:
  assumes inv: "sys_inv md5_hex T sys" and new: "closed_rows (pg_view db')" "token (j_run j) = tok" "job_ok md5_hex T (pg_view db') j"
    and grow: "v_claimed (pg_view (sys_db sys)) \<subseteq> v_claimed (pg_view db')"
    and others: "\<And>x tok'. sys_jobs sys tok' = Some x \<Longrightarrow> tok' \<noteq> tok \<Longrightarrow> job_ok md5_hex T (pg_view db') x \<and> pair_ok md5_hex (pg_view db') j x"
  shows "sys_inv md5_hex T (sys\<lparr>sys_db := db', sys_jobs := (sys_jobs sys)(tok \<mapsto> j)\<rparr>)"
proof -
  let ?jobs = "(sys_jobs sys)(tok \<mapsto> j)"
  have pairs: "pair_ok md5_hex (pg_view db') x y" if "?jobs t = Some x" "?jobs t' = Some y" "t \<noteq> t'" for t t' x y
  proof -
    consider "t = tok" | "t' = tok" | "t \<noteq> tok" "t' \<noteq> tok" by blast
    then show ?thesis
    proof cases
      case 1
      with that others [of t' y] show ?thesis by simp
    next
      case 2
      with that others [of t x] show ?thesis by (simp add: pair_ok_sym [of md5_hex _ x y])
    next
      case 3
      with that sys_invD(3) [OF inv, of t x t' y] have "pair_ok md5_hex (pg_view (sys_db sys)) x y" by simp
      then show ?thesis by (rule pair_ok_later [OF grow])
    qed
  qed
  have one: "token (j_run x) = t \<and> job_ok md5_hex T (pg_view db') x" if "?jobs t = Some x" for t x
    using that new sys_invD(2) [OF inv, of t x] others [of t x] by (cases "t = tok") auto
  have f: "sys_db (sys\<lparr>sys_db := db', sys_jobs := ?jobs\<rparr>) = db'" "sys_jobs (sys\<lparr>sys_db := db', sys_jobs := ?jobs\<rparr>) = ?jobs" by simp_all
  show ?thesis by (rule sys_invI; unfold f) (rule new(1), erule one, erule pairs)
qed

lemma sys_inv_call:
  assumes inv: "sys_inv md5_hex T sys" and j: "sys_jobs sys tok = Some j" "next_call (j_phase j) = Some (q, k)"
    and ans: "answered md5_hex ttl (sys_db sys) q rep db'"
  shows "sys_inv md5_hex T (sys\<lparr>sys_db := db', sys_jobs := (sys_jobs sys)(tok \<mapsto> j\<lparr>j_phase := k rep\<rparr>)\<rparr>)"
proof (rule sys_inv_update [OF inv])
  let ?v = "pg_view (sys_db sys)"
  have t: "token (j_run j) = tok" and ok: "job_ok md5_hex T ?v j" using sys_invD(2) [OF inv j(1)] by simp_all
  from ok j(2) obtain C R where call: "ok_call md5_hex T tok C R q" "C \<subseteq> v_claimed ?v"
      "\<forall>row \<in> R. untouched ?v row \<and> snd (snd row) = tok" "is_drain (j_run j) \<or> R = {}"
    unfolding t [symmetric] by (cases "j_phase j" rule: next_call.cases) (auto simp: job_ok_def allowed_def)
  have sub: "opened q \<subseteq> R" using call(1) by (auto simp: opened_def ok_call_def split: store_call.splits)
  show "closed_rows (pg_view db')"
    using inv call(3) sub by (intro pg.rows_closed [OF ans]) (auto simp: sys_inv_def untouched_def)
  show "token (j_run (j\<lparr>j_phase := k rep\<rparr>)) = tok" using t by simp
  show "v_claimed ?v \<subseteq> v_claimed (pg_view db')" by (rule pg.claims_grow [OF ans])
  have "is_drain (j_run j) \<or> (\<forall>s k. untouched (pg_view db') (s, k, token (j_run j)))"
    using ok call(4) sub pg.rows_opened [OF ans] by (auto simp: job_ok_def)
  with ok pg.phase_call [OF ans j(2)] show "job_ok md5_hex T (pg_view db') (j\<lparr>j_phase := k rep\<rparr>)" by (auto simp: job_ok_def)
  fix x tok' assume x: "sys_jobs sys tok' = Some x" "tok' \<noteq> tok"
  then have okx: "token (j_run x) = tok'" "job_ok md5_hex T ?v x" "pair_ok md5_hex ?v j x" using sys_invD [OF inv] j(1) by blast+
  have "later md5_hex T tok' ?v (pg_view db')"
    using pg.other_later [OF ans call(1,2) _ x(2)] call(3) okx by (auto simp: job_ok_def)
  with okx job_ok_later [of md5_hex T x] pair_call [OF okx(3) j(2) ans okx(2)]
  show "job_ok md5_hex T (pg_view db') x \<and> pair_ok md5_hex (pg_view db') (j\<lparr>j_phase := k rep\<rparr>) x" by blast
qed

lemma sys_inv_move:
  assumes inv: "sys_inv md5_hex T sys" and j: "sys_jobs sys tok = Some j" "moves md5_hex (j_run j) (j_members j) (j_phase j) p"
    and apart: "heads_apart md5_hex T"
  shows "sys_inv md5_hex T (sys\<lparr>sys_db := sys_db sys, sys_jobs := (sys_jobs sys)(tok \<mapsto> j\<lparr>j_phase := p\<rparr>)\<rparr>)"
proof (rule sys_inv_update [OF inv])
  let ?v = "pg_view (sys_db sys)"
  have t: "token (j_run j) = tok" and ok: "job_ok md5_hex T ?v j" using sys_invD(2) [OF inv j(1)] by simp_all
  then show "token (j_run (j\<lparr>j_phase := p\<rparr>)) = tok" by simp
  show "closed_rows ?v" using inv by (simp add: sys_inv_def)
  show "job_ok md5_hex T ?v (j\<lparr>j_phase := p\<rparr>)" using ok phase_move [OF apart _ _ j(2)] by (auto simp: job_ok_def)
  fix x tok' assume "sys_jobs sys tok' = Some x" "tok' \<noteq> tok"
  then have "job_ok md5_hex T ?v x" "pair_ok md5_hex ?v j x" using sys_invD [OF inv] j(1) by blast+
  with pair_move [OF _ j(2)] ok show "job_ok md5_hex T ?v x \<and> pair_ok md5_hex ?v (j\<lparr>j_phase := p\<rparr>) x" by (simp add: job_ok_def)
qed simp

lemma sys_inv_start:
  assumes inv: "sys_inv md5_hex T sys" and new: "token (j_run j) = tok" "job_ok md5_hex T (pg_view (sys_db sys)) j" "\<not> announced_phase (j_phase j)"
  shows "sys_inv md5_hex T (sys\<lparr>sys_db := sys_db sys, sys_jobs := (sys_jobs sys)(tok \<mapsto> j)\<rparr>)"
  using new sys_invD(1,2) [OF inv] by (intro sys_inv_update [OF inv]) (auto simp: pair_ok_def)

text \<open>The clock, renewals and units change nothing a run relies on.\<close>

lemma view_eqI:
  "objects db' = objects db \<Longrightarrow> taken db' = taken db \<Longrightarrow> (\<And>row. map_option snd (lease_rows db' row) = map_option snd (lease_rows db row)) \<Longrightarrow>
    pg_view db' = pg_view db"
  by (simp add: pg_view_def)

lemma view_renew: "pg_view (snd (lease_renew ttl keys tok db)) = pg_view db"
proof (induction keys arbitrary: db)
  case (Cons k keys)
  have "pg_view (snd (renew_row ttl row db)) = pg_view db" for row
    by (rule view_eqI) (auto simp: renew_row_def split: option.split bool.split prod.split)
  with Cons show ?case by (simp add: split_def Let_def)
qed simp

lemma view_open_unit: "pg_view (snd (open_unit keys tok db)) = pg_view db"
  by (simp add: open_unit_def pg_view_def)

lemma view_close_unit: "pg_view (snd (close_unit ttl u tok db)) = pg_view db"
  by (rule view_eqI) (auto simp: close_unit_def unlock_def Let_def list_all_iff split: option.splits)

lemma sys_inv_quiet:
  "sys_inv md5_hex T sys \<Longrightarrow> pg_view db' = pg_view (sys_db sys) \<Longrightarrow> sys_inv md5_hex T (sys\<lparr>sys_db := db'\<rparr>)"
  by (simp add: sys_inv_def)

lemma sys_inv_step:
  assumes "heads_apart md5_hex T" "sys_inv md5_hex T sys" "step md5_hex ttl T sys sys'"
  shows "sys_inv md5_hex T sys'"
  using assms(3)
proof (cases rule: step.cases)
  case (start_drain run ms)
  then show ?thesis using sys_inv_start [OF assms(2)] start_drain_ok [of run ms T "pg_view (sys_db sys)" md5_hex]
    by (fastforce simp: unused_token_def untouched_def)
next
  case (start_bulk run m)
  then show ?thesis using sys_inv_start [OF assms(2)] start_bulk_ok [of run m T "pg_view (sys_db sys)" md5_hex]
    by (fastforce simp: unused_token_def untouched_def)
next
  case (call tok j q k rep db')
  with sys_inv_call [OF assms(2)] show ?thesis by (simp add: set_phase_def)
next
  case (move tok j p)
  with sys_inv_move [OF assms(2) _ _ assms(1)] show ?thesis by (simp add: set_phase_def)
next
  case (tick t)
  with sys_inv_quiet [OF assms(2)] show ?thesis by (simp add: pg_view_def)
qed (use sys_inv_quiet [OF assms(2)] view_renew view_open_unit view_close_unit in simp_all)

lemma reachable_inv: "heads_apart md5_hex T \<Longrightarrow> reachable md5_hex ttl T sys \<Longrightarrow> sys_inv md5_hex T sys"
proof (rotate_tac, induction rule: reachable.induct)
  case (initial db)
  then show ?case by (simp add: sys_inv_def closed_rows_def)
next
  case (later sys sys')
  then show ?case using sys_inv_step by blast
qed

section \<open>Exclusion\<close>

lemma unclaimed:
  assumes "job_ok md5_hex T (pg_view db) j" "closed_rows (pg_view db)"
    "is_drain (j_run j) \<Longrightarrow> owner_verdict (pg_lease db (run_row m (token (j_run j)))) keys = Inr ()"
  shows "run_row m (token (j_run j)) \<notin> v_claimed (pg_view db)"
proof (cases "is_drain (j_run j)")
  case True
  with assms(3) obtain till where "lease_rows db (run_row m (token (j_run j))) = Some (till, False)"
    by (auto simp: owner_verdict_def pg_lease_def split: option.splits if_splits)
  with assms(2) show ?thesis by (auto simp: closed_rows_def)
next
  case False
  with assms(1) show ?thesis by (auto simp: job_ok_def untouched_def run_row_def)
qed

lemma working_runs:
  assumes "heads_apart md5_hex T" "reachable md5_hex ttl T sys"
    and jobs: "sys_jobs sys tok = Some j" "sys_jobs sys tok' = Some j'" "tok \<noteq> tok'"
    and m: "m \<in> set (j_members j)" "m \<in> set (j_members j')"
    and phases: "working (j_phase j)" "working (j_phase j')"
    and kin: "parent (j_run j) \<noteq> Some tok'" "parent (j_run j') \<noteq> Some tok"
    and owner: "is_drain (j_run j) \<Longrightarrow> owner_verdict (pg_lease (sys_db sys) (run_row m tok)) keys = Inr ()"
    and owner': "is_drain (j_run j') \<Longrightarrow> owner_verdict (pg_lease (sys_db sys) (run_row m tok')) keys' = Inr ()"
  shows "\<not> peer_blocks (peer_of tok) (peer_of tok')"
proof
  assume blocks: "peer_blocks (peer_of tok) (peer_of tok')"
  have "peer_blocks_kinds k k' b \<longleftrightarrow> peer_blocks_kinds k' k b" for k k' b by (cases k; cases k') simp_all
  with blocks have blocks': "peer_blocks (peer_of tok') (peer_of tok)" by (simp add: peer_blocks_def eq_commute)
  have inv: "sys_inv md5_hex T sys" by (rule reachable_inv [OF assms(1,2)])
  note ok = sys_invD(2) [OF inv jobs(1)] sys_invD(2) [OF inv jobs(2)]
  have "rival (j_run j) (token (j_run j'))" "rival (j_run j') (token (j_run j))"
    using ok blocks blocks' kin jobs(3) by (auto simp: rival_def job_ok_def)
  moreover have "run_row m (token (j_run j)) \<notin> v_claimed (pg_view (sys_db sys))"
    "run_row m (token (j_run j')) \<notin> v_claimed (pg_view (sys_db sys))"
    using unclaimed [OF _ sys_invD(1) [OF inv]] ok owner owner' by metis+
  moreover have "announced_phase ph" "\<not> yields md5_hex m t h ph" if "working ph" for ph t h using that by (cases ph; simp)+
  moreover have "pair_ok md5_hex (pg_view (sys_db sys)) j j'" using sys_invD(3) [OF inv jobs(1,2)] jobs(3) by simp
  ultimately show False using m phases by (auto simp: pair_ok_def)
qed

text \<open>
  C5: Two runs never work on one table together, unless both are incremental loads of different
  sources. However the calls of any number of runs are interleaved, whichever of them fail or
  take effect unnoticed, wherever a run stops, however the clock runs: if two runs, neither
  started inside the other, are past their checks of a common table, and each that is a drain
  still owns its lease of it (its row is there and not collected, which every unit of writes
  tests first), then both are incremental and their sources differ. The names of the tables
  must tell them apart.
\<close>

theorem runs_exclude:
  assumes "heads_apart md5_hex T" "reachable md5_hex ttl T sys"
    and "sys_jobs sys tok = Some j" "sys_jobs sys tok' = Some j'" "tok \<noteq> tok'"
    and "m \<in> set (j_members j)" "m \<in> set (j_members j')" "working (j_phase j)" "working (j_phase j')"
    and "parent (j_run j) \<noteq> Some tok'" "parent (j_run j') \<noteq> Some tok"
    and "is_drain (j_run j) \<Longrightarrow> owner_verdict (pg_lease (sys_db sys) (run_row m tok)) keys = Inr ()"
    and "is_drain (j_run j') \<Longrightarrow> owner_verdict (pg_lease (sys_db sys) (run_row m tok')) keys' = Inr ()"
  shows "kind (peer_of tok) = LIncremental \<and> kind (peer_of tok') = LIncremental \<and> source_hash (peer_of tok) \<noteq> source_hash (peer_of tok')"
  using working_runs [OF assms] unfolding peer_blocks_def
  by (cases "kind (peer_of tok)"; cases "kind (peer_of tok')") simp_all

text \<open>A run alone for a while.\<close>

lemma reachable_exec:
  assumes "\<And>q k r. next_call (F (Call q k)) = Some (q, \<lambda>r. F (k r))"
  shows "reachable md5_hex ttl T sys \<Longrightarrow> sys_jobs sys tok = Some j \<Longrightarrow> j_phase j = F p \<Longrightarrow> exec md5_hex ttl p (sys_db sys) = (x, db') \<Longrightarrow>
    reachable md5_hex ttl T (sys\<lparr>sys_db := db', sys_jobs := (sys_jobs sys)(tok \<mapsto> j\<lparr>j_phase := F (Ret x)\<rparr>)\<rparr>)"
proof (induction p arbitrary: sys j)
  case (Ret y)
  have "j\<lparr>j_phase := F (Ret y)\<rparr> = j" using Ret.prems(3) by (cases j) simp
  with Ret.prems have "sys\<lparr>sys_db := db', sys_jobs := (sys_jobs sys)(tok \<mapsto> j\<lparr>j_phase := F (Ret x)\<rparr>)\<rparr> = sys"
    by (cases sys) (auto simp: fun_upd_idem)
  with Ret.prems(1) show ?case by (simp only:)
next
  case (Call q k)
  obtain rep db1 where s: "serve md5_hex ttl (sys_db sys) q = (rep, db1)" by fastforce
  let ?sys = "set_phase tok j (F (k rep)) (sys\<lparr>sys_db := db1\<rparr>)"
  have "step md5_hex ttl T sys ?sys"
    by (rule step.call [OF Call.prems(2) _ answered.served [OF s], of "\<lambda>r. F (k r)"]) (simp add: Call.prems(3) assms)
  with Call.prems(1) have "reachable md5_hex ttl T ?sys" by (rule reachable.later)
  with Call.IH [of "k rep" ?sys "j\<lparr>j_phase := F (k rep)\<rparr>"] Call.prems(4) s show ?case
    by (simp add: set_phase_def fun_upd_same del: fun_upd_apply)
qed

lemma reachable_bulk:
  assumes "reachable md5_hex ttl T sys" "sys_jobs sys tok = Some \<lparr>j_run = run, j_members = [m], j_phase = Announcing (bulk_announce md5_hex run m)\<rparr>"
    "\<not> is_drain run" "exec md5_hex ttl (bulk_announce md5_hex run m) (sys_db sys) = (Inr held, db1)"
    "exec md5_hex ttl (bulk_check md5_hex now run m) db1 = (Inr (), db2)"
  shows "reachable md5_hex ttl T (sys\<lparr>sys_db := db2, sys_jobs := (sys_jobs sys)(tok \<mapsto> \<lparr>j_run = run, j_members = [m], j_phase = Working held\<rparr>)\<rparr>)"
proof -
  let ?at = "\<lambda>ph db. sys\<lparr>sys_db := db, sys_jobs := (sys_jobs sys)(tok \<mapsto> \<lparr>j_run = run, j_members = [m], j_phase = ph\<rparr>)\<rparr>"
  have go: "reachable md5_hex ttl T (?at ph' db)" if "reachable md5_hex ttl T (?at ph db)" "moves md5_hex run [m] ph ph'" for ph ph' db
    using reachable.later [OF that(1) step.move [of _ tok "\<lparr>j_run = run, j_members = [m], j_phase = ph\<rparr>"]] that(2)
    by (simp add: set_phase_def)
  have "reachable md5_hex ttl T (?at (Announcing (Ret (Inr held))) db1)"
    using reachable_exec [of Announcing, OF _ assms(1,2) _ assms(4)] by simp
  then have "reachable md5_hex ttl T (?at (Checking held (bulk_check md5_hex now run m)) db1)"
    by (rule go) (simp add: moves.bulk_announced [OF assms(3)])
  from reachable_exec [of "Checking held", OF _ this, of tok _ "bulk_check md5_hex now run m" "Inr ()" db2]
  have "reachable md5_hex ttl T (?at (Checking held (Ret (Inr ()))) db2)" using assms(5) by simp
  then show ?thesis by (rule go) (rule moves.passed)
qed

text \<open>Two incremental loads of different sources, both past their checks of one table.\<close>

definition sample_md5 :: "bytes \<Rightarrow> bytes" where
  "sample_md5 _ = replicate 32 0x61"

definition load_a :: run_id where
  "load_a = \<lparr>token = ascii ''_0000000a0ab0001'', parent = None\<rparr>"

definition load_b :: run_id where
  "load_b = \<lparr>token = ascii ''_0000000a0cd0001'', parent = None\<rparr>"

definition shared_table :: member where
  "shared_table = (ascii ''s'', ascii ''t'')"

definition sample_catalog :: catalog where
  "sample_catalog = \<lparr>objects = [], lease_rows = Map.empty, clock = 0, locked = [], taken = []\<rparr>"

lemma sample_tokens: "token_wf (token load_a)" "token_wf (token load_b)" "\<not> is_drain load_a" "\<not> is_drain load_b"
  "token load_a \<noteq> token load_b"
  by code_simp+

text \<open>A scan that finds nothing to act on.\<close>

definition nothing_found :: scan where
  "nothing_found = \<lparr>blockers_of = [], mine_leftovers = []\<rparr>"

lemma scan_clear:
  "(\<And>n a. n \<in> set ns \<Longrightarrow> a \<in> set GUARDED \<Longrightarrow> spotted md5_hex b run n a = [] \<and> left_over md5_hex b run n a = []) \<Longrightarrow>
    scan_of md5_hex b run ns = nothing_found"
  by (simp add: scan_of_def nothing_found_def)

lemma decide_clear: "decide g b now policy nothing_found = Ret (Inr ())"
  by (simp add: decide_def nothing_found_def by_token_def try_prog_def)

lemma exec_bulk_check:
  assumes "token_wf (token run)" "scan_of md5_hex (snd m) run (pg_list md5_hex db (fst m) (snd m) Lock @ pg_list md5_hex db (fst m) (snd m) Staging) = nothing_found"
  shows "exec md5_hex ttl (bulk_check md5_hex now run m) db = (Inr (), db)"
  using assms by (simp add: bulk_check_def check_calls decide_clear)

lemma exec_bulk_announce:
  assumes "run_kind run = Inr k" "k \<noteq> LCdc" "(fst m, mark md5_hex (snd m) Lock (token run)) \<notin> set (objects db)"
  shows "\<exists>held. exec md5_hex ttl (bulk_announce md5_hex run m) db =
    (Inr held, db\<lparr>objects := (fst m, mark md5_hex (snd m) Lock (token run)) # objects db\<rparr>)"
proof -
  have "markers k = [Lock]" using assms(2) by (cases k) (simp_all add: markers_def)
  with assms show ?thesis
    by (simp add: bulk_announce_def announce_def try_prog_def prog_simps artifact_ident_run_def Let_def)
qed

definition lock_a :: bytes where
  "lock_a = mark sample_md5 (snd shared_table) Lock (token load_a)"

definition lock_b :: bytes where
  "lock_b = mark sample_md5 (snd shared_table) Lock (token load_b)"

lemma sample_names:
  "lock_a \<noteq> artifact_ident sample_md5 (snd shared_table) Lock PG_IDENT_MAX"
  "lock_b \<noteq> artifact_ident sample_md5 (snd shared_table) Lock PG_IDENT_MAX"
  "classify sample_md5 lock_a (snd shared_table) Staging PG_IDENT_MAX load_a = Foreign"
  "classify sample_md5 lock_a (snd shared_table) Staging PG_IDENT_MAX load_b = Foreign"
  "classify sample_md5 lock_b (snd shared_table) Staging PG_IDENT_MAX load_b = Foreign"
  by code_simp+

lemma sample_apart: "\<not> peer_blocks (peer_of (token load_b)) (peer_of (token load_a))"
proof -
  have "from_letter (token load_a ! 8) = Some LIncremental" "from_letter (token load_b ! 8) = Some LIncremental"
    "take 3 (drop 9 (token load_b)) \<noteq> take 3 (drop 9 (token load_a))" by code_simp+
  then show ?thesis by (simp add: peer_blocks_def peer_of_def)
qed

lemma sample_clear:
  "a \<in> set GUARDED \<Longrightarrow> spotted sample_md5 (snd shared_table) load_a lock_a a = [] \<and> left_over sample_md5 (snd shared_table) load_a lock_a a = []"
  "a \<in> set GUARDED \<Longrightarrow> spotted sample_md5 (snd shared_table) load_b lock_a a = [] \<and> left_over sample_md5 (snd shared_table) load_b lock_a a = []"
  "a \<in> set GUARDED \<Longrightarrow> spotted sample_md5 (snd shared_table) load_b lock_b a = [] \<and> left_over sample_md5 (snd shared_table) load_b lock_b a = []"
proof -
  have mine: "classify sample_md5 lock_a (snd shared_table) Lock PG_IDENT_MAX load_a = Mine"
    "classify sample_md5 lock_b (snd shared_table) Lock PG_IDENT_MAX load_b = Mine"
    using classify_own_table [OF sample_tokens(1), of sample_md5 "snd shared_table" Lock PG_IDENT_MAX load_a]
      classify_own_table [OF sample_tokens(2), of sample_md5 "snd shared_table" Lock PG_IDENT_MAX load_b] sample_names(1,2)
    by (simp_all add: lock_a_def lock_b_def)
  have live: "classify sample_md5 lock_a (snd shared_table) Lock PG_IDENT_MAX load_b = Live (peer_of (token load_a))"
    using classify_own_table [OF sample_tokens(1), of sample_md5 "snd shared_table" Lock PG_IDENT_MAX load_b] sample_names(1) sample_tokens(5)
    by (simp add: lock_a_def load_b_def)
  show "a \<in> set GUARDED \<Longrightarrow> spotted sample_md5 (snd shared_table) load_a lock_a a = [] \<and> left_over sample_md5 (snd shared_table) load_a lock_a a = []"
    "a \<in> set GUARDED \<Longrightarrow> spotted sample_md5 (snd shared_table) load_b lock_a a = [] \<and> left_over sample_md5 (snd shared_table) load_b lock_a a = []"
    "a \<in> set GUARDED \<Longrightarrow> spotted sample_md5 (snd shared_table) load_b lock_b a = [] \<and> left_over sample_md5 (snd shared_table) load_b lock_b a = []"
    using mine live sample_names(3-5) sample_apart by (auto simp: GUARDED_def spotted_def left_over_def)
qed

definition sample_state :: "(member \<times> announced) list \<Rightarrow> (member \<times> announced) list \<Rightarrow> system" where
  "sample_state held_a held_b =
     \<lparr>sys_db = sample_catalog\<lparr>objects := [(fst shared_table, lock_b), (fst shared_table, lock_a)]\<rparr>,
      sys_jobs = [token load_a \<mapsto> \<lparr>j_run = load_a, j_members = [shared_table], j_phase = Working held_a\<rparr>,
        token load_b \<mapsto> \<lparr>j_run = load_b, j_members = [shared_table], j_phase = Working held_b\<rparr>]\<rparr>"

lemma sample_reachable: "\<exists>held_a held_b. reachable sample_md5 300 {shared_table} (sample_state held_a held_b)"
proof -
  let ?job = "\<lambda>run. \<lparr>j_run = run, j_members = [shared_table], j_phase = Announcing (bulk_announce sample_md5 run shared_table)\<rparr>"
  let ?s0 = "\<lparr>sys_db = sample_catalog, sys_jobs = Map.empty\<rparr>"
  let ?s2 = "\<lparr>sys_db = sample_catalog, sys_jobs = [token load_a \<mapsto> ?job load_a, token load_b \<mapsto> ?job load_b]\<rparr>"
  have "reachable sample_md5 300 {shared_table} ?s0" by (rule reachable.initial) (simp add: sample_catalog_def)
  from reachable.later [OF this step.start_bulk [OF sample_tokens(1,3)]]
  have "reachable sample_md5 300 {shared_table} (?s0\<lparr>sys_jobs := [token load_a \<mapsto> ?job load_a]\<rparr>)"
    by (simp add: unused_token_def sample_catalog_def)
  from reachable.later [OF this step.start_bulk [OF sample_tokens(2,4)]]
  have r2: "reachable sample_md5 300 {shared_table} ?s2"
    using sample_tokens(5) by (simp add: unused_token_def sample_catalog_def)
  have kinds: "run_kind load_a = Inr LIncremental" "run_kind load_b = Inr LIncremental" by code_simp+
  let ?da = "sample_catalog\<lparr>objects := [(fst shared_table, lock_a)]\<rparr>"
  let ?db = "sample_catalog\<lparr>objects := [(fst shared_table, lock_b), (fst shared_table, lock_a)]\<rparr>"
  have lists: "pg_list sample_md5 ?da (fst shared_table) (snd shared_table) Lock = [lock_a]"
    "pg_list sample_md5 ?da (fst shared_table) (snd shared_table) Staging = []"
    "pg_list sample_md5 ?db (fst shared_table) (snd shared_table) Lock = [lock_b, lock_a]"
    "pg_list sample_md5 ?db (fst shared_table) (snd shared_table) Staging = []" by code_simp+
  obtain held_a where a: "exec sample_md5 300 (bulk_announce sample_md5 load_a shared_table) sample_catalog = (Inr held_a, ?da)"
    using exec_bulk_announce [OF kinds(1), of shared_table sample_md5 sample_catalog 300] by (auto simp: sample_catalog_def lock_a_def)
  have "exec sample_md5 300 (bulk_check sample_md5 0 load_a shared_table) ?da = (Inr (), ?da)"
    by (rule exec_bulk_check [OF sample_tokens(1)]) (auto simp: lists sample_clear intro!: scan_clear)
  from reachable_bulk [where tok = "token load_a" and held = held_a, OF r2 _ sample_tokens(3) _ this]
  have r3: "reachable sample_md5 300 {shared_table} (?s2\<lparr>sys_db := ?da, sys_jobs := (sys_jobs ?s2)(token load_a \<mapsto>
      \<lparr>j_run = load_a, j_members = [shared_table], j_phase = Working held_a\<rparr>)\<rparr>)" (is "reachable _ _ _ ?s3")
    using a sample_tokens(5) by simp
  have "lock_b \<noteq> lock_a" by code_simp
  then obtain held_b where b: "exec sample_md5 300 (bulk_announce sample_md5 load_b shared_table) ?da = (Inr held_b, ?db)"
    using exec_bulk_announce [OF kinds(2), of shared_table sample_md5 ?da 300] by (auto simp: lock_b_def)
  have "exec sample_md5 300 (bulk_check sample_md5 0 load_b shared_table) ?db = (Inr (), ?db)"
    by (rule exec_bulk_check [OF sample_tokens(2)]) (auto simp: lists sample_clear intro!: scan_clear)
  from reachable_bulk [where tok = "token load_b" and held = held_b, OF r3 _ sample_tokens(4) _ this]
  have "reachable sample_md5 300 {shared_table} (?s3\<lparr>sys_db := ?db, sys_jobs := (sys_jobs ?s3)(token load_b \<mapsto>
      \<lparr>j_run = load_b, j_members = [shared_table], j_phase = Working held_b\<rparr>)\<rparr>)"
    using b sample_tokens(5) by simp
  then show ?thesis using sample_tokens(5) by (auto simp: sample_state_def fun_upd_twist)
qed

theorem runs_exclude_witness:
  "\<exists>held_a held_b. reachable sample_md5 300 {shared_table} (sample_state held_a held_b) \<and>
    kind (peer_of (token load_a)) = LIncremental \<and> kind (peer_of (token load_b)) = LIncremental \<and>
    source_hash (peer_of (token load_a)) \<noteq> source_hash (peer_of (token load_b))"
proof -
  obtain held_a held_b where r: "reachable sample_md5 300 {shared_table} (sample_state held_a held_b)" using sample_reachable by blast
  have "\<forall>(s, b) \<in> {shared_table}. length b \<le> 31" by code_simp
  then have "heads_apart sample_md5 {shared_table}" by (rule heads_apart_short)
  moreover have "parent load_a = None" "parent load_b = None" by (simp_all add: load_a_def load_b_def)
  ultimately have "kind (peer_of (token load_a)) = LIncremental \<and> kind (peer_of (token load_b)) = LIncremental \<and>
    source_hash (peer_of (token load_a)) \<noteq> source_hash (peer_of (token load_b))"
    using runs_exclude [OF _ r, of "token load_a" "\<lparr>j_run = load_a, j_members = [shared_table], j_phase = Working held_a\<rparr>"
        "token load_b" "\<lparr>j_run = load_b, j_members = [shared_table], j_phase = Working held_b\<rparr>" shared_table "[]" "[]"] sample_tokens
    by (simp add: sample_state_def)
  with r show ?thesis by blast
qed

end
