(* ===== verification/Recovery.thy ===== *)
theory Recovery
  imports Rivals
begin

text \<open>
  A drain that stopped anywhere does not block a table for ever: one lease time later the
  next run collects what it left and owns the table.
\<close>

section \<open>Running a program\<close>

lemma exec_bind: "exec md5_hex ttl (bind_prog p f) db = (case exec md5_hex ttl p db of (x, db') \<Rightarrow> exec md5_hex ttl (f x) db')"
  by (induction p arbitrary: db) (auto split: prod.split)

lemma exec_try:
  "exec md5_hex ttl (try_prog p f) db =
    (case exec md5_hex ttl p db of (Inl e, db') \<Rightarrow> (Inl e, db') | (Inr x, db') \<Rightarrow> exec md5_hex ttl (f x) db')"
  by (auto simp: try_prog_def exec_bind split: prod.split sum.split)

definition without :: "bytes \<Rightarrow> bytes list \<Rightarrow> catalog \<Rightarrow> catalog" where
  "without s ns db = db\<lparr>objects := filter (\<lambda>x. x \<notin> Pair s ` set ns) (objects db)\<rparr>"

lemma exec_drop_each: "exec md5_hex ttl (drop_each s ns) db = ([], without s ns db)"
proof (induction ns arbitrary: db)
  case (Cons n ns)
  then show ?case by (simp add: prog_simps exec_bind without_def)
qed (simp add: without_def)

section \<open>Collecting the dead\<close>

definition dead_lease :: "catalog \<Rightarrow> row \<Rightarrow> bool" where
  "dead_lease db row = (case lease_rows db row of Some (till, c) \<Rightarrow> (till \<le> clock db \<or> c) \<and> row \<notin> set (locked db) | None \<Rightarrow> False)"

definition collect_row :: "row \<Rightarrow> catalog \<Rightarrow> catalog" where
  "collect_row row db = db\<lparr>lease_rows := (lease_rows db)(row \<mapsto> (fst (the (lease_rows db row)), True)), taken := row # taken db\<rparr>"

lemma exec_collect_token:
  assumes "dead_lease db (s, pg_label s b, t)"
  shows "exec md5_hex ttl (collect_token (pg_guard s) b now (t, bs)) db =
    (Inr (), without s (map blocker_name bs) (collect_row (s, pg_label s b, t) db))"
proof -
  from assms obtain till c where row: "lease_rows db (s, pg_label s b, t) = Some (till, c)" "till \<le> clock db \<or> c"
    "(s, pg_label s b, t) \<notin> set (locked db)" by (auto simp: dead_lease_def split: option.splits)
  then have "lapsed \<lparr>expires_in = till - clock db, collected = c\<rparr>" by (auto simp: lapsed_def)
  moreover have "pg_claim db (s, pg_label s b, t) = (Taken, collect_row (s, pg_label s b, t) db)"
    using row by (auto simp: pg_claim_def collect_row_def)
  ultimately show ?thesis
    using row(1) by (simp add: collect_token_def Let_def try_prog_def prog_simps pg_lease_def exec_bind exec_drop_each)
qed

lemma dead_after: "dead_lease db row \<Longrightarrow> dead_lease db row' \<Longrightarrow> dead_lease (without s ns (collect_row row' db)) row"
  by (auto simp: dead_lease_def without_def collect_row_def split: option.splits)

text \<open>What a collection leaves: the named objects are gone, no other lease has changed.\<close>

definition collected_from :: "bytes \<Rightarrow> bytes list \<Rightarrow> row set \<Rightarrow> catalog \<Rightarrow> catalog \<Rightarrow> bool" where
  "collected_from s ns rows db db' \<longleftrightarrow> set (objects db') = set (objects db) - Pair s ` set ns \<and>
     (\<forall>row. row \<notin> rows \<longrightarrow> lease_rows db' row = lease_rows db row) \<and> clock db' = clock db"

lemma collected_one: "collected_from s ns {row} db (without s ns (collect_row row db))"
  by (auto simp: collected_from_def without_def collect_row_def)

lemma collected_trans:
  assumes "collected_from s ns rows db db1" "collected_from s ns' rows' db1 db2"
  shows "collected_from s (ns @ ns') (rows \<union> rows') db db2"
proof -
  have "set (objects db2) = set (objects db) - Pair s ` set (ns @ ns')"
    using assms unfolding collected_from_def set_append image_Un Diff_Un by blast
  with assms show ?thesis unfolding collected_from_def by simp
qed

lemma exec_collect_all:
  assumes "\<forall>t \<in> fst ` set tbs. dead_lease db (s, pg_label s b, t)"
  shows "\<exists>db'. exec md5_hex ttl (collect_all (pg_guard s) b now tbs) db = (Inr (), db') \<and>
    collected_from s (map blocker_name (concat (map snd tbs))) ((\<lambda>t. (s, pg_label s b, t)) ` fst ` set tbs) db db'"
  using assms
proof (induction tbs arbitrary: db)
  case (Cons x tbs)
  obtain t bs where x: "x = (t, bs)" by (cases x)
  let ?db = "without s (map blocker_name bs) (collect_row (s, pg_label s b, t) db)"
  have d: "dead_lease db (s, pg_label s b, t)" using Cons.prems x by simp
  have "\<forall>t \<in> fst ` set tbs. dead_lease ?db (s, pg_label s b, t)" using dead_after [OF _ d] Cons.prems by simp
  from Cons.IH [OF this] obtain db' where db': "exec md5_hex ttl (collect_all (pg_guard s) b now tbs) ?db = (Inr (), db')"
    "collected_from s (map blocker_name (concat (map snd tbs))) ((\<lambda>t. (s, pg_label s b, t)) ` fst ` set tbs) ?db db'" by blast
  have "collected_from s (map blocker_name (concat (map snd (x # tbs)))) ((\<lambda>t. (s, pg_label s b, t)) ` fst ` set (x # tbs)) db db'"
    using collected_trans [OF collected_one db'(2)] by (simp add: x)
  then show ?case using db'(1) by (auto simp: x exec_try exec_collect_token [OF d])
qed (simp add: collected_from_def)

lemma exec_check_dead:
  assumes "token_wf (token run)"
    and sc: "sc = scan_of md5_hex b run (pg_list md5_hex db s b Lock @ pg_list md5_hex db s b Staging)"
    and dead: "\<And>x. x \<in> set (blockers_of sc) \<Longrightarrow> \<exists>t. collectable x = Some t \<and> dead_lease db (s, pg_label s b, t)"
  shows "\<exists>db'. exec md5_hex ttl (check_peers md5_hex (pg_guard s) b now run Keep) db = (Inr (), db') \<and>
    collected_from s (map blocker_name (blockers_of sc)) {(s, pg_label s b, t) |t. t \<noteq> token run} db db'"
proof -
  let ?tbs = "by_token (blockers_of sc)"
  have none: "find (\<lambda>x. collectable x = None) (blockers_of sc) = None" using dead by (fastforce simp: find_None_iff)
  have each: "dead_lease db (s, pg_label s b, t)" if "(t, bs) \<in> set ?tbs" for t bs
  proof -
    from that obtain x where "x \<in> set (blockers_of sc)" "collectable x = Some t"
      by (auto simp: by_token_def map_filter_def)
    with dead [of x] show ?thesis by auto
  qed
  then have "\<forall>t \<in> fst ` set ?tbs. dead_lease db (s, pg_label s b, t)" by force
  from exec_collect_all [OF this] obtain db' where db': "exec md5_hex ttl (collect_all (pg_guard s) b now ?tbs) db = (Inr (), db')"
    "collected_from s (map blocker_name (concat (map snd ?tbs))) ((\<lambda>t. (s, pg_label s b, t)) ` fst ` set ?tbs) db db'" by blast
  have "set (concat (map snd ?tbs)) = set (blockers_of sc)"
    using dead by (force simp: by_token_def map_filter_def)
  moreover have "t \<noteq> token run" if "t \<in> fst ` set ?tbs" for t
  proof -
    from that obtain x where "x \<in> set (blockers_of sc)" "collectable x = Some t" by (auto simp: by_token_def map_filter_def)
    then show ?thesis using collectable_blocker unfolding sc by blast
  qed
  ultimately have "collected_from s (map blocker_name (blockers_of sc)) {(s, pg_label s b, t) |t. t \<noteq> token run} db db'"
    using db'(2) unfolding collected_from_def set_map by (smt (verit) image_iff mem_Collect_eq)
  moreover have "exec md5_hex ttl (check_peers md5_hex (pg_guard s) b now run Keep) db = (Inr (), db')"
    using db'(1) none by (simp add: check_calls [OF assms(1)] decide_def exec_try sc)
  ultimately show ?thesis by blast
qed

section \<open>Acquiring\<close>

text \<open>The names of a run on a table whose names need no shortening.\<close>

lemma mark_short: "length b \<le> 31 \<Longrightarrow> mark md5_hex b a tok = b @ tok @ suffix a"
  using suffix_length [of a] match_short [of b a PG_IDENT_MAX md5_hex] by (simp add: artifact_ident_tok_def PG_IDENT_MAX_def RUN_TOKEN_LEN_def)

lemma ident_plain: "length b \<le> 31 \<Longrightarrow> artifact_ident md5_hex b a PG_IDENT_MAX = b @ suffix a"
  using suffix_length [of a] by (intro ident_short) (simp add: PG_IDENT_MAX_def RUN_TOKEN_LEN_def)

lemma classify_short:
  assumes "length b \<le> 31" "token_wf tok"
  shows "classify md5_hex (mark md5_hex b a tok) b a' PG_IDENT_MAX run =
    (if a \<noteq> a' then Foreign else if token run = tok then Mine else if parent run = Some tok then Parent else Live (peer_of tok))"
proof (cases "a = a'")
  case True
  have "tok \<noteq> []" using assms(2) by (auto simp: token_wf_def RUN_TOKEN_LEN_def)
  then have "mark md5_hex b a tok \<noteq> artifact_ident md5_hex b a PG_IDENT_MAX"
    by (simp add: mark_short [OF assms(1)] ident_plain [OF assms(1)])
  then show ?thesis using classify_own_table [OF assms(2), of md5_hex b a PG_IDENT_MAX run] by (simp add: True)
next
  case False
  then have "h @ suffix a \<noteq> g @ suffix a'" for h g using suffix_free by blast
  then have other: "b @ tok @ suffix a \<noteq> g @ suffix a'" for g by (metis append.assoc)
  then have "\<not> ends_with (b @ tok @ suffix a) (suffix a')" by (auto simp: ends_with_def strip_suffix_Some)
  then show ?thesis
    using other [of b] False by (simp add: classify_def mark_short [OF assms(1)] ident_plain [OF assms(1)] split_def match_suffix Let_def)
qed

lemma spotted_own: "length b \<le> 31 \<Longrightarrow> token_wf (token run) \<Longrightarrow> spotted md5_hex b run (mark md5_hex b a (token run)) a' = []"
  by (simp add: spotted_def classify_short)

lemma key_schema_label: "byte_of CHR ''.'' \<notin> set b \<Longrightarrow> key_schema (pg_label s b) = s"
proof -
  assume "byte_of CHR ''.'' \<notin> set b"
  then have "position (\<lambda>x. x = byte_of CHR ''.'') (rev b @ byte_of CHR ''.'' # rev s) = Some (length (rev b))"
    by (intro position_skip) auto
  then show ?thesis by (simp add: key_schema_def rsplit_once_def split_once_def pg_label_def ascii_def byte_of_def)
qed

text \<open>Every other run that shows itself on the table is a drain with a lease row and no open unit.\<close>

definition left_by_drains :: "(bytes \<Rightarrow> bytes) \<Rightarrow> catalog \<Rightarrow> run_id \<Rightarrow> member \<Rightarrow> bool" where
  "left_by_drains md5_hex db run m \<longleftrightarrow> list_all (\<lambda>(s, n). s = fst m \<longrightarrow> list_all (\<lambda>a.
     case classify md5_hex n (snd m) a PG_IDENT_MAX run of
       Legacy \<Rightarrow> False
     | Live p \<Rightarrow> kind p = LCdc \<and> lease_rows db (run_row m (peer_token p)) \<noteq> None \<and> run_row m (peer_token p) \<notin> set (locked db)
     | _ \<Rightarrow> True) GUARDED) (objects db)"

lemma spotted_dead:
  assumes "left_by_drains md5_hex db run (s, b)" "(s, n) \<in> set (objects db)" "a \<in> set GUARDED" "x \<in> set (spotted md5_hex b run n a)"
  shows "\<exists>t. collectable x = Some t \<and> lease_rows db (s, pg_label s b, t) \<noteq> None \<and> (s, pg_label s b, t) \<notin> set (locked db)"
proof -
  have "case classify md5_hex n b a PG_IDENT_MAX run of
       Legacy \<Rightarrow> False
     | Live p \<Rightarrow> kind p = LCdc \<and> lease_rows db (run_row (s, b) (peer_token p)) \<noteq> None \<and> run_row (s, b) (peer_token p) \<notin> set (locked db)
     | _ \<Rightarrow> True"
    using assms(1-3) by (force simp: left_by_drains_def list_all_iff)
  with assms(3,4) show ?thesis
    by (auto simp: spotted_def run_row_def member_key_def GUARDED_def markers_def split: found.splits if_splits)
qed

lemma pg_list_objects: "n \<in> set (pg_list md5_hex db s b a) \<Longrightarrow> (s, n) \<in> set (objects db)"
  by (auto simp: pg_list_def split_def Let_def)

lemma exec_announce_drain:
  assumes "is_drain run"
  shows "\<exists>held db'. exec md5_hex ttl (announce_members md5_hex run [] [(s, b)]) db = (Inr held, db') \<and>
    set (objects db') = set (objects db) \<union> {(s, mark md5_hex b Lock (token run)), (s, mark md5_hex b Staging (token run))} \<and>
    lease_rows db' = lease_rows db \<and> clock db' = clock db \<and> locked db' = locked db"
  using assms
  by (auto simp: is_drain_def announce_def markers_def try_prog_def prog_simps artifact_ident_run_def Let_def exec_bind)

lemma pg_open_one:
  "objects (pg_open ttl db s [k] tok) = objects db" "clock (pg_open ttl db s [k] tok) = clock db" "locked (pg_open ttl db s [k] tok) = locked db"
  "lease_rows (pg_open ttl db s [k] tok) =
     (if lease_rows db (s, k, tok) = None then (lease_rows db)((s, k, tok) \<mapsto> (clock db + ttl, False)) else lease_rows db)"
  by (simp_all add: pg_open_def)


text \<open>A drain that stopped before it gave its table back, and the next one.\<close>

definition stopped_drain :: bytes where
  "stopped_drain = ascii ''_0000000l0ab0001''"

definition next_drain :: run_id where
  "next_drain = \<lparr>token = ascii ''_0000000l0ab0002'', parent = None\<rparr>"

definition left_behind :: catalog where
  "left_behind = \<lparr>objects = [(ascii ''s'', mark (\<lambda>_. []) (ascii ''t'') Lock stopped_drain), (ascii ''s'', mark (\<lambda>_. []) (ascii ''t'') Staging stopped_drain)],
     lease_rows = [(ascii ''s'', ascii ''s.t'', stopped_drain) \<mapsto> (100, False)], clock = 7, locked = [], taken = []\<rparr>"


end
