(* ===== verification/Binlog.thy ===== *)
theory Binlog
  imports Pgbindec
begin

text \<open>
  The MySQL and MariaDB row binlog (\<^verbatim>\<open>wire/mybinlog.rs\<close>): the event header, table maps, rows
  events with their packed values, and the messages they become, in the shape the pgoutput
  decoder gives. A reader is the bytes it has still to read: the source's offset into a slice
  is only ever used to reach them, and an offset that would overflow is past the end as well.
  Shifts and masks of unsigned values are divisions and remainders. Signed fields are
  integers; the digits pushed by hand are bytes and wrap as the release build does.
\<close>

unbundle bit_operations_syntax

section \<open>Event and column codes\<close>

definition HEADER_LEN :: nat where "HEADER_LEN = 19"

definition EV_QUERY :: byte where "EV_QUERY = 2"
definition EV_ROTATE :: byte where "EV_ROTATE = 4"
definition EV_FORMAT_DESCRIPTION :: byte where "EV_FORMAT_DESCRIPTION = 15"
definition EV_XID :: byte where "EV_XID = 16"
definition EV_TABLE_MAP :: byte where "EV_TABLE_MAP = 19"
definition EV_WRITE_ROWS :: byte where "EV_WRITE_ROWS = 30"
definition EV_UPDATE_ROWS :: byte where "EV_UPDATE_ROWS = 31"
definition EV_DELETE_ROWS :: byte where "EV_DELETE_ROWS = 32"
definition EV_HEARTBEAT :: byte where "EV_HEARTBEAT = 27"
definition EV_HEARTBEAT_V2 :: byte where "EV_HEARTBEAT_V2 = 41"
definition EV_TRANSACTION_PAYLOAD :: byte where "EV_TRANSACTION_PAYLOAD = 40"
definition EV_WRITE_ROWS_V1 :: byte where "EV_WRITE_ROWS_V1 = 23"
definition EV_UPDATE_ROWS_V1 :: byte where "EV_UPDATE_ROWS_V1 = 24"
definition EV_DELETE_ROWS_V1 :: byte where "EV_DELETE_ROWS_V1 = 25"
definition EV_MA_ANNOTATE_ROWS :: byte where "EV_MA_ANNOTATE_ROWS = 160"
definition EV_MA_BINLOG_CHECKPOINT :: byte where "EV_MA_BINLOG_CHECKPOINT = 161"
definition EV_MA_GTID :: byte where "EV_MA_GTID = 162"
definition EV_MA_GTID_LIST :: byte where "EV_MA_GTID_LIST = 163"
definition EV_MA_START_ENCRYPTION :: byte where "EV_MA_START_ENCRYPTION = 164"

lemmas event_codes = EV_QUERY_def EV_ROTATE_def EV_FORMAT_DESCRIPTION_def EV_XID_def EV_TABLE_MAP_def EV_WRITE_ROWS_def
  EV_UPDATE_ROWS_def EV_DELETE_ROWS_def EV_HEARTBEAT_def EV_HEARTBEAT_V2_def EV_TRANSACTION_PAYLOAD_def EV_WRITE_ROWS_V1_def
  EV_UPDATE_ROWS_V1_def EV_DELETE_ROWS_V1_def EV_MA_ANNOTATE_ROWS_def EV_MA_BINLOG_CHECKPOINT_def EV_MA_GTID_def
  EV_MA_GTID_LIST_def EV_MA_START_ENCRYPTION_def

definition MT_TINY :: byte where "MT_TINY = 0x01"
definition MT_SHORT :: byte where "MT_SHORT = 0x02"
definition MT_LONG :: byte where "MT_LONG = 0x03"
definition MT_FLOAT :: byte where "MT_FLOAT = 0x04"
definition MT_DOUBLE :: byte where "MT_DOUBLE = 0x05"
definition MT_NULL :: byte where "MT_NULL = 0x06"
definition MT_TIMESTAMP :: byte where "MT_TIMESTAMP = 0x07"
definition MT_LONGLONG :: byte where "MT_LONGLONG = 0x08"
definition MT_INT24 :: byte where "MT_INT24 = 0x09"
definition MT_DATE :: byte where "MT_DATE = 0x0A"
definition MT_YEAR :: byte where "MT_YEAR = 0x0D"
definition MT_VARCHAR :: byte where "MT_VARCHAR = 0x0F"
definition MT_BIT :: byte where "MT_BIT = 0x10"
definition MT_TIMESTAMP2 :: byte where "MT_TIMESTAMP2 = 0x11"
definition MT_DATETIME2 :: byte where "MT_DATETIME2 = 0x12"
definition MT_TIME2 :: byte where "MT_TIME2 = 0x13"
definition MT_JSON :: byte where "MT_JSON = 0xF5"
definition MT_NEWDECIMAL :: byte where "MT_NEWDECIMAL = 0xF6"
definition MT_ENUM :: byte where "MT_ENUM = 0xF7"
definition MT_SET :: byte where "MT_SET = 0xF8"
definition MT_TINY_BLOB :: byte where "MT_TINY_BLOB = 0xF9"
definition MT_MEDIUM_BLOB :: byte where "MT_MEDIUM_BLOB = 0xFA"
definition MT_LONG_BLOB :: byte where "MT_LONG_BLOB = 0xFB"
definition MT_BLOB :: byte where "MT_BLOB = 0xFC"
definition MT_VAR_STRING :: byte where "MT_VAR_STRING = 0xFD"
definition MT_STRING :: byte where "MT_STRING = 0xFE"
definition MT_GEOMETRY :: byte where "MT_GEOMETRY = 0xFF"

lemmas column_codes = MT_TINY_def MT_SHORT_def MT_LONG_def MT_FLOAT_def MT_DOUBLE_def MT_NULL_def MT_TIMESTAMP_def MT_LONGLONG_def
  MT_INT24_def MT_DATE_def MT_YEAR_def MT_VARCHAR_def MT_BIT_def MT_TIMESTAMP2_def MT_DATETIME2_def MT_TIME2_def MT_JSON_def
  MT_NEWDECIMAL_def MT_ENUM_def MT_SET_def MT_TINY_BLOB_def MT_MEDIUM_BLOB_def MT_LONG_BLOB_def MT_BLOB_def MT_VAR_STRING_def
  MT_STRING_def MT_GEOMETRY_def

definition bad :: "string \<Rightarrow> error" where
  "bad what = Transfer (Bad_binlog what)"

section \<open>Headers\<close>

definition from_le_bytes :: "bytes \<Rightarrow> 'a::len word" where
  "from_le_bytes bs = from_be_bytes (rev bs)"

record event_header =
  eh_timestamp :: u32
  eh_event_type :: byte
  eh_event_size :: u32
  eh_log_pos :: u32
  eh_flags :: u16

definition split_event :: "bytes \<Rightarrow> bool \<Rightarrow> (event_header \<times> bytes) result" where
  "split_event ev checksummed =
     (if length ev < HEADER_LEN then Inl (bad ''event shorter than its header'')
      else let h = \<lparr>eh_timestamp = from_le_bytes (take 4 ev), eh_event_type = ev ! 4, eh_event_size = from_le_bytes (take 4 (drop 9 ev)),
                    eh_log_pos = from_le_bytes (take 4 (drop 13 ev)), eh_flags = from_le_bytes (take 2 (drop 17 ev))\<rparr>
           in and_then (if checksummed then (if 4 \<le> length ev then Inr (length ev - 4) else Inl (bad ''no room for checksum''))
                        else Inr (length ev)) (\<lambda>end'.
                if end' < HEADER_LEN then Inl (bad ''event body underflow'')
                else Inr (h, take (end' - HEADER_LEN) (drop HEADER_LEN ev))))"

section \<open>Tables\<close>

record col_def =
  cd_kind :: byte
  cd_meta :: u16
  cd_nullable :: bool
  cd_unsigned :: bool
  cd_binary :: bool
  cd_labels :: "bytes list option"

record table_map =
  tm_table_id :: u64
  tm_db :: bytes
  tm_table :: bytes
  tm_cols :: "col_def list"

record table_schema =
  ts_names :: "bytes list"
  ts_kinds :: "(byte \<times> byte option) option list"
  ts_binaries :: "bool list"
  ts_key :: "bool list"
  ts_unsigned :: "bool list"
  ts_labels :: "bytes list option list"

record binlog_state =
  bs_maps :: "u64 \<Rightarrow> table_map option"
  bs_schemas :: "bytes \<Rightarrow> table_schema option"
  bs_rel_ids :: "bytes \<Rightarrow> u32 option"
  bs_next_rel_id :: u32

definition rel_id_of :: "binlog_state \<Rightarrow> bytes \<Rightarrow> u32 \<times> binlog_state" where
  "rel_id_of st key =
     (case bs_rel_ids st key of
        Some i \<Rightarrow> (i, st)
      | None \<Rightarrow> (bs_next_rel_id st + 1, st\<lparr>bs_next_rel_id := bs_next_rel_id st + 1, bs_rel_ids := (bs_rel_ids st)(key \<mapsto> bs_next_rel_id st + 1)\<rparr>))"

section \<open>The reader\<close>

definition my_u8 :: "bytes \<Rightarrow> (byte \<times> bytes) result" where
  "my_u8 r = (case r of [] \<Rightarrow> Inl (bad ''truncated u8'') | b # r \<Rightarrow> Inr (b, r))"

definition my_take :: "nat \<Rightarrow> bytes \<Rightarrow> (bytes \<times> bytes) result" where
  "my_take n r = (if n \<le> length r then Inr (take n r, drop n r) else Inl (bad ''truncated slice''))"

definition u16le :: "bytes \<Rightarrow> (u16 \<times> bytes) result" where
  "u16le r = and_then (my_take 2 r) (\<lambda>(s, r). Inr (from_le_bytes s, r))"

definition u32le :: "bytes \<Rightarrow> (u32 \<times> bytes) result" where
  "u32le r = and_then (my_take 4 r) (\<lambda>(s, r). Inr (from_le_bytes s, r))"

definition u48le :: "bytes \<Rightarrow> (u64 \<times> bytes) result" where
  "u48le r = and_then (my_take 6 r) (\<lambda>(s, r). Inr (from_le_bytes (s @ [0, 0]), r))"

definition u64le :: "bytes \<Rightarrow> (u64 \<times> bytes) result" where
  "u64le r = and_then (my_take 8 r) (\<lambda>(s, r). Inr (from_le_bytes s, r))"

text \<open>The three-byte little-endian values of the packed formats.\<close>

definition u24le :: "bytes \<Rightarrow> (u32 \<times> bytes) result" where
  "u24le r = and_then (my_take 3 r) (\<lambda>(s, r). Inr (from_le_bytes (s @ [0]), r))"

definition lenenc :: "bytes \<Rightarrow> (u64 \<times> bytes) result" where
  "lenenc r = and_then (my_u8 r) (\<lambda>(first, r).
     if first = 0xFC then and_then (u16le r) (\<lambda>(v, r). Inr (ucast v, r))
     else if first = 0xFD then and_then (u24le r) (\<lambda>(v, r). Inr (ucast v, r))
     else if first = 0xFE then u64le r
     else Inr (ucast first, r))"

section \<open>Lossy text\<close>

text \<open>
  \<^verbatim>\<open>String::from_utf8_lossy\<close>: a maximal prefix of a character that cannot be completed becomes
  one replacement character. \<open>utf8_chunk\<close> gives the length of the next character, or of the
  bytes to replace.
\<close>

definition in_range :: "byte \<Rightarrow> byte \<Rightarrow> bytes \<Rightarrow> bool" where
  "in_range lo hi s = (case s of [] \<Rightarrow> False | b # _ \<Rightarrow> lo \<le> b \<and> b \<le> hi)"

definition utf8_tail :: "nat \<Rightarrow> byte \<Rightarrow> byte \<Rightarrow> bytes \<Rightarrow> bool \<times> nat" where
  "utf8_tail n lo hi s =
     (if \<not> in_range lo hi s then (False, 1)
      else if n = 1 then (True, 2)
      else if \<not> in_range 0x80 0xBF (drop 1 s) then (False, 2)
      else if n = 2 then (True, 3)
      else if \<not> in_range 0x80 0xBF (drop 2 s) then (False, 3)
      else (True, 4))"

definition utf8_chunk :: "byte \<Rightarrow> bytes \<Rightarrow> bool \<times> nat" where
  "utf8_chunk b s =
     (if b < 0x80 then (True, 1)
      else if b < 0xC2 then (False, 1)
      else if b < 0xE0 then utf8_tail 1 0x80 0xBF s
      else if b = 0xE0 then utf8_tail 2 0xA0 0xBF s
      else if b = 0xED then utf8_tail 2 0x80 0x9F s
      else if b < 0xF0 then utf8_tail 2 0x80 0xBF s
      else if b = 0xF0 then utf8_tail 3 0x90 0xBF s
      else if b < 0xF4 then utf8_tail 3 0x80 0xBF s
      else if b = 0xF4 then utf8_tail 3 0x80 0x8F s
      else (False, 1))"

function from_utf8_lossy :: "bytes \<Rightarrow> bytes" where
  "from_utf8_lossy [] = []"
| "from_utf8_lossy (b # s) =
     (let (good, n) = utf8_chunk b s
      in (if good then take n (b # s) else [0xEF, 0xBF, 0xBD]) @ from_utf8_lossy (drop (n - 1) s))"
  by pat_completeness auto

termination
  by (relation "measure length") auto

section \<open>Table maps\<close>

definition one_byte_meta :: "byte list" where
  "one_byte_meta = [MT_FLOAT, MT_DOUBLE, MT_BLOB, MT_TINY_BLOB, MT_MEDIUM_BLOB, MT_LONG_BLOB, MT_GEOMETRY, MT_JSON, MT_TIME2,
     MT_DATETIME2, MT_TIMESTAMP2]"

definition column_meta :: "byte \<Rightarrow> bytes \<Rightarrow> (u16 \<times> bytes) result" where
  "column_meta k blob =
     (if k \<in> set one_byte_meta then
        (case blob of m # blob \<Rightarrow> Inr (ucast m, blob) | [] \<Rightarrow> Inl (bad ''meta underflow''))
      else if k \<in> {MT_VARCHAR, MT_VAR_STRING} then
        (case blob of x # y # blob \<Rightarrow> Inr (from_le_bytes [x, y], blob) | _ \<Rightarrow> Inl (bad ''meta underflow''))
      else if k \<in> {MT_STRING, MT_ENUM, MT_SET, MT_NEWDECIMAL, MT_BIT} then
        (case blob of x # y # blob \<Rightarrow> Inr (push_bit 8 (ucast x) OR ucast y, blob) | _ \<Rightarrow> Inl (bad ''meta underflow''))
      else Inr (0, blob))"

fun column_defs :: "byte list \<Rightarrow> bytes \<Rightarrow> col_def list result" where
  "column_defs [] blob = Inr []"
| "column_defs (k # ks) blob =
     and_then (column_meta k blob) (\<lambda>(meta, blob).
     and_then (column_defs ks blob) (\<lambda>cs.
       Inr (\<lparr>cd_kind = k, cd_meta = meta, cd_nullable = False, cd_unsigned = False, cd_binary = False, cd_labels = None\<rparr> # cs)))"

definition mark_nullable :: "bytes \<Rightarrow> nat \<times> col_def \<Rightarrow> col_def result" where
  "mark_nullable bm = (\<lambda>(i, c). and_then (index_list bm (i div 8)) (\<lambda>b. Inr (c\<lparr>cd_nullable := Bit_Operations.bit b (i mod 8)\<rparr>)))"

definition parse_table_map :: "bytes \<Rightarrow> table_map result" where
  "parse_table_map body =
     and_then (u48le body) (\<lambda>(table_id, r).
     and_then (my_take 2 r) (\<lambda>(_, r).
     and_then (my_u8 r) (\<lambda>(dblen, r).
     and_then (my_take (unat dblen) r) (\<lambda>(db, r).
     and_then (my_u8 r) (\<lambda>(_, r).
     and_then (my_u8 r) (\<lambda>(tlen, r).
     and_then (my_take (unat tlen) r) (\<lambda>(table, r).
     and_then (my_u8 r) (\<lambda>(_, r).
     and_then (lenenc r) (\<lambda>(ncols, r).
     and_then (my_take (unat ncols) r) (\<lambda>(kinds, r).
     and_then (lenenc r) (\<lambda>(metalen, r).
     and_then (my_take (unat metalen) r) (\<lambda>(metablob, r).
     and_then (column_defs kinds metablob) (\<lambda>cols.
     and_then (my_take ((unat ncols + 7) div 8) r) (\<lambda>(bm, r).
     and_then (collect_results (mark_nullable bm) (enumerate 0 cols)) (\<lambda>cols.
       Inr \<lparr>tm_table_id = table_id, tm_db = from_utf8_lossy db, tm_table = from_utf8_lossy table, tm_cols = cols\<rparr>)))))))))))))))"

definition image_bit :: "bytes \<Rightarrow> nat \<Rightarrow> bool" where
  "image_bit bm i = (i div 8 < length bm \<and> Bit_Operations.bit (bm ! (i div 8)) (i mod 8))"

section \<open>Column types\<close>

text \<open>STRING metadata: the high bits of the length are folded into the type byte.\<close>

definition string_meta :: "u16 \<Rightarrow> byte \<times> u16" where
  "string_meta meta =
     (let rt = ucast (drop_bit 8 meta) :: byte; len = meta AND 0xFF
      in if rt AND 0x30 \<noteq> 0x30 then (rt OR 0x30, len OR push_bit 4 ((ucast rt AND 0x30) XOR 0x30)) else (rt, len))"

definition event_real_type :: "col_def \<Rightarrow> byte" where
  "event_real_type c = (if cd_kind c = MT_STRING then fst (string_meta (cd_meta c)) else cd_kind c)"

text \<open>The first word of the catalog's type name, in lower case.\<close>

fun until_space :: "bytes \<Rightarrow> bytes" where
  "until_space [] = []"
| "until_space (b # s) = (if space_prefix (b # s) \<noteq> 0 then [] else b # until_space s)"

definition first_word :: "bytes \<Rightarrow> bytes" where
  "first_word dt = until_space (strip_by space_prefix dt)"

definition catalog_kinds :: "(bytes \<times> byte \<times> byte option) list" where
  "catalog_kinds =
     [(ascii ''tinyint'', MT_TINY, None), (ascii ''smallint'', MT_SHORT, None), (ascii ''mediumint'', MT_INT24, None),
      (ascii ''int'', MT_LONG, None), (ascii ''integer'', MT_LONG, None), (ascii ''bigint'', MT_LONGLONG, None),
      (ascii ''float'', MT_FLOAT, None), (ascii ''double'', MT_DOUBLE, None), (ascii ''decimal'', MT_NEWDECIMAL, None),
      (ascii ''numeric'', MT_NEWDECIMAL, None), (ascii ''timestamp'', MT_TIMESTAMP2, None), (ascii ''datetime'', MT_DATETIME2, None),
      (ascii ''time'', MT_TIME2, None), (ascii ''date'', MT_DATE, None), (ascii ''year'', MT_YEAR, None),
      (ascii ''varchar'', MT_VARCHAR, None), (ascii ''varbinary'', MT_VARCHAR, None), (ascii ''char'', MT_STRING, None),
      (ascii ''binary'', MT_STRING, None), (ascii ''enum'', MT_STRING, Some MT_ENUM), (ascii ''set'', MT_STRING, Some MT_SET),
      (ascii ''bit'', MT_BIT, None), (ascii ''json'', MT_JSON, None), (ascii ''tinytext'', MT_BLOB, None),
      (ascii ''text'', MT_BLOB, None), (ascii ''mediumtext'', MT_BLOB, None), (ascii ''longtext'', MT_BLOB, None),
      (ascii ''tinyblob'', MT_BLOB, None), (ascii ''blob'', MT_BLOB, None), (ascii ''mediumblob'', MT_BLOB, None),
      (ascii ''longblob'', MT_BLOB, None)]"

definition catalog_kind :: "bytes \<Rightarrow> (byte \<times> byte option) option" where
  "catalog_kind dt = map_of catalog_kinds (to_ascii_lowercase (first_word dt))"

section \<open>Digits\<close>

definition DIGITS2 :: bytes where
  "DIGITS2 = ascii (''00010203040506070809'' @ ''10111213141516171819'' @ ''20212223242526272829'' @ ''30313233343536373839'' @
     ''40414243444546474849'' @ ''50515253545556575859'' @ ''60616263646566676869'' @ ''70717273747576777879'' @
     ''80818283848586878889'' @ ''90919293949596979899'')"

definition two_digits :: "nat \<Rightarrow> bytes" where
  "two_digits v = take 2 (drop (v mod 100 * 2) DIGITS2)"

definition push_year :: "number_text \<Rightarrow> nat \<Rightarrow> bytes" where
  "push_year nt y = (if y < 10000 then two_digits (y div 100) @ two_digits (y mod 100) else itoa nt (int y))"

text \<open>The loop of \<^verbatim>\<open>push_padded\<close> and \<^verbatim>\<open>push_frac\<close>.\<close>

fun padded_loop :: "nat \<Rightarrow> nat \<Rightarrow> nat \<Rightarrow> bytes" where
  "padded_loop 0 v pow = []"
| "padded_loop (Suc n) v pow = (0x30 + of_nat (v div pow)) # padded_loop n (v mod pow) (max pow 1 div 10)"

definition push_padded :: "nat \<Rightarrow> nat \<Rightarrow> bytes" where
  "push_padded v width = padded_loop width v (10 ^ (width - 1))"

definition push_frac :: "nat \<Rightarrow> byte \<Rightarrow> bytes" where
  "push_frac frac fsp =
     (if 0 < fsp then
        let digits = min (unat fsp) 6
        in ascii ''.'' @ padded_loop digits (frac div 10 ^ (6 - digits)) (10 ^ (digits - 1))
      else [])"

definition read_frac :: "bytes \<Rightarrow> byte \<Rightarrow> (nat \<times> bytes) result" where
  "read_frac r fsp =
     (if fsp = 0 then Inr (0, r)
      else if fsp \<in> {1, 2} then and_then (my_u8 r) (\<lambda>(b, r). Inr (unat b * 10000, r))
      else if fsp \<in> {3, 4} then and_then (my_take 2 r) (\<lambda>(b, r). Inr (be_nat b * 100, r))
      else and_then (my_take 3 r) (\<lambda>(b, r). Inr (be_nat b, r)))"

section \<open>Values\<close>

definition colon :: bytes where "colon = ascii '':''"
definition dash :: bytes where "dash = ascii ''-''"

definition fmt_epoch :: "number_text \<Rightarrow> nat \<Rightarrow> nat \<Rightarrow> bytes" where
  "fmt_epoch nt secs micros =
     (let days = secs div 86400; rem = secs mod 86400; (y, m, d) = civil_from_days (int days)
      in push_year nt (nat y) @ dash @ two_digits (nat m) @ dash @ two_digits (nat d) @ ascii '' '' @
         two_digits (rem div 3600) @ colon @ two_digits (rem mod 3600 div 60) @ colon @ two_digits (rem mod 60) @
         (if 0 < micros then ascii ''.'' @ two_digits (micros div 10000) @ two_digits (micros div 100 mod 100) @ two_digits (micros mod 100)
          else []) @ ascii ''+00'')"

definition BYTES_FOR :: "nat list" where
  "BYTES_FOR = [0, 1, 1, 2, 2, 3, 3, 4, 4, 4]"

fun int_groups_text :: "number_text \<Rightarrow> nat \<Rightarrow> bytes \<Rightarrow> bytes \<Rightarrow> (bytes \<times> bytes) result" where
  "int_groups_text nt 0 out rd = Inr (out, rd)"
| "int_groups_text nt (Suc n) out rd =
     and_then (my_take 4 rd) (\<lambda>(g, rd).
       let v = be_nat g
       in int_groups_text nt n (if out \<noteq> [] then out @ push_padded v 9 else if v \<noteq> 0 then itoa nt (int v) else out) rd)"

fun frac_groups_text :: "nat \<Rightarrow> bytes \<Rightarrow> (bytes \<times> bytes) result" where
  "frac_groups_text 0 rd = Inr ([], rd)"
| "frac_groups_text (Suc n) rd =
     and_then (my_take 4 rd) (\<lambda>(g, rd). and_then (frac_groups_text n rd) (\<lambda>(out, rd). Inr (push_padded (be_nat g) 9 @ out, rd)))"

text \<open>The digits of the value, its sign bit set right and a negative value complemented.\<close>

definition decimal_digits :: "number_text \<Rightarrow> nat \<Rightarrow> nat \<Rightarrow> bytes \<Rightarrow> bytes result" where
  "decimal_digits nt int_digits scale b =
     (let int_rest = int_digits mod 9; frac_rest = scale mod 9
      in and_then (if 0 < int_rest then
                     and_then (my_take (BYTES_FOR ! int_rest) b) (\<lambda>(g, rd).
                       Inr (if be_nat g \<noteq> 0 then itoa nt (int (be_nat g)) else [], rd))
                   else Inr ([], b)) (\<lambda>(out, rd).
         and_then (int_groups_text nt (int_digits div 9) out rd) (\<lambda>(out, rd).
         let whole = (if out = [] then ascii ''0'' else out)
         in if 0 < scale then
              and_then (frac_groups_text (scale div 9) rd) (\<lambda>(frac, rd).
              if 0 < frac_rest then
                and_then (my_take (BYTES_FOR ! frac_rest) rd) (\<lambda>(g, rd).
                  Inr (whole @ ascii ''.'' @ frac @ push_padded (be_nat g) frac_rest))
              else Inr (whole @ ascii ''.'' @ frac))
            else Inr whole)))"

definition decode_decimal :: "number_text \<Rightarrow> bytes \<Rightarrow> nat \<Rightarrow> nat \<Rightarrow> (bytes \<times> bytes) result" where
  "decode_decimal nt r precision scale =
     (if precision = 0 \<or> 65 < precision \<or> 30 < scale \<or> precision < scale then Inl (Transfer (Decimal_metadata precision scale))
      else let int_digits = precision - scale;
               total = (int_digits div 9 + scale div 9) * 4 + BYTES_FOR ! (int_digits mod 9) + BYTES_FOR ! (scale mod 9)
           in and_then (my_take total r) (\<lambda>(raw, r).
              and_then (index_list raw 0) (\<lambda>b0.
                let negative = \<not> Bit_Operations.bit b0 7;
                    b = raw[0 := b0 XOR 0x80];
                    b = (if negative then map NOT b else b)
                in and_then (decimal_digits nt int_digits scale b) (\<lambda>text.
                     Inr ((if negative then dash else []) @ text, r)))))"

definition render_enum :: "bytes list option \<Rightarrow> u64 \<Rightarrow> bytes result" where
  "render_enum labels v =
     (if v = 0 then Inr []
      else case labels of
             Some l \<Rightarrow> if unat v \<le> length l then index_list l (unat v - 1) else Inl (Transfer (Enum_index v))
           | None \<Rightarrow> Inl (Transfer (Enum_index v)))"

fun join_members :: "u64 \<Rightarrow> nat \<Rightarrow> bytes \<Rightarrow> bytes list \<Rightarrow> bytes" where
  "join_members v i out [] = out"
| "join_members v i out (l # ls) =
     join_members v (i + 1) (if Bit_Operations.bit v (i mod 64) then (if out \<noteq> [] then out @ ascii '','' else out) @ l else out) ls"

definition render_set :: "bytes list option \<Rightarrow> u64 \<Rightarrow> bytes result" where
  "render_set labels v =
     and_then (ok_or (bad ''SET column has no members in the source catalog'') labels) (\<lambda>l.
       let declared = (if 64 \<le> length l then NOT 0 else mask (length l)) :: u64
       in if v AND NOT declared \<noteq> 0 then Inl (Transfer (Set_bits v (length l)))
          else Inr (join_members v 0 [] l))"

text \<open>The bitmask of a SET: at most eight bytes of it, the least significant first.\<close>

definition set_mask :: "bytes \<Rightarrow> u64" where
  "set_mask b = from_le_bytes (take 8 b)"

definition fsp_of :: "col_def \<Rightarrow> byte" where
  "fsp_of c = ucast (cd_meta c)"

definition signed_or :: "number_text \<Rightarrow> bool \<Rightarrow> 'a::len word \<Rightarrow> bytes" where
  "signed_or nt no_sign v = itoa nt (if no_sign then uint v else sint v)"

definition decode_int24 :: "number_text \<Rightarrow> bool \<Rightarrow> u32 \<Rightarrow> bytes" where
  "decode_int24 nt no_sign raw =
     (if no_sign then itoa nt (uint raw)
      else itoa nt (sint (if raw AND 0x800000 \<noteq> 0 then raw OR 0xFF000000 else raw)))"

definition decode_date :: "number_text \<Rightarrow> nat \<Rightarrow> bytes" where
  "decode_date nt v =
     push_year nt (v div 2 ^ 9) @ dash @ two_digits (v div 2 ^ 5 mod 2 ^ 4) @ dash @ two_digits (v mod 2 ^ 5)"

definition decode_timestamp2 :: "number_text \<Rightarrow> col_def \<Rightarrow> bytes \<Rightarrow> (bytes \<times> bytes) result" where
  "decode_timestamp2 nt c r =
     and_then (my_take 4 r) (\<lambda>(b, r).
     and_then (read_frac r (fsp_of c)) (\<lambda>(frac, r).
       Inr (if be_nat b = 0 \<and> frac = 0 then ascii ''0000-00-00 00:00:00+00'' else fmt_epoch nt (be_nat b) frac, r)))"

definition decode_datetime2 :: "number_text \<Rightarrow> col_def \<Rightarrow> bytes \<Rightarrow> (bytes \<times> bytes) result" where
  "decode_datetime2 nt c r =
     and_then (my_take 5 r) (\<lambda>(b, r).
       let v = be_nat b mod 2 ^ 39; ym = v div 2 ^ 22 mod 2 ^ 17
       in and_then (read_frac r (fsp_of c)) (\<lambda>(frac, r).
            Inr (push_year nt (ym div 13) @ dash @ two_digits (ym mod 13) @ dash @ two_digits (v div 2 ^ 17 mod 2 ^ 5) @ ascii '' '' @
              two_digits (v div 2 ^ 12 mod 2 ^ 5) @ colon @ two_digits (v div 2 ^ 6 mod 2 ^ 6) @ colon @ two_digits (v mod 2 ^ 6) @
              push_frac frac (fsp_of c), r)))"

text \<open>
  TIME2 is one signed number: the integer part biased by \<open>0x800000\<close>, and below zero with a
  fraction one second more, the fraction its complement; with five or six digits all six
  bytes are one biased number.
\<close>

definition time2_packed :: "byte \<Rightarrow> bytes \<Rightarrow> (int \<times> bytes) result" where
  "time2_packed fsp r =
     and_then (my_take 3 r) (\<lambda>(b, r).
       let i = int (be_nat b)
       in if fsp = 0 then Inr ((i - 0x800000) * 2 ^ 24, r)
          else if fsp \<in> {1, 2} then and_then (my_u8 r) (\<lambda>(f, r).
            let ip = i - 0x800000; fr = uint f
            in Inr (if ip < 0 \<and> fr \<noteq> 0 then (ip + 1) * 2 ^ 24 + (fr - 0x100) * 10000 else ip * 2 ^ 24 + fr * 10000, r))
          else if fsp \<in> {3, 4} then and_then (my_take 2 r) (\<lambda>(f, r).
            let ip = i - 0x800000; fr = int (be_nat f)
            in Inr (if ip < 0 \<and> fr \<noteq> 0 then (ip + 1) * 2 ^ 24 + (fr - 0x10000) * 100 else ip * 2 ^ 24 + fr * 100, r))
          else and_then (my_take 3 r) (\<lambda>(f, r). Inr (i * 2 ^ 24 + int (be_nat f) - 0x800000000000, r)))"

definition time2_text :: "number_text \<Rightarrow> byte \<Rightarrow> int \<Rightarrow> bytes result" where
  "time2_text nt fsp packed =
     (let a = nat \<bar>packed\<bar>; v = a div 2 ^ 24; frac = a mod 2 ^ 24
      in if 999999 < frac then Inl (bad ''TIME2 fraction out of range'')
         else let h = v div 2 ^ 12 mod 2 ^ 10
              in Inr ((if packed < 0 then dash else []) @ (if h < 100 then two_digits h else itoa nt (int h)) @ colon @
                   two_digits (v div 2 ^ 6 mod 2 ^ 6) @ colon @ two_digits (v mod 2 ^ 6) @ push_frac frac fsp))"

definition decode_time2 :: "number_text \<Rightarrow> col_def \<Rightarrow> bytes \<Rightarrow> (bytes \<times> bytes) result" where
  "decode_time2 nt c r =
     and_then (time2_packed (fsp_of c) r) (\<lambda>(packed, r). and_then (time2_text nt (fsp_of c) packed) (\<lambda>t. Inr (t, r)))"

text \<open>A length of one or two bytes, by the declared length; a length of as many bytes as the metadata says.\<close>

definition short_len :: "bool \<Rightarrow> bytes \<Rightarrow> (nat \<times> bytes) result" where
  "short_len one r =
     (if one then and_then (my_u8 r) (\<lambda>(n, r). Inr (unat n, r)) else and_then (u16le r) (\<lambda>(n, r). Inr (unat n, r)))"

definition blob_len :: "u16 \<Rightarrow> bytes \<Rightarrow> (nat \<times> bytes) result" where
  "blob_len meta r =
     (if meta = 1 then and_then (my_u8 r) (\<lambda>(n, r). Inr (unat n, r))
      else if meta = 2 then and_then (u16le r) (\<lambda>(n, r). Inr (unat n, r))
      else if meta = 3 then and_then (u24le r) (\<lambda>(n, r). Inr (unat n, r))
      else and_then (u32le r) (\<lambda>(n, r). Inr (unat n, r)))"

definition decode_enum :: "col_def \<Rightarrow> bool \<Rightarrow> bytes \<Rightarrow> (bytes \<times> bytes) result" where
  "decode_enum c one r =
     and_then (short_len one r) (\<lambda>(v, r). and_then (render_enum (cd_labels c) (of_nat v)) (\<lambda>t. Inr (t, r)))"

definition decode_set :: "col_def \<Rightarrow> nat \<Rightarrow> bytes \<Rightarrow> (bytes \<times> bytes) result" where
  "decode_set c n r =
     and_then (my_take (max n 1) r) (\<lambda>(b, r). and_then (render_set (cd_labels c) (set_mask b)) (\<lambda>t. Inr (t, r)))"

definition pad_binary :: "col_def \<Rightarrow> nat \<Rightarrow> bytes \<Rightarrow> bytes" where
  "pad_binary c len v = (if cd_binary c \<and> length v < len then v @ replicate (len - length v) 0 else v)"

definition decode_string :: "col_def \<Rightarrow> bytes \<Rightarrow> (bytes \<times> bytes) result" where
  "decode_string c r =
     (let (rt, len) = string_meta (cd_meta c)
      in if rt = MT_ENUM then decode_enum c (len = 1) r
         else if rt = MT_SET then decode_set c (unat len) r
         else and_then (short_len (len < 256) r) (\<lambda>(n, r).
              and_then (my_take n r) (\<lambda>(v, r). Inr (pad_binary c (unat len) v, r))))"

definition decode_cell :: "number_text \<Rightarrow> bytes \<Rightarrow> col_def \<Rightarrow> (bytes \<times> bytes) result" where
  "decode_cell nt r c =
     (let k = cd_kind c; meta = cd_meta c
      in if k = MT_TINY then and_then (my_u8 r) (\<lambda>(v, r). Inr (signed_or nt (cd_unsigned c) v, r))
         else if k = MT_SHORT then and_then (u16le r) (\<lambda>(v, r). Inr (signed_or nt (cd_unsigned c) v, r))
         else if k = MT_INT24 then and_then (u24le r) (\<lambda>(v, r). Inr (decode_int24 nt (cd_unsigned c) v, r))
         else if k = MT_LONG then and_then (u32le r) (\<lambda>(v, r). Inr (signed_or nt (cd_unsigned c) v, r))
         else if k = MT_LONGLONG then and_then (u64le r) (\<lambda>(v, r). Inr (signed_or nt (cd_unsigned c) v, r))
         else if k = MT_FLOAT then and_then (my_take 4 r) (\<lambda>(b, r). Inr (ryu32 nt (from_le_bytes b), r))
         else if k = MT_DOUBLE then and_then (my_take 8 r) (\<lambda>(b, r). Inr (ryu64 nt (from_le_bytes b), r))
         else if k = MT_YEAR then and_then (my_u8 r) (\<lambda>(v, r). Inr (if v = 0 then ascii ''0000'' else itoa nt (1900 + uint v), r))
         else if k = MT_DATE then and_then (u24le r) (\<lambda>(v, r). Inr (decode_date nt (unat v), r))
         else if k = MT_TIMESTAMP then Inl (bad ''the legacy TIMESTAMP binlog encoding'')
         else if k = MT_TIMESTAMP2 then decode_timestamp2 nt c r
         else if k = MT_DATETIME2 then decode_datetime2 nt c r
         else if k = MT_TIME2 then decode_time2 nt c r
         else if k = MT_NEWDECIMAL then decode_decimal nt r (unat (drop_bit 8 meta)) (unat (meta AND 0xFF))
         else if k \<in> {MT_VARCHAR, MT_VAR_STRING} then and_then (short_len (meta < 256) r) (\<lambda>(n, r). my_take n r)
         else if k = MT_BIT then my_take (max (unat (meta AND 0xFF) + of_bool (0 < drop_bit 8 meta)) 1) r
         else if k = MT_STRING then decode_string c r
         else if k = MT_ENUM then decode_enum c (meta AND 0xFF = 1) r
         else if k = MT_SET then decode_set c (unat (meta AND 0xFF)) r
         else if k \<in> {MT_BLOB, MT_TINY_BLOB, MT_MEDIUM_BLOB, MT_LONG_BLOB, MT_GEOMETRY} then and_then (blob_len meta r) (\<lambda>(n, r). my_take n r)
         else if k = MT_JSON then and_then (blob_len meta r) (\<lambda>(n, r). my_take n r)
         else if k = MT_NULL then Inr ([], r)
         else Inl (Transfer (Unsupported_column k)))"

section \<open>Rows\<close>

text \<open>The cells of a row image: the buffer so far, the next column and the next bit of the null bitmap.\<close>

fun row_cells :: "number_text \<Rightarrow> bytes \<Rightarrow> bytes \<Rightarrow> nat \<Rightarrow> nat \<Rightarrow> bytes \<Rightarrow> cellr list \<Rightarrow> col_def list \<Rightarrow> bytes \<Rightarrow> (bytes \<times> cellr list \<times> bytes) result" where
  "row_cells nt present nullbm i k buf cs0 [] r = Inr (buf, cs0, r)"
| "row_cells nt present nullbm i k buf cs0 (c # cs) r =
     (if \<not> image_bit present i then row_cells nt present nullbm (i + 1) k buf (cs0 @ [RUnchangedToast]) cs r
      else if image_bit nullbm k then row_cells nt present nullbm (i + 1) (k + 1) buf (cs0 @ [RNull]) cs r
      else and_then (decode_cell nt r c) (\<lambda>(v, r).
        row_cells nt present nullbm (i + 1) (k + 1) (buf @ v) (cs0 @ [RText (of_nat (length buf)) (of_nat (length v))]) cs r))"

definition read_row :: "number_text \<Rightarrow> bytes \<Rightarrow> col_def list \<Rightarrow> bytes \<Rightarrow> nat \<Rightarrow> (tuple \<times> bytes) result" where
  "read_row nt r cols present ncols =
     (let n_present = length (filter (image_bit present) [0..<ncols])
      in and_then (my_take ((n_present + 7) div 8) r) (\<lambda>(nullbm, r).
         and_then (row_cells nt present nullbm 0 0 [] [] (take ncols cols) r) (\<lambda>(buf, cs0, r).
           Inr (from_rendered buf cs0, r))))"

datatype row_op = RInsert | RUpdate | RDelete

definition row_op_of :: "byte \<Rightarrow> row_op result" where
  "row_op_of k =
     (if k \<in> {EV_WRITE_ROWS, EV_WRITE_ROWS_V1} then Inr RInsert
      else if k \<in> {EV_UPDATE_ROWS, EV_UPDATE_ROWS_V1} then Inr RUpdate
      else if k \<in> {EV_DELETE_ROWS, EV_DELETE_ROWS_V1} then Inr RDelete
      else Inl (bad ''not a rows event''))"

type_synonym images = "tuple option \<times> tuple option"

record rows_event =
  re_table_id :: u64
  re_rows :: "images list"

definition read_images :: "number_text \<Rightarrow> row_op \<Rightarrow> col_def list \<Rightarrow> bytes \<Rightarrow> bytes \<Rightarrow> nat \<Rightarrow> bytes \<Rightarrow> (images \<times> bytes) result" where
  "read_images nt op cols present1 present2 ncols r =
     (case op of
        RInsert \<Rightarrow> and_then (read_row nt r cols present1 ncols) (\<lambda>(t, r). Inr ((None, Some t), r))
      | RDelete \<Rightarrow> and_then (read_row nt r cols present1 ncols) (\<lambda>(t, r). Inr ((Some t, None), r))
      | RUpdate \<Rightarrow>
          and_then (read_row nt r cols present1 ncols) (\<lambda>(before, r).
          and_then (read_row nt r cols present2 ncols) (\<lambda>(after, r). Inr ((Some before, Some after), r))))"

text \<open>The loop over the rows; \<open>None\<close> would be a loop that does not end.\<close>

partial_function (option) rows_loop ::
  "number_text \<Rightarrow> row_op \<Rightarrow> col_def list \<Rightarrow> bytes \<Rightarrow> bytes \<Rightarrow> nat \<Rightarrow> images list \<Rightarrow> bytes \<Rightarrow> images list result option" where
  "rows_loop nt op cols present1 present2 ncols rows r =
     (if r = [] then Some (Inr rows)
      else case read_images nt op cols present1 present2 ncols r of
             Inl e \<Rightarrow> Some (Inl e)
           | Inr (row, r') \<Rightarrow>
               if length r' = length r then Some (Inl (bad ''rows event stopped consuming bytes with data still left''))
               else rows_loop nt op cols present1 present2 ncols (rows @ [row]) r')"

text \<open>The extra data that only the second version of the event has; the after-image's bitmap of an update.\<close>

definition skip_extra :: "byte \<Rightarrow> bytes \<Rightarrow> bytes result" where
  "skip_extra k r =
     (if k \<in> {EV_WRITE_ROWS, EV_UPDATE_ROWS, EV_DELETE_ROWS} then
        and_then (u16le r) (\<lambda>(extra, r).
          if 2 \<le> unat extra then and_then (my_take (unat extra - 2) r) (\<lambda>(_, r). Inr r) else Inr r)
      else Inr r)"

definition second_bitmap :: "row_op \<Rightarrow> nat \<Rightarrow> bytes \<Rightarrow> (bytes \<times> bytes) result" where
  "second_bitmap op ncols r = (if op = RUpdate then my_take ((ncols + 7) div 8) r else Inr ([], r))"

text \<open>What comes before the rows: the columns, the bitmaps, and the operation.\<close>

definition rows_header :: "bytes \<Rightarrow> byte \<Rightarrow> table_map \<Rightarrow> (row_op \<times> u64 \<times> nat \<times> bytes \<times> bytes \<times> bytes) result" where
  "rows_header body k tm =
     and_then (row_op_of k) (\<lambda>op.
     and_then (u48le body) (\<lambda>(table_id, r).
     and_then (my_take 2 r) (\<lambda>(_, r).
     and_then (skip_extra k r) (\<lambda>r.
     and_then (lenenc r) (\<lambda>(ncols, r).
       if ncols = 0 \<or> length (tm_cols tm) < unat ncols then Inl (Transfer (Rows_columns (unat ncols) (length (tm_cols tm))))
       else
         and_then (my_take ((unat ncols + 7) div 8) r) (\<lambda>(present1, r).
         and_then (second_bitmap op (unat ncols) r) (\<lambda>(present2, r).
           Inr (op, table_id, unat ncols, present1, present2, r))))))))"

definition parse_rows :: "number_text \<Rightarrow> bytes \<Rightarrow> byte \<Rightarrow> table_map \<Rightarrow> rows_event result option" where
  "parse_rows nt body k tm =
     (case rows_header body k tm of
        Inl e \<Rightarrow> Some (Inl e)
      | Inr (op, table_id, ncols, present1, present2, r) \<Rightarrow>
          map_option (\<lambda>res. and_then res (\<lambda>rows. Inr \<lparr>re_table_id = table_id, re_rows = rows\<rparr>))
            (rows_loop nt op (tm_cols tm) present1 present2 ncols [] r))"

section \<open>Other events\<close>

definition parse_query :: "bytes \<Rightarrow> (bytes \<times> bytes) result" where
  "parse_query body =
     and_then (u32le body) (\<lambda>(_, r).
     and_then (u32le r) (\<lambda>(_, r).
     and_then (my_u8 r) (\<lambda>(dblen, r).
     and_then (u16le r) (\<lambda>(_, r).
     and_then (u16le r) (\<lambda>(statuslen, r).
     and_then (my_take (unat statuslen) r) (\<lambda>(_, r).
     and_then (my_take (unat dblen) r) (\<lambda>(db, r).
     and_then (my_u8 r) (\<lambda>(_, r).
       Inr (from_utf8_lossy db, from_utf8_lossy r)))))))))"

definition parse_rotate :: "bytes \<Rightarrow> (u64 \<times> bytes) result" where
  "parse_rotate body = and_then (u64le body) (\<lambda>(p, r). Inr (p, from_utf8_lossy r))"

section \<open>Messages\<close>

definition message_of :: "row_op \<Rightarrow> u32 \<Rightarrow> images \<Rightarrow> pgo_message result" where
  "message_of op rel row =
     (case (op, row) of
        (RInsert, _, after) \<Rightarrow> and_then (ok_or (bad ''insert without image'') after) (\<lambda>t. Inr (Pgo_Insert rel t))
      | (RDelete, before, _) \<Rightarrow>
          and_then (ok_or (bad ''delete without image'') before) (\<lambda>t. Inr (Pgo_Delete rel \<lparr>full = True, old_tuple = t\<rparr>))
      | (RUpdate, before, after) \<Rightarrow>
          and_then (ok_or (bad ''update without after-image'') after) (\<lambda>t.
            Inr (Pgo_Update rel (map_option (\<lambda>t. \<lparr>full = True, old_tuple = t\<rparr>) before) t)))"

definition relation_of :: "u32 \<Rightarrow> table_map \<Rightarrow> table_schema \<Rightarrow> relation" where
  "relation_of rel tm schema =
     \<lparr>rel_id = rel, namespace = tm_db tm, rel_name = tm_table tm, replica_identity = byte_of CHR ''i'',
      rel_cols = map (\<lambda>(i, n). \<lparr>rc_key = (i < length (ts_key schema) \<and> ts_key schema ! i), rc_name = n, rc_type_oid = 0, rc_type_mod = -1\<rparr>)
        (enumerate 0 (ts_names schema))\<rparr>"

definition to_messages :: "binlog_state \<Rightarrow> byte \<Rightarrow> rows_event \<Rightarrow> pgo_message list result \<times> binlog_state" where
  "to_messages st k ev =
     (case bs_maps st (re_table_id ev) of
        None \<Rightarrow> (Inl (bad ''rows event before its TABLE_MAP''), st)
      | Some tm \<Rightarrow>
          let qname = tm_db tm @ ascii ''.'' @ tm_table tm
          in case bs_schemas st qname of
               None \<Rightarrow> (Inl (Transfer (No_schema qname)), st)
             | Some schema \<Rightarrow>
                 let (rel, st) = rel_id_of st qname
                 in (and_then (row_op_of k) (\<lambda>op.
                     and_then (collect_results (message_of op rel) (re_rows ev)) (\<lambda>ms.
                       Inr (Pgo_Relation (relation_of rel tm schema) # ms))), st))"

definition skippable :: "byte \<Rightarrow> bool" where
  "skippable t \<longleftrightarrow> t \<in> {EV_HEARTBEAT, EV_HEARTBEAT_V2, 33, 34, 35, 42, 3, 5, 9, 1, 13, 14, 28, 29, 36, 37, EV_MA_ANNOTATE_ROWS,
     EV_MA_BINLOG_CHECKPOINT, EV_MA_GTID_LIST, EV_MA_START_ENCRYPTION}"

definition is_rows :: "byte \<Rightarrow> bool" where
  "is_rows t \<longleftrightarrow> t \<in> {EV_WRITE_ROWS, EV_UPDATE_ROWS, EV_DELETE_ROWS, EV_WRITE_ROWS_V1, EV_UPDATE_ROWS_V1, EV_DELETE_ROWS_V1}"

definition is_tx_start :: "byte \<Rightarrow> bool" where
  "is_tx_start t \<longleftrightarrow> t = EV_MA_GTID"

definition unhandled_hint :: "byte \<Rightarrow> string" where
  "unhandled_hint t =
     (if t = 39 then ''partial JSON update rows''
      else if t = 26 then ''INCIDENT''
      else if 165 \<le> t \<and> t \<le> 171 then ''compressed query/rows events''
      else if t \<in> {6, 8, 10, 11, 12, 17, 18} then ''LOAD DATA statement-based events''
      else if 20 \<le> t \<and> t \<le> 22 then ''pre-GA rows events''
      else if t = 38 then ''XA PREPARE''
      else ''unknown event type'')"

definition unhandled :: "byte \<Rightarrow> error" where
  "unhandled t = Transfer (Unhandled_event t (unhandled_hint t))"

end
