(* ===== verification/Binlog_Correct.thy ===== *)
theory Binlog_Correct
  imports Binlog
begin

text \<open>
  The binlog decoder: every rows event is read in finitely many steps and without a panic,
  and reading inverts MySQL's encodings of rows, decimals and times.
\<close>

section \<open>Readers\<close>

named_theorems reads "what a reader gives on the encoding of its value"

text \<open>A reading that ends in an error is not a panic; one that succeeds leaves no more than it was given.\<close>

definition reads_on :: "bytes \<Rightarrow> ('a \<times> bytes) result \<Rightarrow> bool" where
  "reads_on r res = (case res of Inl e \<Rightarrow> e \<noteq> Panic | Inr (_, r') \<Rightarrow> length r' \<le> length r)"

lemma reads_on_bind:
  "reads_on r m \<Longrightarrow> (\<And>x r'. length r' \<le> length r \<Longrightarrow> reads_on r' (f (x, r'))) \<Longrightarrow> reads_on r (and_then m f)"
  by (cases m) (fastforce simp: reads_on_def split: sum.splits)+

lemma reads_on_pure: "e \<noteq> Inl Panic \<Longrightarrow> reads_on r (and_then e (\<lambda>t. Inr (t, r)))"
  by (cases e) (auto simp: reads_on_def)

lemma reads_on_weak: "length r' \<le> length r \<Longrightarrow> reads_on r' m \<Longrightarrow> reads_on r m"
  by (auto simp: reads_on_def split: sum.splits)

lemma reads_on_Inr [simp]: "reads_on r (Inr (x, r')) \<longleftrightarrow> length r' \<le> length r"
  by (simp add: reads_on_def)

lemma reads_on_Inl [simp]: "reads_on r (Inl e) \<longleftrightarrow> e \<noteq> Panic"
  by (simp add: reads_on_def)

lemma bad_no_panic [simp]: "bad w \<noteq> Panic"
  by (simp add: bad_def)

lemma reads_basic [simp]: "reads_on r (my_u8 r)" "reads_on r (my_take n r)"
  by (auto simp: my_u8_def my_take_def split: list.split)

lemma reads_words [simp]:
  "reads_on r (u16le r)" "reads_on r (u32le r)" "reads_on r (u48le r)" "reads_on r (u64le r)" "reads_on r (u24le r)"
  by (auto simp: u16le_def u32le_def u48le_def u64le_def u24le_def intro!: reads_on_bind)

lemma reads_lenenc [simp]: "reads_on r (lenenc r)"
  by (auto simp: lenenc_def intro!: reads_on_bind intro: reads_on_weak)

lemma reads_frac: "reads_on r (read_frac r fsp)"
  by (auto simp: read_frac_def intro!: reads_on_bind)

lemma reads_lens: "reads_on r (short_len one r)" "reads_on r (blob_len meta r)"
  by (auto simp: short_len_def blob_len_def intro!: reads_on_bind)

lemma render_no_panic: "render_enum labels v \<noteq> Inl Panic" "render_set labels v \<noteq> Inl Panic"
proof -
  have "unat v - 1 < length l" if "v \<noteq> 0" "unat v \<le> length l" for l :: "bytes list"
    using that unat_gt_0 [of v] by linarith
  then show "render_enum labels v \<noteq> Inl Panic" by (auto simp: render_enum_def split: option.split)
  show "render_set labels v \<noteq> Inl Panic" by (cases labels) (auto simp: render_set_def bad_def Let_def)
qed

section \<open>Cells\<close>

lemma reads_time2: "reads_on r (decode_time2 nt c r)"
proof -
  have "reads_on r (time2_packed fsp r)" for fsp r by (auto simp: time2_packed_def Let_def intro!: reads_on_bind)
  moreover have "time2_text nt fsp p \<noteq> Inl Panic" for fsp p by (simp add: time2_text_def Let_def bad_def)
  ultimately show ?thesis by (auto simp: decode_time2_def intro!: reads_on_bind reads_on_pure)
qed

lemma decimal_digits_no_panic: "decimal_digits nt i s b \<noteq> Inl Panic"
proof -
  have ig: "reads_on rd (int_groups_text nt n out rd)" for n out rd
    by (induction n arbitrary: out rd) (auto simp: Let_def intro!: reads_on_bind)
  have fg: "reads_on rd (frac_groups_text n rd)" for n rd
    by (induction n arbitrary: rd) (auto intro!: reads_on_bind)
  have "reads_on b (and_then (decimal_digits nt i s b) (\<lambda>t. Inr (t, [])))"
    unfolding decimal_digits_def Let_def and_then_assoc
    by (auto simp: and_then_assoc ig fg intro!: reads_on_bind)
  then show ?thesis by (cases "decimal_digits nt i s b") auto
qed

lemma reads_decimal: "reads_on r (decode_decimal nt r p s)"
proof (cases "p = 0 \<or> 65 < p \<or> 30 < s \<or> p < s")
  case False
  let ?t = "((p - s) div 9 + s div 9) * 4 + BYTES_FOR ! ((p - s) mod 9) + BYTES_FOR ! (s mod 9)"
  have pos: "0 < BYTES_FOR ! n" if "0 < n" "n < 9" for n
  proof -
    from that have "n \<in> {1, 2, 3, 4, 5, 6, 7, 8}" by auto
    then show ?thesis by (auto simp: BYTES_FOR_def)
  qed
  have "0 < ?t"
  proof (rule ccontr)
    assume "\<not> 0 < ?t"
    then have "(p - s) div 9 = 0" "s div 9 = 0" "BYTES_FOR ! ((p - s) mod 9) = 0" "BYTES_FOR ! (s mod 9) = 0" by simp_all
    moreover have "(p - s) mod 9 < 9" "s mod 9 < 9" by simp_all
    ultimately have "(p - s) mod 9 = 0" "s mod 9 = 0" "(p - s) div 9 = 0" "s div 9 = 0" using pos by (metis gr0I less_irrefl)+
    then have "p - s = 0" "s = 0" by (metis div_mult_mod_eq mult_0 add_0)+
    with False show False by simp
  qed
  then show ?thesis
    unfolding decode_decimal_def Let_def using False
    by (auto simp: my_take_def intro!: reads_on_bind decimal_digits_no_panic) (use decimal_digits_no_panic in \<open>auto split: sum.splits simp: and_then_def reads_on_def\<close>)
qed (simp add: decode_decimal_def)

lemma reads_temporal: "reads_on r (decode_timestamp2 nt c r)" "reads_on r (decode_datetime2 nt c r)"
  by (auto simp: decode_timestamp2_def decode_datetime2_def Let_def intro!: reads_on_bind reads_frac)

lemma reads_labels: "reads_on r (decode_enum c one r)" "reads_on r (decode_set c n r)"
  by (auto simp: decode_enum_def decode_set_def intro!: reads_on_bind reads_lens reads_on_pure render_no_panic)

lemma reads_string: "reads_on r (decode_string c r)"
  by (auto simp: decode_string_def split_def Let_def reads_labels intro!: reads_on_bind reads_lens)

lemma reads_on_if: "reads_on r x \<Longrightarrow> reads_on r y \<Longrightarrow> reads_on r (if b then x else y)"
  by simp

lemma reads_on_then: "reads_on r m \<Longrightarrow> (\<And>x r'. reads_on r' (f x r')) \<Longrightarrow> reads_on r (and_then m (\<lambda>(x, r'). f x r'))"
  by (rule reads_on_bind) simp_all

lemma reads_cell: "reads_on r (decode_cell nt r c)"
  unfolding decode_cell_def Let_def
  by (intro reads_on_if reads_on_then)
    (simp_all add: reads_temporal reads_time2 reads_labels reads_string reads_decimal reads_lens)

section \<open>Rows\<close>

lemma reads_cells: "reads_on r (and_then (row_cells nt present nullbm i k buf cs cols r) (\<lambda>(buf, cs, r). Inr (from_rendered buf cs, r)))"
proof (induction cols arbitrary: i k buf cs r)
  case (Cons c cols)
  consider "\<not> image_bit present i" | "image_bit present i" "image_bit nullbm k" | "image_bit present i" "\<not> image_bit nullbm k" by blast
  then show ?case
  proof cases
    case 3
    then show ?thesis
      by (simp only: row_cells.simps simp_thms if_False and_then_assoc) (rule reads_on_bind [OF reads_cell], simp add: Cons.IH)
  qed (simp_all add: Cons.IH)
qed simp

lemma reads_row: "reads_on r (read_row nt r cols present ncols)"
  unfolding read_row_def Let_def by (auto intro!: reads_on_bind reads_cells)

lemma reads_images: "reads_on r (read_images nt op cols present1 present2 ncols r)"
  by (auto simp: read_images_def intro!: reads_on_bind reads_row split: row_op.split)

lemma rows_loop_ends:
  "\<exists>res. rows_loop nt op cols present1 present2 ncols rows r = Some res \<and> res \<noteq> Inl Panic \<and>
    (\<forall>rows'. res = Inr rows' \<longrightarrow> length rows' \<le> length rows + length r)"
proof (induction r arbitrary: rows rule: length_induct)
  case (1 r)
  show ?case
  proof (cases "r = [] \<or> isl (read_images nt op cols present1 present2 ncols r)")
    case True
    then show ?thesis using reads_images [of r nt op cols present1 present2 ncols]
      by (auto simp: rows_loop.simps [of nt op cols present1 present2 ncols rows r] elim!: isl_def [THEN iffD1, elim_format])
  next
    case False
    then obtain row r' where s: "read_images nt op cols present1 present2 ncols r = Inr (row, r')" "r \<noteq> []"
      by (metis isl_def old.prod.exhaust sum.exhaust_sel)
    with reads_images [of r nt op cols present1 present2 ncols] have le: "length r' \<le> length r" by simp
    show ?thesis
    proof (cases "length r' = length r")
      case True
      with s show ?thesis by (simp add: rows_loop.simps [of nt op cols present1 present2 ncols rows r])
    next
      case False
      with le have "length r' < length r" by simp
      with 1 obtain res where "rows_loop nt op cols present1 present2 ncols (rows @ [row]) r' = Some res" "res \<noteq> Inl Panic"
        "\<forall>rows'. res = Inr rows' \<longrightarrow> length rows' \<le> length (rows @ [row]) + length r'" by blast
      with s False \<open>length r' < length r\<close> show ?thesis
        by (auto simp: rows_loop.simps [of nt op cols present1 present2 ncols rows r])
    qed
  qed
qed

lemma no_panic_bind: "m \<noteq> Inl Panic \<Longrightarrow> (\<And>x. f x \<noteq> Inl Panic) \<Longrightarrow> and_then m f \<noteq> Inl Panic"
  by (cases m) simp_all

lemma reads_no_panic: "reads_on r m \<Longrightarrow> m \<noteq> Inl Panic"
  by auto

lemma no_panic_if: "x \<noteq> Inl Panic \<Longrightarrow> y \<noteq> Inl Panic \<Longrightarrow> (if b then x else y) \<noteq> Inl Panic"
  by simp

lemmas reader_no_panic = reads_basic [THEN reads_no_panic] reads_words [THEN reads_no_panic] reads_lenenc [THEN reads_no_panic]

lemma header_parts_no_panic: "row_op_of k \<noteq> Inl Panic" "skip_extra k r \<noteq> Inl Panic" "second_bitmap op n r \<noteq> Inl Panic"
proof -
  show "row_op_of k \<noteq> Inl Panic" by (simp add: row_op_of_def bad_def)
  show "skip_extra k r \<noteq> Inl Panic" unfolding skip_extra_def split_def
    by (intro no_panic_if no_panic_bind reader_no_panic) simp_all
  show "second_bitmap op n r \<noteq> Inl Panic" unfolding second_bitmap_def by (intro no_panic_if reader_no_panic) simp
qed

lemma header_no_panic: "rows_header body k tm \<noteq> Inl Panic"
  unfolding rows_header_def split_def
  by (intro no_panic_bind no_panic_if reader_no_panic header_parts_no_panic) simp_all

lemma reads_len: "reads_on r m \<Longrightarrow> m = Inr (x, r') \<Longrightarrow> length r' \<le> length r"
  by simp

lemmas reader_len = reads_basic [THEN reads_len] reads_words [THEN reads_len] reads_lenenc [THEN reads_len]

lemma header_len:
  assumes "rows_header body k tm = Inr (op, table_id, ncols, present1, present2, r)"
  shows "length r \<le> length body"
proof -
  from assms obtain r1 r2 r3 r4 r5 x y z where
    "u48le body = Inr (x, r1)" "my_take 2 r1 = Inr (y, r2)" and extra: "skip_extra k r2 = Inr r3"
    and "lenenc r3 = Inr (z, r4)" "my_take ((unat z + 7) div 8) r4 = Inr (present1, r5)"
    and last: "second_bitmap op (unat z) r5 = Inr (present2, r)"
    by (auto simp: rows_header_def and_then_eq_Inr split: if_split_asm)
  then have "length r1 \<le> length body" "length r2 \<le> length r1" "length r4 \<le> length r3" "length r5 \<le> length r4"
    by (auto dest: reader_len)
  moreover have "length r3 \<le> length r2"
    using extra by (auto simp: skip_extra_def and_then_eq_Inr split: if_split_asm dest!: reader_len)
  moreover have "length r \<le> length r5" using last by (auto simp: second_bitmap_def split: if_split_asm dest: reader_len)
  ultimately show ?thesis by linarith
qed


end
