(* ===== verification/Spec2Isabelle.thy ===== *)
theory Spec2Isabelle
  imports Replay Drain_Correct Binary_Rows Transcoder Watermark Exclusion Recovery Binlog_Correct
begin

text \<open>
  A verification library for the change-data-capture core of apitap
  (\<^verbatim>\<open>crates/apitap-core/src\<close>). apitap copies tables between databases; its log-based mode
  reads the write-ahead log of a PostgreSQL source, gathers the committed changes into a
  window per table, and applies the windows to a destination. The library models that path
  from the bytes of the replication stream to the text the destinations are sent.

  The path, and the theory that models each part (one group of definitions per source file,
  in the order of the file; operations keep their Rust names, a method prefixed by its type
  where the bare name is taken):

  \<^item> \<open>Apitap_Prelude\<close>: bytes and machine integers as words, \<^verbatim>\<open>Result\<close> as a sum whose error side
    has one constructor per refusal and \<open>Panic\<close> for a Rust panic, slices and indexing that
    panic out of range, decimal, hexadecimal and UTF-8 text, and the locales of fallible
    state machines (\<open>fallible_machine\<close>, \<open>refining_machine\<close>) that the component proofs
    interpret.
  \<^item> \<open>Pgoutput\<close> (\<^verbatim>\<open>wire/pgoutput.rs\<close>): the bounds-checked reader, the decoder of every message,
    tuples as ranges into the message frame, LSN text. Shown: decoding never panics, every
    range lies in its frame, decoding inverts the documented encoding of the row messages,
    LSN text round trips.
  \<^item> \<open>Layout\<close> (\<^verbatim>\<open>logbased/window.rs\<close>): which relations a table layout accepts and the key
    positions it computes.
  \<^item> \<open>Collapse\<close>, \<open>Replica\<close>, \<open>Collapse_Correct\<close> (\<^verbatim>\<open>logbased/collapse.rs\<close>): the collapser, a
    reference replica that replays events one by one, and the refinement: applying the
    collapsed window (truncate, deletes, upserts, residue, as \<^verbatim>\<open>dest_pg.rs\<close> orders them) leaves
    the table the replay leaves. Also the shape of a collapsed window, what its upserts
    hold, deferrable-key swaps, and where applying a window twice is and is not idempotent.
  \<^item> \<open>Changelog\<close> (\<^verbatim>\<open>logbased/changelog.rs\<close>): the append-only lane; unsent values are rebuilt
    from the rest of the window or a readback, and the written log determines the table.
  \<^item> \<open>Window\<close> (\<^verbatim>\<open>logbased/window.rs\<close>): sealed tables, slices, the test for parallel apply.
  \<^item> \<open>Resolve\<close> (\<^verbatim>\<open>logbased/resolve.rs\<close>): one image per key for the destinations that apply sets
    of images; the images give the table of the ordered application.
  \<^item> \<open>Replay\<close> (\<^verbatim>\<open>logbased/replay.rs\<close>): window identities, pending markers, the replay plan and
    its memo; an append interrupted and replayed any number of times lands every event once.
  \<^item> \<open>Drain\<close>, \<open>Drain_Session\<close>, \<open>Drain_Correct\<close> (\<^verbatim>\<open>logbased/drain.rs\<close>): the session that
    outlives a window, every message handler, the keepalive and follow rule, the loop, the
    transaction carried over a cut and the seal. Shown: memory accounting and its cap,
    savepoint rollback, which commits are refused, that the windows of a session hold
    exactly the committed transactions in commit order, and that a table fed window by
    window equals the replay of the log.
  \<^item> \<open>Rowtext\<close> (\<^verbatim>\<open>logbased/rowtext.rs\<close>, \<^verbatim>\<open>wire/mytsv.rs\<close>, \<^verbatim>\<open>wire/pgtext.rs\<close>): escapes with the
    eight-byte probe, their readers, row and key renderers, key literals. Shown: the probe
    is exact, rows read back cell by cell, literals cannot be broken out of, unknown values
    are refused.
  \<^item> \<open>Pgbindec\<close>, \<open>Binary_Rows\<close> (\<^verbatim>\<open>wire/pgbindec.rs\<close>): send-format values to the text forms of
    PostgreSQL. Shown: the renderable types are exactly those listed, the date algorithm
    walks the Gregorian calendar, a row of binary cells reads back as its text forms.
  \<^item> \<open>Pgcopy\<close> (\<^verbatim>\<open>wire/pgcopy.rs\<close>): binary COPY framing, the numeric encoder and its decoders,
    the span stripper. Shown: encoding decodes to the number of the text, the unchecked fast
    path equals the general decoder on decimal groups (and where it does not otherwise), the
    stripper does not depend on how a span is cut.
  \<^item> \<open>Rowbinary\<close>, \<open>Transcoder\<close> (\<^verbatim>\<open>wire/rowbinary.rs\<close>, the RowBinary renderers of
    \<^verbatim>\<open>logbased/rowtext.rs\<close>): the streaming transcoder from binary COPY to RowBinary. Shown: it
    does not depend on how the stream is cut, and snapshot and change stream give a row the
    same bytes or the same error.
  \<^item> \<open>Watermark\<close> (\<^verbatim>\<open>plan.rs\<close>): the cursor of an incremental load and the choice of the watermark
    between recorded state and data. Shown: decimal texts compare as the numbers they
    denote, and the chosen watermark is the greatest of the two.
  \<^item> \<open>Naming\<close> (\<^verbatim>\<open>naming.rs\<close>): artifacts and their names, run tokens, how a run reads the name of
    another's artifact and which runs block each other, state rows and lanes, the releases
    that must see each other. Shown: names fit the identifier limits, a minted name reads
    back as what it is, a state row serves one lane only.
  \<^item> \<open>Guard\<close>, \<open>Tenure\<close> (\<^verbatim>\<open>guard.rs\<close>, \<^verbatim>\<open>lease.rs\<close>, with the PostgreSQL stores of
    \<^verbatim>\<open>sink/postgres.rs\<close> and \<^verbatim>\<open>logbased/dest_pg.rs\<close>): announcement, check, collection and
    release, the tenure of a drain, its units and its keeper, as programs of store calls
    over a catalog of objects and lease rows.
  \<^item> \<open>Interleave\<close>: any number of drains and bulk loads, call by call, as a step relation; calls
    fail or take effect unnoticed, runs stop anywhere, leases are renewed and lapse.
  \<^item> \<open>Calls\<close>, \<open>Rivals\<close>, \<open>Store_Laws\<close>, \<open>Exclusion\<close>: what a program may still do against every
    reply, what a check does about a rival, the laws a store must keep (the locale
    \<open>claim_store\<close>, interpreted on the catalog), and the invariant of the reachable states.
    Shown: two runs past their checks of one table are incremental loads of different
    sources.
  \<^item> \<open>Binlog\<close>, \<open>Binlog_Correct\<close> (\<^verbatim>\<open>wire/mybinlog.rs\<close>): the row binlog of MySQL and MariaDB, from the
    event header to the messages the drain consumes: table maps, row images, every cell
    format, the refusal of events that may carry changes. Shown: the loop over the rows of
    an event ends on any bytes, without a panic.
  \<^item> \<open>Recovery\<close>: the objects of drains that stopped are collected by the next run one lease
    time later.

  Parameters stand for what is not in the repository: the hexadecimal crate, the digits
  printed by the itoa and ryu crates (\<open>number_text\<close>), the float division of an unconstrained
  numeric (\<open>to_f64\<close>), the MD5 digest of the naming rules (\<open>md5_hex\<close>), the clock and the
  environment of the drain, the query that refetches unsent cells, and the destination's
  answers to a replay probe. What PostgreSQL does with the statements of the lease and guard
  is written out in \<open>Guard\<close> (\<open>serve\<close>) and \<open>Tenure\<close>: a statement is atomic, a row locked by an
  open transaction cannot be claimed. Where a theorem relies on one of them the hypothesis is named in its statement.

  Loops are total functions, but for the rows of a binlog event, whose loop is a partial
  function and proved to end: the readers recurse on the bytes left, the drain loop on the
  events it is given (a finite list of what the wire delivered; running out of events is a
  window not yet ended, a value of the model and not an error). No fuel is used.

  Word widths are kept where the code depends on them (frame offsets, sequence numbers,
  LSNs, the probe); lengths and counters of \<^verbatim>\<open>usize\<close> that the code never wraps are naturals.

  Not modelled: the drivers of sources and sinks, SQL text and HTTP calls of the
  destinations (their effects are in the network and the servers), the run loop and the MySQL
  binlog session, columnar row formats, the lease and guard stores of the engines other than
  PostgreSQL, cloud credentials, the Python bindings and the vendored database client.
\<close>

end
